(* ===== verification/Prelude.thy ===== *)
theory Prelude
  imports Main "HOL-Library.Code_Target_Numeral"
begin

text \<open>
  Shared vocabulary of the development.

  A C function is a HOL function into \<open>fault + 'a\<close>: \<open>Inr\<close> is a normal return (value and new
  state), \<open>Inl\<close> says how the execution stopped: a failed \<open>bf_sys_assert\<close>/\<open>assert\<close>, an access
  through NULL or outside an array, a shift by at least the width, an \<open>int\<close> that overflows, or
  a loop that does not end.
  \<open>bnd\<close> is the sequencing of such results.

  Unsigned machine integers are natural numbers with the wrap-around written out:
  \<open>W32\<close> and \<open>W64\<close> are the two moduli, \<open>add32\<close>, \<open>sub32\<close>, \<open>mul32\<close> the operators on
  \<open>uint32_t\<close>, \<open>s32\<close> the conversion to \<open>int\<close>, \<open>u32_of_int\<close> the cast of an \<open>int\<close> to
  \<open>unsigned\<close>.
\<close>

named_theorems u32_simps \<open>machine arithmetic that does not overflow\<close>

section \<open>Results of C functions\<close>

datatype fault = Assert_failed | Bad_access | Undefined_shift | Signed_overflow | Diverges

type_synonym 'a res = "fault + 'a"

definition bnd :: "'a res \<Rightarrow> ('a \<Rightarrow> 'b res) \<Rightarrow> 'b res" where
  "bnd m f = (case m of Inl e \<Rightarrow> Inl e | Inr x \<Rightarrow> f x)"

lemma bnd_simps [simp]:
  "bnd (Inl e) f = Inl e"
  "bnd (Inr x) f = f x"
  by (simp_all add: bnd_def)

lemma bnd_cong [fundef_cong]:
  "m = m' \<Longrightarrow> (\<And>x. m' = Inr x \<Longrightarrow> f x = g x) \<Longrightarrow> bnd m f = bnd m' g"
  by (cases m') simp_all

lemma bnd_eq_Inr_iff: "bnd m f = Inr y \<longleftrightarrow> (\<exists>x. m = Inr x \<and> f x = Inr y)"
  by (cases m) simp_all

lemma bnd_Inr_right [simp]: "bnd m Inr = m"
  by (cases m) simp_all

lemma bnd_assoc: "bnd (bnd m f) g = bnd m (\<lambda>x. bnd (f x) g)"
  by (cases m) simp_all

section \<open>Unsigned 32-bit and 64-bit arithmetic\<close>

definition W32 :: nat where "W32 = 4294967296"
definition W64 :: nat where "W64 = 18446744073709551616"

lemma W32_pos [simp]: "0 < W32"
  by (simp add: W32_def)

lemma W32_pow: "W32 = 2 ^ 32"
  by (simp add: W32_def)

lemma W64_pow: "W64 = 2 ^ 64"
  by (simp add: W64_def)

lemma W32_less_W64 [simp]: "W32 < W64"
  by (simp add: W32_def W64_def)

definition u32 :: "nat \<Rightarrow> nat" where "u32 n = n mod W32"

definition add32 :: "nat \<Rightarrow> nat \<Rightarrow> nat" where "add32 a b = (a + b) mod W32"

definition sub32 :: "nat \<Rightarrow> nat \<Rightarrow> nat" where "sub32 a b = (a + (W32 - b mod W32)) mod W32"

definition mul32 :: "nat \<Rightarrow> nat \<Rightarrow> nat" where "mul32 a b = (a * b) mod W32"

text \<open>\<open>(uint32_t)-1\<close>, the failure value of several functions.\<close>

definition M1 :: nat where "M1 = 4294967295"

lemma M1_W32: "M1 = W32 - 1"
  by (simp add: M1_def W32_def)

lemma less_M1: "n < M1 \<Longrightarrow> n < W32"
  by (simp add: M1_def W32_def)

lemma u32_id [u32_simps]: "n < W32 \<Longrightarrow> u32 n = n"
  by (simp add: u32_def)

lemma u32_less [simp]: "u32 n < W32"
  by (simp add: u32_def)

lemma add32_id [u32_simps]: "a + b < W32 \<Longrightarrow> add32 a b = a + b"
  by (simp add: add32_def)

lemma add32_less [simp]: "add32 a b < W32"
  by (simp add: add32_def)

lemma mul32_id [u32_simps]: "a * b < W32 \<Longrightarrow> mul32 a b = a * b"
  by (simp add: mul32_def)

lemma sub32_id [u32_simps]:
  assumes "b \<le> a" and "a < W32"
  shows "sub32 a b = a - b"
proof -
  have "a + (W32 - b mod W32) = (a - b) + W32"
    using assms by simp
  then have "sub32 a b = ((a - b) + W32) mod W32"
    by (simp only: sub32_def)
  also have "\<dots> = (a - b) mod W32" by (rule mod_add_self2)
  also have "\<dots> = a - b" using assms by (intro mod_less) simp
  finally show ?thesis .
qed

lemma sub32_less [simp]: "sub32 a b < W32"
  by (simp add: sub32_def)

text \<open>64-bit subtraction.\<close>

definition sub64 :: "nat \<Rightarrow> nat \<Rightarrow> nat" where
  "sub64 a b = (a + (W64 - b mod W64)) mod W64"

lemma sub64_id: "b \<le> a \<Longrightarrow> a < W64 \<Longrightarrow> sub64 a b = a - b"
proof -
  assume "b \<le> a" "a < W64"
  then have "a + (W64 - b mod W64) = (a - b) + W64" by simp
  then have "sub64 a b = ((a - b) + W64) mod W64" by (simp only: sub64_def)
  then show ?thesis using \<open>a < W64\<close> by simp
qed

lemma sub64_wrap: "a < b \<Longrightarrow> b < W32 \<Longrightarrow> W32 \<le> sub64 a b"
proof -
  assume "a < b" "b < W32"
  then have "b < W64" "a + (W64 - b) < W64" "W32 + b \<le> W64"
    using W32_less_W64 by (linarith, linarith, simp add: W32_def W64_def)
  then show ?thesis by (simp add: sub64_def)
qed

section \<open>Conversions between unsigned and int\<close>

definition s32 :: "nat \<Rightarrow> int" where
  "s32 n = (if n mod W32 < 2147483648 then int (n mod W32) else int (n mod W32) - int W32)"

definition u32_of_int :: "int \<Rightarrow> nat" where
  "u32_of_int i = nat (i mod int W32)"

lemma s32_id: "n < 2147483648 \<Longrightarrow> s32 n = int n"
  by (simp add: s32_def W32_def)

lemma u32_of_int_id: "0 \<le> i \<Longrightarrow> i < int W32 \<Longrightarrow> u32_of_int i = nat i"
  by (simp add: u32_of_int_def)

lemma s32_M1: "s32 M1 = - 1"
  by (simp add: s32_def M1_def W32_def)

lemma u32_of_int_s32 [simp]: "n < W32 \<Longrightarrow> u32_of_int (s32 n) = n"
  by (auto simp: u32_of_int_def s32_def)

lemma s32_eq_m1_iff: "n < W32 \<Longrightarrow> s32 n = - 1 \<longleftrightarrow> n = M1"
  by (auto simp: s32_def M1_def W32_def)

text \<open>An \<open>int\<close> converted to a 64-bit word.\<close>

definition u64_of_int :: "int \<Rightarrow> nat" where
  "u64_of_int i = nat (i mod int W64)"

lemma u64_of_int_id: "0 \<le> i \<Longrightarrow> i < int W64 \<Longrightarrow> u64_of_int i = nat i"
  by (simp add: u64_of_int_def)

text \<open>\<open>++count\<close> on an \<open>int\<close>.\<close>

definition inc_int :: "int \<Rightarrow> int res" where
  "inc_int c = (if c < 2147483647 then Inr (c + 1) else Inl Signed_overflow)"

text \<open>\<open>for (i = lo; i < hi; i++)\<close> with a \<open>uint32_t\<close> counter and a 64-bit bound: the values of
  the counter. With a bound above the largest \<open>uint32_t\<close> the condition never fails.\<close>

definition u32_range :: "nat \<Rightarrow> nat \<Rightarrow> nat list res" where
  "u32_range lo hi = (if hi < W32 then Inr [u32 lo..<hi] else Inl Diverges)"

text \<open>The position a search returns, -1 for none.\<close>

definition pos_of :: "nat option \<Rightarrow> int" where
  "pos_of r = (case r of None \<Rightarrow> - 1 | Some p \<Rightarrow> int p)"

lemma pos_of_simps [simp]: "pos_of None = - 1" "pos_of (Some p) = int p"
  by (simp_all add: pos_of_def)

section \<open>Loops\<close>

text \<open>\<open>for (i = lo; i < hi; ++i) body\<close> on an index that does not wrap. The body returns \<open>Inl r\<close>
  for \<open>return r\<close> and \<open>Inr s\<close> to go on with the state \<open>s\<close>.\<close>

function for_loop :: "nat \<Rightarrow> nat \<Rightarrow> (nat \<Rightarrow> 's \<Rightarrow> ('r + 's) res) \<Rightarrow> 's \<Rightarrow> ('r + 's) res" where
  "for_loop i n body s =
     (if i < n then bnd (body i s) (\<lambda>c. case c of Inl r \<Rightarrow> Inr (Inl r) | Inr s' \<Rightarrow> for_loop (Suc i) n body s')
      else Inr (Inr s))"
  by pat_completeness auto
termination by (relation "measure (\<lambda>(i, n, body, s). n - i)") auto

declare for_loop.simps [simp del]

lemma for_loop_search:
  assumes "\<And>i. lo \<le> i \<Longrightarrow> i < hi \<Longrightarrow> body i s = Inr (if P i then Inl (f i) else Inr s)"
  shows "for_loop lo hi body s = Inr (case find P [lo..<hi] of Some i \<Rightarrow> Inl (f i) | None \<Rightarrow> Inr s)"
  using assms
proof (induction "hi - lo" arbitrary: lo)
  case 0
  then show ?case by (subst for_loop.simps) simp
next
  case (Suc n)
  then have "for_loop (Suc lo) hi body s = Inr (case find P [Suc lo..<hi] of Some i \<Rightarrow> Inl (f i) | None \<Rightarrow> Inr s)" by simp
  moreover have "lo < hi" using Suc.hyps(2) by simp
  ultimately show ?case using Suc.prems [of lo] by (subst for_loop.simps) (simp add: upt_conv_Cons)
qed

lemma for_loop_fold:
  assumes "I lo s" "lo \<le> hi"
    and "\<And>i s. lo \<le> i \<Longrightarrow> i < hi \<Longrightarrow> I i s \<Longrightarrow> \<exists>s'. body i s = Inr (Inr s') \<and> I (Suc i) s'"
  shows "\<exists>s'. for_loop lo hi body s = Inr (Inr s') \<and> I hi s'"
  using assms
proof (induction "hi - lo" arbitrary: lo s)
  case 0
  then show ?case by (subst for_loop.simps) simp
next
  case (Suc n)
  have lt: "lo < hi" using Suc.hyps(2) by simp
  with Suc.prems(3) [of lo s] Suc.prems(1) obtain t where t: "body lo s = Inr (Inr t)" "I (Suc lo) t" by auto
  from Suc.hyps(1) [of "Suc lo" t] Suc.hyps(2) t(2) Suc.prems(3) have
    "\<exists>s'. for_loop (Suc lo) hi body t = Inr (Inr s') \<and> I hi s'" by simp
  with t(1) lt show ?case by (subst for_loop.simps) simp
qed

section \<open>Lists\<close>

lemma find_eq_Some_hd_filter:
  "find P xs = (case filter P xs of [] \<Rightarrow> None | x # _ \<Rightarrow> Some x)"
  by (induction xs) auto

lemma find_append: "find P (xs @ ys) = (case find P xs of None \<Rightarrow> find P ys | Some x \<Rightarrow> Some x)"
  by (induction xs) auto

lemma find_None_all: "find P xs = None \<longleftrightarrow> (\<forall>x \<in> set xs. \<not> P x)"
  by (induction xs) auto

lemma find_upt:
  "find P [a..<b] = Some p \<longleftrightarrow> a \<le> p \<and> p < b \<and> P p \<and> (\<forall>q. a \<le> q \<and> q < p \<longrightarrow> \<not> P q)"
proof
  assume "find P [a..<b] = Some p"
  then obtain i where "i < b - a" "P (a + i)" "p = a + i" "\<forall>j < i. \<not> P (a + j)" by (auto simp: find_Some_iff)
  then show "a \<le> p \<and> p < b \<and> P p \<and> (\<forall>q. a \<le> q \<and> q < p \<longrightarrow> \<not> P q)"
    by (auto dest: spec [of _ "_ - a"] le_Suc_ex)
next
  assume "a \<le> p \<and> p < b \<and> P p \<and> (\<forall>q. a \<le> q \<and> q < p \<longrightarrow> \<not> P q)"
  then show "find P [a..<b] = Some p" unfolding find_Some_iff by (intro exI [of _ "p - a"]) auto
qed

lemma find_rev_upt:
  "find P (rev [a..<b]) = Some p \<longleftrightarrow> a \<le> p \<and> p < b \<and> P p \<and> (\<forall>q. p < q \<and> q < b \<longrightarrow> \<not> P q)"
  by (induction b) (auto simp: less_Suc_eq not_less split: if_splits)

lemma find_SomeD: "find P xs = Some x \<Longrightarrow> x \<in> set xs \<and> P x"
  by (induction xs) (auto split: if_splits)

end
