(* ===== verification/Bit_Utils.thy ===== *)
theory Bit_Utils
  imports Prelude
begin

unbundle bit_operations_syntax

text \<open>
  include/target-utils/bit_utils/bit_utils.h: integer logarithms, trailing zeroes and powers of
  two on \<open>uint32_t\<close>. The compiler builtins \<open>__builtin_clz\<close> and \<open>__builtin_ctz\<close> are
  \<open>builtin_clz\<close> and \<open>builtin_ctz\<close>; both are called on non-zero arguments only. The lemmas
  characterise each function by powers of two; the rest of the development uses only these.
\<close>

section \<open>The compiler builtins\<close>

fun bit_length :: "nat \<Rightarrow> nat" where
  "bit_length n = (if n = 0 then 0 else Suc (bit_length (n div 2)))"

declare bit_length.simps [simp del]

definition builtin_clz :: "nat \<Rightarrow> nat" where
  "builtin_clz x = 32 - bit_length x"

fun builtin_ctz :: "nat \<Rightarrow> nat" where
  "builtin_ctz n = (if n = 0 \<or> odd n then 0 else Suc (builtin_ctz (n div 2)))"

declare builtin_ctz.simps [simp del]

section \<open>bit\_utils.h\<close>

definition log2_uint32_ceil :: "nat \<Rightarrow> nat" where
  "log2_uint32_ceil x = (if x > 1 then 32 - builtin_clz (x - 1) else 0)"

definition log2_uint32_floor :: "nat \<Rightarrow> nat" where
  "log2_uint32_floor x = (if x \<noteq> 0 then 31 - builtin_clz x else 0)"

definition ctz :: "nat \<Rightarrow> nat" where
  "ctz x = (if x \<noteq> 0 then builtin_ctz x else 32)"

definition is_uint32_power2 :: "nat \<Rightarrow> bool" where
  "is_uint32_power2 x \<longleftrightarrow> x > 0 \<and> x AND (x - 1) = 0"

text \<open>The C expressions \<open>1 << k\<close> and \<open>1u << k\<close> on 32-bit operands, as \<open>uint32_t\<close>. For \<open>k = 31\<close>
  the first is the most negative \<open>int\<close> (GCC, whose builtins this header requires, defines it so).\<close>

definition shl1 :: "nat \<Rightarrow> nat res" where
  "shl1 k = (if k < 32 then Inr (2 ^ k) else Inl Undefined_shift)"

definition next_pow2 :: "nat \<Rightarrow> nat res" where
  "next_pow2 x = shl1 (log2_uint32_ceil x)"

section \<open>Characterisation\<close>

lemma bit_length_le_iff: "bit_length n \<le> k \<longleftrightarrow> n < 2 ^ k"
proof (induction n arbitrary: k rule: bit_length.induct)
  case (1 n)
  show ?case
  proof (cases "n = 0")
    case True
    then show ?thesis by (simp add: bit_length.simps)
  next
    case n: False
    show ?thesis
    proof (cases k)
      case 0
      with n show ?thesis by (simp add: bit_length.simps [of n])
    next
      case (Suc j)
      have "bit_length n \<le> Suc j \<longleftrightarrow> n div 2 < 2 ^ j"
        using n "1.IH" by (simp add: bit_length.simps [of n])
      also have "\<dots> \<longleftrightarrow> n < 2 ^ Suc j" by auto
      finally show ?thesis using Suc by simp
    qed
  qed
qed

lemma log2_ceil_eq: "x < W32 \<Longrightarrow> log2_uint32_ceil x = bit_length (x - 1)"
  using bit_length_le_iff [of "x - 1" 32]
  by (auto simp: log2_uint32_ceil_def builtin_clz_def W32_pow bit_length.simps [of 0])

lemma log2_ceil_le_iff: "x < W32 \<Longrightarrow> log2_uint32_ceil x \<le> k \<longleftrightarrow> x \<le> 2 ^ k"
  by (cases x) (auto simp: log2_ceil_eq bit_length_le_iff Suc_le_eq)

lemma log2_ceil_ge: "x < W32 \<Longrightarrow> x \<le> 2 ^ log2_uint32_ceil x"
  using log2_ceil_le_iff by blast

lemma log2_ceil_mono: "x \<le> y \<Longrightarrow> y < W32 \<Longrightarrow> log2_uint32_ceil x \<le> log2_uint32_ceil y"
  using log2_ceil_ge [of y] by (simp add: log2_ceil_le_iff)

lemma log2_ceil_ge_exp: "2 ^ k \<le> x \<Longrightarrow> x < W32 \<Longrightarrow> k \<le> log2_uint32_ceil x"
proof -
  assume "2 ^ k \<le> x" and "x < W32"
  then have "(2::nat) ^ k \<le> 2 ^ log2_uint32_ceil x"
    using log2_ceil_ge [of x] by (rule_tac le_trans)
  then show ?thesis by (simp add: power_increasing_iff)
qed

lemma log2_ceil_pred: "0 < log2_uint32_ceil x \<Longrightarrow> x < W32 \<Longrightarrow> 2 ^ (log2_uint32_ceil x - 1) < x"
  using log2_ceil_le_iff [of x "log2_uint32_ceil x - 1"] by linarith

lemma log2_ceil_power [simp]: "k < 32 \<Longrightarrow> log2_uint32_ceil (2 ^ k) = k"
proof -
  assume k: "k < 32"
  then have "(2::nat) ^ k < W32" unfolding W32_pow by (rule power_strict_increasing) simp
  then have "log2_uint32_ceil (2 ^ k) \<le> k" and "k \<le> log2_uint32_ceil (2 ^ k)"
    by (simp_all add: log2_ceil_le_iff log2_ceil_ge_exp)
  then show ?thesis by simp
qed

lemma log2_floor_bounds:
  assumes "0 < x" and "x < W32"
  shows "2 ^ log2_uint32_floor x \<le> x \<and> x < 2 ^ Suc (log2_uint32_floor x)"
proof -
  have le: "bit_length x \<le> 32" using assms bit_length_le_iff [of x 32] by (simp add: W32_pow)
  have pos: "0 < bit_length x" using assms bit_length_le_iff [of x 0] by simp
  have f: "Suc (log2_uint32_floor x) = bit_length x"
    using assms(1) le pos unfolding log2_uint32_floor_def builtin_clz_def by simp
  have "x < 2 ^ bit_length x" using bit_length_le_iff [of x "bit_length x"] by simp
  moreover have "\<not> x < 2 ^ (bit_length x - 1)"
    using bit_length_le_iff [of x "bit_length x - 1"] pos by linarith
  moreover have "log2_uint32_floor x = bit_length x - 1" using f by linarith
  ultimately show ?thesis using f by simp
qed

lemma builtin_ctz_dvd_iff: "0 < n \<Longrightarrow> 2 ^ k dvd n \<longleftrightarrow> k \<le> builtin_ctz n"
proof (induction n arbitrary: k rule: builtin_ctz.induct)
  case (1 n)
  show ?case
  proof (cases "odd n")
    case True
    then show ?thesis
      by (cases k) (auto simp: builtin_ctz.simps [of n] dest: dvd_mult_left)
  next
    case False
    then obtain m where m: "n = 2 * m" by blast
    show ?thesis
    proof (cases k)
      case 0
      then show ?thesis by simp
    next
      case (Suc j)
      have "2 ^ j dvd n div 2 \<longleftrightarrow> j \<le> builtin_ctz (n div 2)"
        using 1 False m by auto
      moreover have "builtin_ctz n = Suc (builtin_ctz (n div 2))"
        using False "1.prems" by (subst builtin_ctz.simps) simp
      ultimately show ?thesis using Suc m by simp
    qed
  qed
qed

lemma ctz_dvd_iff: "0 < n \<Longrightarrow> 2 ^ k dvd n \<longleftrightarrow> k \<le> ctz n"
  by (simp add: ctz_def builtin_ctz_dvd_iff)

lemma ctz_min_dvd: "m \<le> 32 \<Longrightarrow> k \<le> m \<Longrightarrow> 2 ^ k dvd n \<longleftrightarrow> k \<le> ctz n"
  by (cases "n = 0") (auto simp: ctz_dvd_iff ctz_def)

lemma ctz_less_32: "0 < n \<Longrightarrow> n < W32 \<Longrightarrow> ctz n < 32"
proof -
  assume n: "0 < n" "n < W32"
  then have "2 ^ ctz n \<le> n" using ctz_dvd_iff [of n "ctz n"] by (simp add: dvd_imp_le)
  with n have "(2::nat) ^ ctz n < 2 ^ 32" unfolding W32_pow by (rule_tac le_less_trans)
  then show ?thesis by (rule power_less_imp_less_exp [rotated]) simp
qed

lemma ctz_le_32: "n < W32 \<Longrightarrow> ctz n \<le> 32"
  using ctz_less_32 [of n] by (cases "n = 0") (auto simp: ctz_def)

lemma ctz_power [simp]: "ctz (2 ^ k) = k"
proof -
  have "j \<le> ctz (2 ^ k) \<longleftrightarrow> j \<le> k" for j
    using ctz_dvd_iff [of "2 ^ k" j] by (simp add: dvd_power_iff_le)
  then show ?thesis by (meson order_antisym order_refl)
qed

lemma and_pred_eq_0_iff:
  fixes x :: nat
  assumes "0 < x"
  shows "x AND (x - 1) = 0 \<longleftrightarrow> (\<exists>k. x = 2 ^ k)"
  using assms
proof (induction x rule: less_induct)
  case (less x)
  show ?case
  proof (cases "odd x")
    case True
    then obtain m where m: "x = 2 * m + 1" by (elim oddE)
    have "x AND (x - 1) = 2 * m"
      using m by (simp add: and_rec [of "Suc (2 * m)"])
    moreover have "(\<exists>k. x = 2 ^ k) \<longleftrightarrow> m = 0"
    proof
      assume "\<exists>k. x = 2 ^ k"
      then obtain k where "x = 2 ^ k" by blast
      with True have "k = 0" by (cases k) auto
      with \<open>x = 2 ^ k\<close> m show "m = 0" by simp
    next
      assume "m = 0"
      with m show "\<exists>k. x = 2 ^ k" by (intro exI [of _ 0]) simp
    qed
    ultimately show ?thesis by simp
  next
    case False
    then obtain m where m: "x = 2 * m" by blast
    with less.prems have mpos: "0 < m" and lt: "m < x" by auto
    have "x AND (x - 1) = 2 * (m AND (m - 1))"
    proof -
      have "(2 * m - 1) div 2 = m - 1" using mpos by arith
      then show ?thesis using m by (simp add: and_rec [of "2 * m"])
    qed
    moreover have "(\<exists>k. x = 2 ^ k) \<longleftrightarrow> (\<exists>k. m = 2 ^ k)"
    proof
      assume "\<exists>k. x = 2 ^ k"
      then obtain k where k: "x = 2 ^ k" by blast
      with False m have "k \<noteq> 0" by (intro notI) simp
      with k m show "\<exists>k. m = 2 ^ k" by (cases k) auto
    next
      assume "\<exists>k. m = 2 ^ k"
      with m show "\<exists>k. x = 2 ^ k" by (metis power_Suc)
    qed
    ultimately show ?thesis using less.IH [OF lt mpos] by simp
  qed
qed

lemma is_uint32_power2_iff: "is_uint32_power2 x \<longleftrightarrow> (\<exists>k. x = 2 ^ k)"
  using and_pred_eq_0_iff [of x] by (auto simp: is_uint32_power2_def)

section \<open>Properties\<close>



end
