(* ===== verification/Judy.thy ===== *)
theory Judy
  imports Prelude
begin

text \<open>
  The Judy library (third-party/judy-1.0.5) as its manual pages describe it, and the rest of the
  environment the C code runs in.

  A Judy1 array (a set of words) is the ascending list of its members, \<open>j1\<close>; a JudyL array (a
  map from words to words) is the list of its index/value pairs in ascending order of index, \<open>jl\<close>.
  Both representations are canonical: two arrays with the same content are the same list.
  \<open>J1S\<close>, \<open>J1U\<close>, \<open>J1T\<close>, \<open>J1F\<close>, \dots and \<open>JLI\<close>, \<open>JLD\<close>, \<open>JLG\<close>, \<open>JLF\<close>, \<open>JLN\<close>, \<open>JLP\<close>,
  \<open>JLC\<close>, \<open>JLFA\<close> are the macros of Judy.h, as doc/ext/Judy1\_3.htm and doc/ext/JudyL\_3.htm
  document them. What the pages leave open is a parameter, a field of the record \<open>env\<close>:
  which calls fail (\<open>JERR\<close>/\<open>PJERR\<close>), and what a search that finds nothing leaves in
  \<open>Index\<close> (\<open>lost\<close>: ``contains no useful information'').  The header is compiled with
  JUDYERROR\_NOTEST, so a failure is returned to the caller.

  \<open>env\<close> also says whether \<open>bf_sys_assert\<close> is compiled in (\<open>asserts\<close>) and which
  \<open>bf_sys_malloc\<close>/\<open>bf_sys_calloc\<close> calls succeed (\<open>mem\<close>, by the number of the call in the function).
  \<open>quiet E\<close> is an environment in which no allocation fails.
\<close>

section \<open>Arrays and environment\<close>

type_synonym jl = "(nat \<times> nat) list"
type_synonym j1 = "nat list"

datatype jop = JIns | JDel | JGet | JFirst | JNext | JPrev

record env =
  asserts :: bool
  dbgchk :: bool
  jl_err :: "jop \<Rightarrow> jl \<Rightarrow> nat \<Rightarrow> bool"
  j1_err :: "jop \<Rightarrow> j1 \<Rightarrow> nat \<Rightarrow> bool"
  lost :: "j1 \<Rightarrow> nat \<Rightarrow> nat"
  mem :: "nat \<Rightarrow> bool"

definition quiet :: "env \<Rightarrow> bool" where
  "quiet E \<longleftrightarrow> (\<forall>op a i. \<not> jl_err E op a i) \<and> (\<forall>op a i. \<not> j1_err E op a i) \<and> (\<forall>n. mem E n)"

lemma quiet_simps [simp]:
  "quiet E \<Longrightarrow> \<not> jl_err E op a i"
  "quiet E \<Longrightarrow> \<not> j1_err E op b i"
  "quiet E \<Longrightarrow> mem E n"
  by (simp_all add: quiet_def)

text \<open>A failing assertion stops the program when assertions are compiled in.\<close>

definition c_assert :: "env \<Rightarrow> bool \<Rightarrow> unit res" where
  "c_assert E b = (if b \<or> \<not> asserts E then Inr () else Inl Assert_failed)"

lemma c_assert_True [simp]: "c_assert E True = Inr ()"
  by (simp add: c_assert_def)

lemma c_assert_I: "b \<Longrightarrow> c_assert E b = Inr ()"
  by (simp add: c_assert_def)

text \<open>\<open>bf_sys_dbgchk\<close> is a second check of the system library; whether it stops the program is
  the parameter \<open>dbgchk\<close>.\<close>

definition c_dbgchk :: "env \<Rightarrow> bool \<Rightarrow> unit res" where
  "c_dbgchk E b = (if b \<or> \<not> dbgchk E then Inr () else Inl Assert_failed)"

text \<open>The environment of the witnesses: assertions on, nothing fails, a failed search returns
  its argument incremented.\<close>

definition env0 :: env where
  "env0 = \<lparr>asserts = True, dbgchk = True, jl_err = (\<lambda>_ _ _. False), j1_err = (\<lambda>_ _ _. False),
           lost = (\<lambda>_ i. Suc i), mem = (\<lambda>_. True)\<rparr>"

lemma quiet_env0 [simp]: "quiet env0"
  by (simp add: quiet_def env0_def)

section \<open>JudyL\<close>

subsection \<open>Ordered association lists\<close>

definition jl_ok :: "jl \<Rightarrow> bool" where
  "jl_ok a \<longleftrightarrow> sorted_wrt (<) (map fst a)"

fun jl_put :: "nat \<Rightarrow> nat \<Rightarrow> jl \<Rightarrow> jl" where
  "jl_put k v [] = [(k, v)]"
| "jl_put k v ((k', v') # a) =
     (if k < k' then (k, v) # (k', v') # a
      else if k = k' then (k, v) # a
      else (k', v') # jl_put k v a)"

fun jl_del :: "nat \<Rightarrow> jl \<Rightarrow> jl" where
  "jl_del k [] = []"
| "jl_del k ((k', v') # a) = (if k = k' then a else (k', v') # jl_del k a)"

lemma jl_ok_Nil [simp]: "jl_ok []"
  by (simp add: jl_ok_def)

lemma jl_ok_Cons: "jl_ok ((k, v) # a) \<longleftrightarrow> jl_ok a \<and> (\<forall>p \<in> set a. k < fst p)"
  by (auto simp: jl_ok_def)

lemma jl_ok_append:
  "jl_ok (a @ b) \<longleftrightarrow> jl_ok a \<and> jl_ok b \<and> (\<forall>p \<in> set a. \<forall>q \<in> set b. fst p < fst q)"
  by (auto simp: jl_ok_def sorted_wrt_append)

lemma jl_ok_distinct: "jl_ok a \<Longrightarrow> distinct (map fst a)"
  by (auto simp: jl_ok_def strict_sorted_iff)

lemma map_of_jl_put: "map_of (jl_put k v a) = (map_of a)(k \<mapsto> v)"
  by (induction k v a rule: jl_put.induct) auto

lemma fst_set_jl_put: "fst ` set (jl_put k v a) = insert k (fst ` set a)"
  by (induction k v a rule: jl_put.induct) auto

lemma jl_ok_put [intro]: "jl_ok a \<Longrightarrow> jl_ok (jl_put k v a)"
proof (induction k v a rule: jl_put.induct)
  case (2 k v k' v' a)
  have "\<forall>p \<in> set (jl_put k v a). k' < fst p" if "k' < k"
    using 2 that fst_set_jl_put [of k v a] by (force simp: jl_ok_Cons)
  with 2 show ?case by (force simp: jl_ok_Cons)
qed (simp add: jl_ok_def)

lemma set_jl_put: "jl_ok a \<Longrightarrow> set (jl_put k v a) = insert (k, v) {p \<in> set a. fst p \<noteq> k}"
  by (induction k v a rule: jl_put.induct) (auto simp: jl_ok_Cons)

lemma set_jl_del: "jl_ok a \<Longrightarrow> set (jl_del k a) = {p \<in> set a. fst p \<noteq> k}"
  by (induction k a rule: jl_del.induct) (auto simp: jl_ok_Cons)

lemma jl_ok_del [intro]: "jl_ok a \<Longrightarrow> jl_ok (jl_del k a)"
  by (induction k a rule: jl_del.induct) (auto simp: jl_ok_Cons set_jl_del)

lemma map_of_jl_del: "jl_ok a \<Longrightarrow> map_of (jl_del k a) = (map_of a)(k := None)"
proof (induction k a rule: jl_del.induct)
  case (2 k k' v' a)
  have "map_of a k' = None"
    using 2(2) by (auto simp: jl_ok_Cons map_of_eq_None_iff)
  with 2 show ?case by (auto simp: jl_ok_Cons fun_eq_iff)
qed simp

lemma map_of_jl: "jl_ok a \<Longrightarrow> map_of a k = Some v \<longleftrightarrow> (k, v) \<in> set a"
  by (simp add: jl_ok_distinct)

lemma jl_put_absent_mem: "jl_ok a \<Longrightarrow> map_of a k = None \<Longrightarrow> set (jl_put k v a) = insert (k, v) (set a)"
  by (auto simp: set_jl_put map_of_eq_None_iff)

lemma jl_mem_unique: "jl_ok a \<Longrightarrow> (k, v) \<in> set a \<Longrightarrow> (k, w) \<in> set a \<Longrightarrow> v = w"
  using map_of_jl by (metis option.inject)

lemma set_jl_del_mem:
  assumes "jl_ok a" "(k, v) \<in> set a"
  shows "set (jl_del k a) = set a - {(k, v)}"
proof -
  have "p \<in> set a \<and> fst p \<noteq> k \<longleftrightarrow> p \<in> set a \<and> p \<noteq> (k, v)" for p
    using jl_mem_unique [OF assms, of "snd p"] by (cases p) auto
  then show ?thesis unfolding set_jl_del [OF assms(1)] by blast
qed

lemma jl_put_append:
  "\<forall>p \<in> set a. fst p < k \<Longrightarrow> \<forall>p \<in> set b. k < fst p \<Longrightarrow> jl_put k v (a @ b) = a @ (k, v) # b"
proof (induction a)
  case Nil
  then show ?case by (cases b) auto
qed auto

lemma jl_put_put [simp]: "jl_put k v (jl_put k w a) = jl_put k v a"
  by (induction k w a rule: jl_put.induct) auto

lemma jl_del_append:
  "\<forall>p \<in> set a. fst p \<noteq> k \<Longrightarrow> jl_del k (a @ (k, v) # b) = a @ b"
  by (induction a) auto

lemma jl_unique: "jl_ok a \<Longrightarrow> jl_ok b \<Longrightarrow> set a = set b \<Longrightarrow> a = b"
proof (induction a arbitrary: b)
  case Nil
  then show ?case by simp
next
  case (Cons p a)
  then obtain q c where b: "b = q # c" by (cases b) auto
  have pq: "p = q"
  proof (rule ccontr)
    assume "p \<noteq> q"
    with Cons.prems(3) b have "p \<in> set c" and "q \<in> set a" by auto
    moreover have "fst p < fst q" if "q \<in> set a" using Cons.prems(1) that by (cases p) (auto simp: jl_ok_Cons)
    moreover have "fst q < fst p" if "p \<in> set c" using Cons.prems(2) b that by (cases q) (auto simp: jl_ok_Cons)
    ultimately show False by simp
  qed
  moreover have "p \<notin> set a" using Cons.prems(1) by (cases p) (auto simp: jl_ok_Cons)
  moreover have "q \<notin> set c" using Cons.prems(2) b by (cases q) (auto simp: jl_ok_Cons)
  moreover have "insert p (set a) = insert p (set c)" using Cons.prems(3) b pq by simp
  ultimately have "set a = set c" by (simp add: insert_ident)
  moreover have "jl_ok a" using Cons.prems(1) by (cases p) (simp add: jl_ok_Cons)
  moreover have "jl_ok c" using Cons.prems(2) b by (cases q) (simp add: jl_ok_Cons)
  ultimately have "a = c" using Cons.IH [of c] by blast
  with pq b show ?case by simp
qed

subsection \<open>The macros\<close>

text \<open>
  A \<open>PWord_t\<close> returned by Judy is \<open>PJERR\<close>, \<open>NULL\<close> or a pointer to the value of one index:
  \<open>PV k v\<close> is the pointer to the value \<open>v\<close> of index \<open>k\<close>. Storing \<open>w\<close> through it is \<open>jl_put k w\<close>.
\<close>

datatype pword = PJERR | PNULL | PV nat nat

definition jl_ptr :: "(nat \<times> nat) option \<Rightarrow> pword" where
  "jl_ptr r = (case r of None \<Rightarrow> PNULL | Some (k, v) \<Rightarrow> PV k v)"

text \<open>Dereferencing the pointer.\<close>

definition deref :: "pword \<Rightarrow> nat res" where
  "deref p = (case p of PV k v \<Rightarrow> Inr v | _ \<Rightarrow> Inl Bad_access)"

definition JLG :: "env \<Rightarrow> jl \<Rightarrow> nat \<Rightarrow> pword" where
  "JLG E a i = (if jl_err E JGet a i then PJERR
     else case map_of a i of None \<Rightarrow> PNULL | Some v \<Rightarrow> PV i v)"

definition JLI :: "env \<Rightarrow> jl \<Rightarrow> nat \<Rightarrow> pword \<times> jl" where
  "JLI E a i = (if jl_err E JIns a i then (PJERR, a)
     else case map_of a i of None \<Rightarrow> (PV i 0, jl_put i 0 a) | Some v \<Rightarrow> (PV i v, a))"

definition JLD :: "env \<Rightarrow> jl \<Rightarrow> nat \<Rightarrow> int \<times> jl" where
  "JLD E a i = (if jl_err E JDel a i then (- 1, a)
     else case map_of a i of None \<Rightarrow> (0, a) | Some v \<Rightarrow> (1, jl_del i a))"

text \<open>Searches: first index not below, next index above, previous index below. The index found
  is the first component of \<open>PV\<close>.\<close>

definition jl_first :: "jl \<Rightarrow> nat \<Rightarrow> (nat \<times> nat) option" where
  "jl_first a i = find (\<lambda>p. i \<le> fst p) a"

definition jl_next :: "jl \<Rightarrow> nat \<Rightarrow> (nat \<times> nat) option" where
  "jl_next a i = find (\<lambda>p. i < fst p) a"

definition jl_prev :: "jl \<Rightarrow> nat \<Rightarrow> (nat \<times> nat) option" where
  "jl_prev a i = find (\<lambda>p. fst p < i) (rev a)"

definition JLF :: "env \<Rightarrow> jl \<Rightarrow> nat \<Rightarrow> pword" where
  "JLF E a i = (if jl_err E JFirst a i then PJERR else jl_ptr (jl_first a i))"

definition JLN :: "env \<Rightarrow> jl \<Rightarrow> nat \<Rightarrow> pword" where
  "JLN E a i = (if jl_err E JNext a i then PJERR else jl_ptr (jl_next a i))"

definition JLP :: "env \<Rightarrow> jl \<Rightarrow> nat \<Rightarrow> pword" where
  "JLP E a i = (if jl_err E JPrev a i then PJERR else jl_ptr (jl_prev a i))"

text \<open>Number of indexes in a range, ends included; the whole array freed.\<close>

definition JLC :: "jl \<Rightarrow> nat \<Rightarrow> nat \<Rightarrow> nat" where
  "JLC a i j = length (filter (\<lambda>p. i \<le> fst p \<and> fst p \<le> j) a)"

definition JLFA :: "jl \<Rightarrow> jl" where
  "JLFA a = []"

lemma deref_simps [simp]: "deref (PV k v) = Inr v" "deref PJERR = Inl Bad_access" "deref PNULL = Inl Bad_access"
  by (simp_all add: deref_def)

lemma jl_ptr_simps [simp]: "jl_ptr None = PNULL" "jl_ptr (Some (k, v)) = PV k v"
  by (simp_all add: jl_ptr_def)

lemma jl_ptr_not_PJERR [simp]: "jl_ptr r \<noteq> PJERR"
  by (simp add: jl_ptr_def split: option.splits)

lemma JLI_absent: "\<not> jl_err E JIns a i \<Longrightarrow> map_of a i = None \<Longrightarrow> JLI E a i = (PV i 0, jl_put i 0 a)"
  by (simp add: JLI_def)

lemma JLG_present: "quiet E \<Longrightarrow> map_of a i = Some v \<Longrightarrow> JLG E a i = PV i v"
  by (simp add: JLG_def)

lemma JLD_present: "quiet E \<Longrightarrow> map_of a i = Some v \<Longrightarrow> JLD E a i = (1, jl_del i a)"
  by (simp add: JLD_def)

lemma jl_next_SomeD: "jl_next a i = Some p \<Longrightarrow> p \<in> set a \<and> i < fst p"
  unfolding jl_next_def by (rule find_SomeD)

lemma jl_next_None: "jl_next a i = None \<longleftrightarrow> (\<forall>p \<in> set a. fst p \<le> i)"
  by (auto simp: jl_next_def find_None_all not_less)

lemma jl_first_eq_next: "0 < i \<Longrightarrow> jl_first a i = jl_next a (i - 1)"
proof -
  assume "0 < i"
  then have "(\<lambda>p. i \<le> fst p) = (\<lambda>p :: nat \<times> nat. i - 1 < fst p)" by (auto simp: fun_eq_iff)
  then show ?thesis by (simp add: jl_first_def jl_next_def)
qed

lemma jl_first_0: "jl_first a 0 = (case a of [] \<Rightarrow> None | p # _ \<Rightarrow> Some p)"
  by (cases a) (auto simp: jl_first_def)

lemma find_skip: "\<forall>p \<in> set xs. \<not> P p \<Longrightarrow> find P (xs @ ys) = find P ys"
  by (induction xs) auto

lemma find_hd: "P y \<Longrightarrow> find P (y # ys) = Some y"
  by simp

lemma jl_next_split:
  assumes "\<forall>p \<in> set a. fst p \<le> i" and "\<forall>p \<in> set b. i < fst p"
  shows "jl_next (a @ b) i = (case b of [] \<Rightarrow> None | p # _ \<Rightarrow> Some p)"
proof -
  have "find (\<lambda>p. i < fst p) (a @ b) = find (\<lambda>p. i < fst p) b"
    using assms(1) by (intro find_skip) (auto simp: not_less)
  then show ?thesis using assms(2) by (cases b) (auto simp: jl_next_def)
qed

lemma jl_prev_split:
  assumes "\<forall>p \<in> set a. fst p < i" and "\<forall>p \<in> set b. i \<le> fst p"
  shows "jl_prev (a @ b) i = (if a = [] then None else Some (last a))"
proof -
  have "find (\<lambda>p. fst p < i) (rev b @ rev a) = find (\<lambda>p. fst p < i) (rev a)"
    using assms by (intro find_skip) (auto simp: not_less)
  then show ?thesis
    using assms by (cases a rule: rev_cases) (auto simp: jl_prev_def)
qed

lemma jl_next_shrinks:
  "jl_next a k = Some (k', v') \<Longrightarrow>
    length (filter (\<lambda>p. k' < fst p) a) < length (filter (\<lambda>p. k < fst p) a)"
proof -
  assume "jl_next a k = Some (k', v')"
  from jl_next_SomeD [OF this] have mem: "(k', v') \<in> set a" and less: "k < k'" by auto
  have "length (filter (\<lambda>p. k' < fst p) (filter (\<lambda>p. k < fst p) a)) < length (filter (\<lambda>p. k < fst p) a)"
    using mem less by (intro length_filter_less [where x = "(k', v')"]) auto
  moreover have "filter (\<lambda>p. k' < fst p) (filter (\<lambda>p. k < fst p) a) = filter (\<lambda>p. k' < fst p) a"
    using less by (auto intro: filter_cong)
  ultimately show ?thesis by simp
qed

subsection \<open>The loop JLF / JLN\<close>

text \<open>
  The C idiom \<open>JLF(P, a, i); while (P) { body; JLN(P, a, i); }\<close> is \<open>jl_while\<close>. The body gets
  the index, the value and the loop state and returns \<open>Inl r\<close> to leave the loop (break or return)
  or \<open>Inr s\<close> to go on. A \<open>PJERR\<close> result is not NULL, so the body dereferences it.
  On an array without allocation failures the loop is a fold over the pairs in order
  (\<open>jl_while_fold\<close>).
\<close>

function jl_while_from ::
  "env \<Rightarrow> jl \<Rightarrow> pword \<Rightarrow> (nat \<Rightarrow> nat \<Rightarrow> 's \<Rightarrow> ('r + 's) res) \<Rightarrow> 's \<Rightarrow> ('r + 's) res" where
  "jl_while_from E a p body s =
     (case p of PJERR \<Rightarrow> Inl Bad_access
      | PNULL \<Rightarrow> Inr (Inr s)
      | PV k v \<Rightarrow> bnd (body k v s) (\<lambda>c. case c of Inl r \<Rightarrow> Inr (Inl r)
          | Inr s' \<Rightarrow> jl_while_from E a (JLN E a k) body s'))"
  by pat_completeness auto

termination
  by (relation "measure (\<lambda>(E, a, p, body, s). case p of PV k v \<Rightarrow> Suc (length (filter (\<lambda>p. k < fst p) a)) | _ \<Rightarrow> 0)")
    (auto simp: JLN_def jl_ptr_def jl_next_shrinks split: pword.splits option.splits)

declare jl_while_from.simps [simp del]

definition jl_while ::
  "env \<Rightarrow> jl \<Rightarrow> nat \<Rightarrow> (nat \<Rightarrow> nat \<Rightarrow> 's \<Rightarrow> ('r + 's) res) \<Rightarrow> 's \<Rightarrow> ('r + 's) res" where
  "jl_while E a i body s = jl_while_from E a (JLF E a i) body s"

fun jl_fold :: "(nat \<Rightarrow> nat \<Rightarrow> 's \<Rightarrow> ('r + 's) res) \<Rightarrow> jl \<Rightarrow> 's \<Rightarrow> ('r + 's) res" where
  "jl_fold body [] s = Inr (Inr s)"
| "jl_fold body ((k, v) # a) s =
     bnd (body k v s) (\<lambda>c. case c of Inl r \<Rightarrow> Inr (Inl r) | Inr s' \<Rightarrow> jl_fold body a s')"

lemma jl_while_from_fold:
  assumes "quiet E" and "jl_ok (b @ (k, v) # a)"
  shows "jl_while_from E (b @ (k, v) # a) (PV k v) body s = jl_fold body ((k, v) # a) s"
  using assms(2)
proof (induction a arbitrary: b k v s)
  case Nil
  have "JLN E (b @ [(k, v)]) k = PNULL"
    using Nil assms(1) jl_next_split [of "b @ [(k, v)]" k "[]"]
    by (force simp: JLN_def jl_ok_append)
  then show ?case
    by (auto simp: jl_while_from.simps [of _ _ "PV k v"] jl_while_from.simps [of _ _ PNULL]
        intro!: arg_cong [where f = "bnd _"] split: sum.splits)
next
  case (Cons p a)
  obtain k' v' where p: "p = (k', v')" by (cases p)
  have "JLN E (b @ (k, v) # p # a) k = PV k' v'"
    using Cons.prems assms(1) jl_next_split [of "b @ [(k, v)]" k "p # a"]
    by (force simp: JLN_def jl_ok_append jl_ok_Cons p)
  moreover have "jl_while_from E ((b @ [(k, v)]) @ (k', v') # a) (PV k' v') body s' = jl_fold body ((k', v') # a) s'" for s'
    using Cons.prems by (intro Cons.IH) (simp add: p)
  ultimately show ?case
    by (auto simp: jl_while_from.simps [of _ _ "PV k v"] p
        intro!: arg_cong [where f = "bnd _"] split: sum.splits)
qed

lemma jl_while_fold:
  assumes "quiet E" and "jl_ok a"
  shows "jl_while E a 0 body s = jl_fold body a s"
proof (cases a)
  case Nil
  then show ?thesis
    using assms by (simp add: jl_while_def JLF_def jl_first_0 jl_while_from.simps [of _ _ PNULL])
next
  case (Cons p b)
  obtain k v where "p = (k, v)" by (cases p)
  with Cons show ?thesis
    using assms jl_while_from_fold [of E "[]" k v b]
    by (simp add: jl_while_def JLF_def jl_first_0)
qed

section \<open>The search interface\<close>

text \<open>
  What the callers use of a Judy search in either direction, whatever the kind of array: \<open>has a\<close>
  are the indexes searched for (present ones, or absent ones for the Empty functions), \<open>first\<close> is
  the inclusive search upwards, \<open>next\<close> and \<open>prev\<close> are the exclusive ones. The laws are
  those of the manual page; the lemmas say that the laws determine the results.
\<close>

locale ordered_search =
  fixes has :: "'a \<Rightarrow> nat \<Rightarrow> bool"
    and ok :: "'a \<Rightarrow> bool"
    and first :: "'a \<Rightarrow> nat \<Rightarrow> nat option"
    and "next" :: "'a \<Rightarrow> nat \<Rightarrow> nat option"
    and prev :: "'a \<Rightarrow> nat \<Rightarrow> nat option"
  assumes first_Some: "ok a \<Longrightarrow> first a i = Some k \<Longrightarrow> i \<le> k \<and> has a k \<and> (\<forall>j. i \<le> j \<and> j < k \<longrightarrow> \<not> has a j)"
    and first_None: "ok a \<Longrightarrow> first a i = None \<Longrightarrow> i \<le> j \<Longrightarrow> j < W64 \<Longrightarrow> \<not> has a j"
    and next_Some: "ok a \<Longrightarrow> next a i = Some k \<Longrightarrow> i < k \<and> has a k \<and> (\<forall>j. i < j \<and> j < k \<longrightarrow> \<not> has a j)"
    and next_None: "ok a \<Longrightarrow> next a i = None \<Longrightarrow> i < j \<Longrightarrow> j < W64 \<Longrightarrow> \<not> has a j"
    and prev_Some: "ok a \<Longrightarrow> prev a i = Some k \<Longrightarrow> k < i \<and> has a k \<and> (\<forall>j. k < j \<and> j < i \<longrightarrow> \<not> has a j)"
    and prev_None: "ok a \<Longrightarrow> prev a i = None \<Longrightarrow> j < i \<Longrightarrow> \<not> has a j"
begin

lemma first_eqI:
  assumes "ok a" "has a k" "i \<le> k" "k < W64" "\<And>j. i \<le> j \<Longrightarrow> j < k \<Longrightarrow> \<not> has a j"
  shows "first a i = Some k"
proof (cases "first a i")
  case None
  with assms show ?thesis using first_None by blast
next
  case (Some m)
  with assms first_Some [OF assms(1) Some] have "\<not> m < k" and "\<not> k < m" by auto
  with Some show ?thesis by simp
qed

lemma next_eqI:
  assumes "ok a" "has a k" "i < k" "k < W64" "\<And>j. i < j \<Longrightarrow> j < k \<Longrightarrow> \<not> has a j"
  shows "next a i = Some k"
proof (cases "next a i")
  case None
  with assms show ?thesis using next_None by blast
next
  case (Some m)
  with assms next_Some [OF assms(1) Some] have "\<not> m < k" and "\<not> k < m" by auto
  with Some show ?thesis by simp
qed

lemma prev_eqI:
  assumes "ok a" "has a k" "k < i" "\<And>j. k < j \<Longrightarrow> j < i \<Longrightarrow> \<not> has a j"
  shows "prev a i = Some k"
proof (cases "prev a i")
  case None
  with assms show ?thesis using prev_None by blast
next
  case (Some m)
  with assms prev_Some [OF assms(1) Some] have "\<not> m < k" and "\<not> k < m" by auto
  with Some show ?thesis by simp
qed

lemma first_self: "ok a \<Longrightarrow> has a i \<Longrightarrow> i < W64 \<Longrightarrow> first a i = Some i"
  by (rule first_eqI) auto

lemma first_le: "ok a \<Longrightarrow> has a k \<Longrightarrow> i \<le> k \<Longrightarrow> k < W64 \<Longrightarrow> \<exists>m. first a i = Some m \<and> m \<le> k"
  by (metis first_None first_Some not_less option.exhaust)

end

lemma find_sorted_least:
  assumes "sorted_wrt (<) (map fst a)" and "find (\<lambda>p. P (fst p)) a = Some (k :: nat, v)"
  shows "P k \<and> (k, v) \<in> set a \<and> (\<forall>p \<in> set a. fst p < k \<longrightarrow> \<not> P (fst p))"
  using assms by (induction a) (auto split: if_splits)

lemma find_rev_sorted_greatest:
  assumes "sorted_wrt (<) (map fst a)" and "find (\<lambda>p. P (fst p)) (rev a) = Some (k :: nat, v)"
  shows "P k \<and> (k, v) \<in> set a \<and> (\<forall>p \<in> set a. k < fst p \<longrightarrow> \<not> P (fst p))"
  using assms
proof (induction a rule: rev_induct)
  case (snoc p a)
  then show ?case by (auto simp: sorted_wrt_append split: if_splits)
qed simp

text \<open>The indexes present in a JudyL array.\<close>

interpretation jl_search: ordered_search
  "\<lambda>a k. k \<in> fst ` set a" jl_ok
  "\<lambda>a i. map_option fst (jl_first a i)" "\<lambda>a i. map_option fst (jl_next a i)"
  "\<lambda>a i. map_option fst (jl_prev a i)"
proof (unfold_locales, goal_cases)
  case (1 a i k)
  then obtain v where "jl_first a i = Some (k, v)" by auto
  with 1 find_sorted_least [of a "\<lambda>x. i \<le> x" k v] show ?case
    by (force simp: jl_ok_def jl_first_def)
next
  case (2 a i j)
  then show ?case by (auto simp: jl_first_def find_None_all)
next
  case (3 a i k)
  then obtain v where "jl_next a i = Some (k, v)" by auto
  with 3 find_sorted_least [of a "\<lambda>x. i < x" k v] show ?case
    by (force simp: jl_ok_def jl_next_def)
next
  case (4 a i j)
  then show ?case by (auto simp: jl_next_def find_None_all)
next
  case (5 a i k)
  then obtain v where "jl_prev a i = Some (k, v)" by auto
  with 5 find_rev_sorted_greatest [of a "\<lambda>x. x < i" k v] show ?case
    by (force simp: jl_ok_def jl_prev_def)
next
  case (6 a i j)
  then show ?case by (auto simp: jl_prev_def find_None_all)
qed

text \<open>The same on the map that an array stands for: the least key from \<open>i\<close> on.\<close>

definition least_from :: "(nat \<rightharpoonup> nat) \<Rightarrow> nat \<Rightarrow> nat \<Rightarrow> nat \<Rightarrow> bool" where
  "least_from M i k v \<longleftrightarrow> M k = Some v \<and> i \<le> k \<and> (\<forall>j. M j \<noteq> None \<and> i \<le> j \<longrightarrow> k \<le> j)"

definition none_from :: "(nat \<rightharpoonup> nat) \<Rightarrow> nat \<Rightarrow> bool" where
  "none_from M i \<longleftrightarrow> (\<forall>j. M j \<noteq> None \<longrightarrow> j < i)"

lemma least_from_unique: "least_from M i k v \<Longrightarrow> least_from M i j w \<Longrightarrow> k = j \<and> v = w"
  unfolding least_from_def by (metis antisym option.distinct(1) option.inject)

lemma least_not_none: "least_from M i k v \<Longrightarrow> \<not> none_from M i"
  unfolding least_from_def none_from_def by auto

lemma jl_next_map:
  assumes "jl_ok m"
  shows "case jl_next m i of None \<Rightarrow> none_from (map_of m) (Suc i) | Some (k, v) \<Rightarrow> least_from (map_of m) (Suc i) k v"
proof (cases "jl_next m i")
  case None
  then have "\<forall>p \<in> set m. fst p \<le> i" by (simp add: jl_next_None)
  then have "none_from (map_of m) (Suc i)" by (force simp: none_from_def less_Suc_eq_le dest!: map_of_SomeD)
  with None show ?thesis by simp
next
  case (Some p)
  obtain k v where p: "p = (k, v)" by (cases p)
  from jl_next_SomeD [OF Some] p have mem: "(k, v) \<in> set m" "i < k" by auto
  have "k \<le> j" if "i < j" "map_of m j \<noteq> None" for j
  proof -
    have "j \<in> fst ` set m" using that(2) map_of_SomeD [of m j] by force
    then show ?thesis using jl_search.next_Some [OF assms, of i k] Some p that(1) by (metis fst_conv not_le option.simps(9))
  qed
  then have "least_from (map_of m) (Suc i) k v"
    using mem map_of_jl [OF assms, of k v] by (auto simp: least_from_def Suc_le_eq)
  then show ?thesis using Some p by simp
qed

lemma jl_first_map:
  assumes "jl_ok m"
  shows "case jl_first m 0 of None \<Rightarrow> none_from (map_of m) 0 | Some (k, v) \<Rightarrow> least_from (map_of m) 0 k v"
proof (cases m)
  case (Cons p b)
  obtain k v where p: "p = (k, v)" by (cases p)
  have "k \<le> j" if "map_of m j \<noteq> None" for j
    using that map_of_SomeD [of b j] assms Cons p by (fastforce simp: jl_ok_Cons split: if_splits)
  then show ?thesis using Cons p by (simp add: jl_first_0 least_from_def)
qed (simp add: jl_first_0 none_from_def)

end
