(* ===== verification/Judy1.thy ===== *)
theory Judy1
  imports Judy
begin

text \<open>
  Judy1 arrays (doc/ext/Judy1\_3.htm): sets of words, as ascending lists without repetition.
  \<open>J1S\<close>, \<open>J1U\<close>, \<open>J1T\<close> set, unset and test a bit; \<open>J1F\<close>, \<open>J1N\<close>, \<open>J1P\<close> search for
  a present index (inclusive up, exclusive up, exclusive down), \<open>J1FE\<close>, \<open>J1NE\<close>, \<open>J1LE\<close>,
  \<open>J1PE\<close> for an absent one. A search returns the return code and the value left in \<open>Index\<close>:
  after a failure that is whatever \<open>lost\<close> says.
\<close>

definition j1_ok :: "j1 \<Rightarrow> bool" where
  "j1_ok a \<longleftrightarrow> sorted_wrt (<) a \<and> (\<forall>x \<in> set a. x < W64)"

definition j1_put :: "nat \<Rightarrow> j1 \<Rightarrow> j1" where
  "j1_put i a = (if i \<in> set a then a else insort i a)"

definition J1S :: "env \<Rightarrow> j1 \<Rightarrow> nat \<Rightarrow> int \<times> j1" where
  "J1S E a i = (if j1_err E JIns a i then (- 1, a)
     else if i \<in> set a then (0, a) else (1, j1_put i a))"

definition J1U :: "env \<Rightarrow> j1 \<Rightarrow> nat \<Rightarrow> int \<times> j1" where
  "J1U E a i = (if j1_err E JDel a i then (- 1, a)
     else if i \<in> set a then (1, remove1 i a) else (0, a))"

definition J1T :: "j1 \<Rightarrow> nat \<Rightarrow> int" where
  "J1T a i = (if i \<in> set a then 1 else 0)"

definition J1FA :: "j1 \<Rightarrow> j1" where
  "J1FA a = []"

definition J1C :: "j1 \<Rightarrow> nat \<Rightarrow> nat \<Rightarrow> nat" where
  "J1C a i j = length (filter (\<lambda>k. i \<le> k \<and> k \<le> j) a)"

section \<open>Searches\<close>

definition j1_first :: "j1 \<Rightarrow> nat \<Rightarrow> nat option" where
  "j1_first a i = find (\<lambda>k. i \<le> k) a"

definition j1_next :: "j1 \<Rightarrow> nat \<Rightarrow> nat option" where
  "j1_next a i = find (\<lambda>k. i < k) a"

definition j1_prev :: "j1 \<Rightarrow> nat \<Rightarrow> nat option" where
  "j1_prev a i = find (\<lambda>k. k < i) (rev a)"

fun absent_from :: "j1 \<Rightarrow> nat \<Rightarrow> nat" where
  "absent_from [] i = i"
| "absent_from (x # a) i =
     (if x < i then absent_from a i else if x = i then absent_from a (Suc i) else i)"

definition word_opt :: "nat \<Rightarrow> nat option" where
  "word_opt k = (if k < W64 then Some k else None)"

definition j1_first_empty :: "j1 \<Rightarrow> nat \<Rightarrow> nat option" where
  "j1_first_empty a i = word_opt (absent_from a i)"

definition j1_next_empty :: "j1 \<Rightarrow> nat \<Rightarrow> nat option" where
  "j1_next_empty a i = word_opt (absent_from a (Suc i))"

primrec j1_last_empty :: "j1 \<Rightarrow> nat \<Rightarrow> nat option" where
  "j1_last_empty a 0 = (if 0 \<in> set a then None else Some 0)"
| "j1_last_empty a (Suc i) = (if Suc i \<in> set a then j1_last_empty a i else Some (Suc i))"

definition j1_prev_empty :: "j1 \<Rightarrow> nat \<Rightarrow> nat option" where
  "j1_prev_empty a i = (if i = 0 then None else j1_last_empty a (i - 1))"

definition j1_ret :: "env \<Rightarrow> j1 \<Rightarrow> nat \<Rightarrow> nat option \<Rightarrow> int \<times> nat" where
  "j1_ret E a i r = (case r of None \<Rightarrow> (0, lost E a i) | Some k \<Rightarrow> (1, k))"

definition J1F :: "env \<Rightarrow> j1 \<Rightarrow> nat \<Rightarrow> int \<times> nat" where
  "J1F E a i = j1_ret E a i (j1_first a i)"

definition J1N :: "env \<Rightarrow> j1 \<Rightarrow> nat \<Rightarrow> int \<times> nat" where
  "J1N E a i = j1_ret E a i (j1_next a i)"

definition J1P :: "env \<Rightarrow> j1 \<Rightarrow> nat \<Rightarrow> int \<times> nat" where
  "J1P E a i = j1_ret E a i (j1_prev a i)"

definition J1FE :: "env \<Rightarrow> j1 \<Rightarrow> nat \<Rightarrow> int \<times> nat" where
  "J1FE E a i = j1_ret E a i (j1_first_empty a i)"

definition J1NE :: "env \<Rightarrow> j1 \<Rightarrow> nat \<Rightarrow> int \<times> nat" where
  "J1NE E a i = j1_ret E a i (j1_next_empty a i)"

definition J1LE :: "env \<Rightarrow> j1 \<Rightarrow> nat \<Rightarrow> int \<times> nat" where
  "J1LE E a i = j1_ret E a i (j1_last_empty a i)"

definition J1PE :: "env \<Rightarrow> j1 \<Rightarrow> nat \<Rightarrow> int \<times> nat" where
  "J1PE E a i = j1_ret E a i (j1_prev_empty a i)"

section \<open>Basic facts\<close>

lemma j1_ret_simps [simp]: "j1_ret E a i None = (0, lost E a i)" "j1_ret E a i (Some k) = (1, k)"
  by (simp_all add: j1_ret_def)

lemma j1_ok_Nil [simp]: "j1_ok []"
  by (simp add: j1_ok_def)

lemma j1_ok_iff: "j1_ok a \<longleftrightarrow> sorted a \<and> distinct a \<and> (\<forall>x \<in> set a. x < W64)"
  by (auto simp: j1_ok_def strict_sorted_iff)

lemma set_j1_put [simp]: "set (j1_put i a) = insert i (set a)"
  by (auto simp: j1_put_def set_insort_key)

lemma j1_ok_put: "j1_ok a \<Longrightarrow> i < W64 \<Longrightarrow> j1_ok (j1_put i a)"
  by (auto simp: j1_ok_iff j1_put_def sorted_insort distinct_insort set_insort_key)

lemma set_j1_remove: "j1_ok a \<Longrightarrow> set (remove1 i a) = set a - {i}"
  by (simp add: j1_ok_iff set_remove1_eq)

lemma j1_ok_remove: "j1_ok a \<Longrightarrow> j1_ok (remove1 i a)"
  by (auto simp: j1_ok_iff sorted_remove1 distinct_remove1 dest: notin_set_remove1 in_set_remove1
      intro: set_remove1_subset [THEN subsetD])

lemma j1_unique: "j1_ok a \<Longrightarrow> j1_ok b \<Longrightarrow> set a = set b \<Longrightarrow> a = b"
  by (simp add: j1_ok_def strict_sorted_equal)

lemma absent_from_spec:
  assumes "sorted_wrt (<) a"
  shows "i \<le> absent_from a i \<and> absent_from a i \<notin> set a \<and> (\<forall>j. i \<le> j \<and> j < absent_from a i \<longrightarrow> j \<in> set a)"
  using assms
proof (induction a i rule: absent_from.induct)
  case (1 i)
  then show ?case by simp
next
  case (2 x a i)
  consider "x < i" | "x = i" | "i < x" by linarith
  then show ?case
  proof cases
    case 1
    with 2 show ?thesis by auto
  next
    case 2
    with "2.IH"(2) "2.prems" have IH: "Suc i \<le> absent_from a (Suc i)" "absent_from a (Suc i) \<notin> set a"
      "\<forall>j. Suc i \<le> j \<and> j < absent_from a (Suc i) \<longrightarrow> j \<in> set a" by auto
    have "j \<in> set (x # a)" if "i \<le> j" "j < absent_from a (Suc i)" for j
      using IH(3) 2 that by (cases "j = i") auto
    with IH 2 show ?thesis by auto
  next
    case 3
    with "2.prems" show ?thesis by auto
  qed
qed

lemma j1_last_empty_Some:
  "j1_last_empty a i = Some k \<Longrightarrow> k \<le> i \<and> k \<notin> set a \<and> (\<forall>j. k < j \<and> j \<le> i \<longrightarrow> j \<in> set a)"
proof (induction i)
  case (Suc i)
  show ?case
  proof (cases "Suc i \<in> set a")
    case True
    with Suc have IH: "k \<le> i \<and> k \<notin> set a \<and> (\<forall>j. k < j \<and> j \<le> i \<longrightarrow> j \<in> set a)" by simp
    have "j \<in> set a" if "k < j" "j \<le> Suc i" for j
      using IH True that by (cases "j = Suc i") auto
    with IH show ?thesis by auto
  next
    case False
    with Suc.prems show ?thesis by auto
  qed
qed (auto split: if_splits)

lemma j1_last_empty_None: "j1_last_empty a i = None \<Longrightarrow> j \<le> i \<Longrightarrow> j \<in> set a"
  by (induction i) (auto split: if_splits simp: le_Suc_eq)

lemma find_rev_last:
  assumes "sorted_wrt (<) a" and "find P (rev a) = Some (k :: nat)"
  shows "P k \<and> k \<in> set a \<and> (\<forall>j \<in> set a. k < j \<longrightarrow> \<not> P j)"
  using assms
proof (induction a rule: rev_induct)
  case (snoc x a)
  then show ?case by (auto simp: sorted_wrt_append split: if_splits)
qed simp

lemma find_first_least:
  assumes "sorted_wrt (<) a" and "find P a = Some (k :: nat)"
  shows "P k \<and> k \<in> set a \<and> (\<forall>j \<in> set a. j < k \<longrightarrow> \<not> P j)"
  using assms by (induction a) (auto split: if_splits)

section \<open>The two search interfaces\<close>

interpretation j1_present: ordered_search "\<lambda>a k. k \<in> set a" j1_ok j1_first j1_next j1_prev
proof (unfold_locales, goal_cases)
  case (1 a i k)
  with find_first_least [of a "\<lambda>k. i \<le> k" k] show ?case by (force simp: j1_ok_def j1_first_def)
next
  case (2 a i j)
  then show ?case by (auto simp: j1_first_def find_None_all)
next
  case (3 a i k)
  with find_first_least [of a "\<lambda>k. i < k" k] show ?case by (force simp: j1_ok_def j1_next_def)
next
  case (4 a i j)
  then show ?case by (auto simp: j1_next_def find_None_all)
next
  case (5 a i k)
  with find_rev_last [of a "\<lambda>k. k < i" k] show ?case by (force simp: j1_ok_def j1_prev_def)
next
  case (6 a i j)
  then show ?case by (auto simp: j1_prev_def find_None_all)
qed

interpretation j1_absent: ordered_search "\<lambda>a k. k \<notin> set a" j1_ok j1_first_empty j1_next_empty j1_prev_empty
proof (unfold_locales, goal_cases)
  case (1 a i k)
  with absent_from_spec [of a i] show ?case
    by (auto simp: j1_ok_def j1_first_empty_def word_opt_def split: if_splits)
next
  case (2 a i j)
  with absent_from_spec [of a i] show ?case
    by (auto simp: j1_ok_def j1_first_empty_def word_opt_def split: if_splits)
next
  case (3 a i k)
  with absent_from_spec [of a "Suc i"] show ?case
    by (auto simp: j1_ok_def j1_next_empty_def word_opt_def Suc_le_eq split: if_splits)
next
  case (4 a i j)
  with absent_from_spec [of a "Suc i"] show ?case
    by (auto simp: j1_ok_def j1_next_empty_def word_opt_def Suc_le_eq split: if_splits)
next
  case (5 a i k)
  then show ?case
    by (cases i) (auto simp: j1_prev_empty_def dest!: j1_last_empty_Some)
next
  case (6 a i j)
  then show ?case
    by (cases i) (auto simp: j1_prev_empty_def less_Suc_eq_le dest: j1_last_empty_None)
qed

text \<open>An array of words has an absent index: the full set of words would not be a finite structure
  of this size, so below, callers check the bound they need.\<close>

lemma absent_from_le_length: "sorted_wrt (<) a \<Longrightarrow> absent_from a i \<le> i + length a"
proof (induction a i rule: absent_from.induct)
  case (2 x a i)
  then show ?case by (auto split: if_splits)
qed simp

end
