(* ===== verification/Allocator.thy ===== *)
theory Allocator
  imports Prelude
begin

text \<open>
  The contract shared by the allocators of the library (the power2 allocator of
  power2\_allocator.c, the id allocator of id.c): a pool of \<open>cap\<close> units hands out blocks of
  consecutive units and takes them back. \<open>live s\<close> is the set of blocks handed out, index and
  size; \<open>conf s\<close> is what creation fixed.  The laws say what each call does to \<open>live\<close>, and that
  nothing else than \<open>conf\<close> and \<open>live\<close> is remembered. From them follow, for every allocator: live blocks
  never overlap, whatever the sequence of calls; giving back what was just handed out restores
  the state; no more units are live than the pool has.
\<close>

definition disjoint_blocks :: "(nat \<times> nat) set \<Rightarrow> bool" where
  "disjoint_blocks L \<longleftrightarrow> (\<forall>(i, n) \<in> L. \<forall>(j, z) \<in> L. (i, n) \<noteq> (j, z) \<longrightarrow> i + n \<le> j \<or> j + z \<le> i)"

definition block_units :: "(nat \<times> nat) set \<Rightarrow> nat set" where
  "block_units L = (\<Union>(i, n) \<in> L. {i..<i + n})"

lemma disjoint_blocks_insert:
  "disjoint_blocks L \<Longrightarrow> \<forall>(j, z) \<in> L. i + n \<le> j \<or> j + z \<le> i \<Longrightarrow> disjoint_blocks (insert (i, n) L)"
  unfolding disjoint_blocks_def by auto

lemma disjoint_blocks_subset: "disjoint_blocks L \<Longrightarrow> L' \<subseteq> L \<Longrightarrow> disjoint_blocks L'"
  unfolding disjoint_blocks_def by blast

datatype call = Take nat | Give nat

locale block_allocator =
  fixes ok :: "'s \<Rightarrow> bool"
    and conf :: "'s \<Rightarrow> 'c"
    and cap :: "'c \<Rightarrow> nat"
    and live :: "'s \<Rightarrow> (nat \<times> nat) set"
    and alloc :: "'s \<Rightarrow> nat \<Rightarrow> nat option \<times> 's"
    and release :: "'s \<Rightarrow> nat \<Rightarrow> bool \<times> 's"
  assumes live_ok: "ok s \<Longrightarrow> finite (live s) \<and> disjoint_blocks (live s) \<and> (\<forall>(i, n) \<in> live s. 0 < n \<and> i + n \<le> cap (conf s))"
    and alloc_Some: "ok s \<Longrightarrow> 0 < n \<Longrightarrow> alloc s n = (Some i, s') \<Longrightarrow>
      ok s' \<and> conf s' = conf s \<and> (\<forall>(j, z) \<in> live s. i + n \<le> j \<or> j + z \<le> i) \<and> live s' = insert (i, n) (live s)"
    and alloc_None: "ok s \<Longrightarrow> 0 < n \<Longrightarrow> alloc s n = (None, s') \<Longrightarrow> s' = s"
    and release_live: "ok s \<Longrightarrow> (i, n) \<in> live s \<Longrightarrow>
      \<exists>s'. release s i = (True, s') \<and> ok s' \<and> conf s' = conf s \<and> live s' = live s - {(i, n)}"
    and release_unknown: "ok s \<Longrightarrow> i \<notin> fst ` live s \<Longrightarrow> release s i = (False, s)"
    and determined: "ok s \<Longrightarrow> ok s' \<Longrightarrow> conf s = conf s' \<Longrightarrow> live s = live s' \<Longrightarrow> s = s'"
begin

lemma alloc_fresh: "ok s \<Longrightarrow> 0 < n \<Longrightarrow> alloc s n = (Some i, s') \<Longrightarrow> (i, n) \<notin> live s"
proof
  assume s: "ok s" "0 < n" "alloc s n = (Some i, s')" and "(i, n) \<in> live s"
  with alloc_Some [OF s] have "i + n \<le> i \<or> i + n \<le> i" by blast
  with s(2) show False by simp
qed

lemma alloc_release: "ok s \<Longrightarrow> 0 < n \<Longrightarrow> alloc s n = (Some i, s') \<Longrightarrow> release s' i = (True, s)"
proof -
  assume s: "ok s" "0 < n" "alloc s n = (Some i, s')"
  from alloc_Some [OF s] have s': "ok s'" "conf s' = conf s" "live s' = insert (i, n) (live s)" by auto
  then obtain t where t: "release s' i = (True, t)" "ok t" "conf t = conf s'" "live t = live s' - {(i, n)}"
    using release_live [of s' i n] by blast
  have "live t = live s" using alloc_fresh [OF s] t(4) s'(3) by auto
  with determined [OF t(2) s(1)] t(3) s'(2) have "t = s" by simp
  with t(1) show ?thesis by simp
qed

fun call_step :: "call \<Rightarrow> 's \<Rightarrow> 's" where
  "call_step (Take n) s = (if n = 0 then s else snd (alloc s n))"
| "call_step (Give i) s = snd (release s i)"

lemma call_step_ok: "ok s \<Longrightarrow> ok (call_step c s) \<and> conf (call_step c s) = conf s"
proof (cases c)
  case (Take n)
  assume s: "ok s"
  obtain r s' where r: "alloc s n = (r, s')" by (cases "alloc s n")
  show ?thesis
  proof (cases "n = 0")
    case False
    then have n: "0 < n" by simp
    show ?thesis
    proof (cases r)
      case None
      from alloc_None [OF s n r [unfolded None]] r None Take n s show ?thesis by simp
    next
      case (Some i)
      from alloc_Some [OF s n r [unfolded Some]] r Take n show ?thesis by simp
    qed
  qed (use s Take in simp)
next
  case (Give i)
  assume s: "ok s"
  show ?thesis
  proof (cases "i \<in> fst ` live s")
    case True
    then obtain n where "(i, n) \<in> live s" by force
    from release_live [OF s this] obtain s' where "release s i = (True, s')" "ok s'" "conf s' = conf s" by blast
    with Give show ?thesis by simp
  next
    case False
    with release_unknown [OF s] Give s show ?thesis by simp
  qed
qed

lemma calls_ok: "ok s \<Longrightarrow> ok (fold call_step cs s) \<and> conf (fold call_step cs s) = conf s"
proof (induction cs arbitrary: s)
  case (Cons c cs)
  from call_step_ok [OF Cons.prems, of c] Cons.IH [of "call_step c s"] show ?case by simp
qed simp

lemma calls_disjoint: "ok s \<Longrightarrow> disjoint_blocks (live (fold call_step cs s))"
  using calls_ok live_ok by blast

lemma units_card:
  assumes "ok s"
  shows "card (block_units (live s)) = (\<Sum>(i, n) \<in> live s. n) \<and> card (block_units (live s)) \<le> cap (conf s)"
proof
  have L: "finite (live s)" "disjoint_blocks (live s)" "\<forall>(i, n) \<in> live s. 0 < n \<and> i + n \<le> cap (conf s)"
    using live_ok [OF assms] by auto
  have "card (block_units (live s)) = (\<Sum>p \<in> live s. card (case p of (i, n) \<Rightarrow> {i..<i + n}))"
    unfolding block_units_def
  proof (rule card_UN_disjoint [OF L(1)])
    show "\<forall>p \<in> live s. \<forall>q \<in> live s. p \<noteq> q \<longrightarrow>
        (case p of (i, n) \<Rightarrow> {i..<i + n}) \<inter> (case q of (i, n) \<Rightarrow> {i..<i + n}) = {}"
      using L(2) unfolding disjoint_blocks_def by fastforce
  qed auto
  also have "\<dots> = (\<Sum>(i, n) \<in> live s. n)" by (intro sum.cong) auto
  finally show "card (block_units (live s)) = (\<Sum>(i, n) \<in> live s. n)" .
  have "block_units (live s) \<subseteq> {0..<cap (conf s)}" using L(3) by (fastforce simp: block_units_def)
  then show "card (block_units (live s)) \<le> cap (conf s)" using card_mono [of "{0..<cap (conf s)}"] by simp
qed

end

end
