(* ===== verification/Dictionary.thy ===== *)
theory Dictionary
  imports Prelude
begin

text \<open>
  The contract of a finite map with a status code: adding a key that is there is refused,
  removing or reading one that is not there is refused, and nothing else changes.
  \<open>lookup\<close> is the abstract content. The lemmas say that a sequence of calls on such a map is the
  same sequence on a HOL map, that a refused call changes nothing, and that adding and removing undo
  each other.
\<close>

datatype ('k, 'v) dict_call = Dict_add 'k 'v | Dict_rmv 'k

fun dict_spec :: "('k, 'v) dict_call \<Rightarrow> ('k \<rightharpoonup> 'v) \<Rightarrow> ('k \<rightharpoonup> 'v)" where
  "dict_spec (Dict_add k v) m = (if m k = None then m(k \<mapsto> v) else m)"
| "dict_spec (Dict_rmv k) m = m(k := None)"

text \<open>The status of each call: whether a key was added, whether one was removed.\<close>

fun dict_reply :: "('k, 'v) dict_call \<Rightarrow> ('k \<rightharpoonup> 'v) \<Rightarrow> bool" where
  "dict_reply (Dict_add k v) m \<longleftrightarrow> m k = None"
| "dict_reply (Dict_rmv k) m \<longleftrightarrow> m k \<noteq> None"

fun dict_replies :: "('k, 'v) dict_call list \<Rightarrow> ('k \<rightharpoonup> 'v) \<Rightarrow> bool list" where
  "dict_replies [] m = []"
| "dict_replies (c # cs) m = dict_reply c m # dict_replies cs (dict_spec c m)"

locale dictionary =
  fixes ok :: "'s \<Rightarrow> bool"
    and lookup :: "'s \<Rightarrow> 'k \<Rightarrow> 'v option"
    and val_ok :: "'v \<Rightarrow> bool"
    and add :: "'s \<Rightarrow> 'k \<Rightarrow> 'v \<Rightarrow> bool \<times> 's"
    and rmv :: "'s \<Rightarrow> 'k \<Rightarrow> bool \<times> 's"
  assumes add_new: "ok s \<Longrightarrow> val_ok v \<Longrightarrow> lookup s k = None \<Longrightarrow>
      \<exists>s'. add s k v = (True, s') \<and> ok s' \<and> lookup s' = (lookup s)(k \<mapsto> v)"
    and add_old: "ok s \<Longrightarrow> val_ok v \<Longrightarrow> lookup s k \<noteq> None \<Longrightarrow> add s k v = (False, s)"
    and rmv_old: "ok s \<Longrightarrow> lookup s k \<noteq> None \<Longrightarrow> \<exists>s'. rmv s k = (True, s') \<and> ok s' \<and> lookup s' = (lookup s)(k := None)"
    and rmv_new: "ok s \<Longrightarrow> lookup s k = None \<Longrightarrow> rmv s k = (False, s)"
begin

fun dict_step :: "('k, 'v) dict_call \<Rightarrow> 's \<Rightarrow> 's" where
  "dict_step (Dict_add k v) s = snd (add s k v)"
| "dict_step (Dict_rmv k) s = snd (rmv s k)"

definition call_ok :: "('k, 'v) dict_call \<Rightarrow> bool" where
  "call_ok c \<longleftrightarrow> (\<forall>k v. c = Dict_add k v \<longrightarrow> val_ok v)"

lemma step_spec: "ok s \<Longrightarrow> call_ok c \<Longrightarrow> ok (dict_step c s) \<and> lookup (dict_step c s) = dict_spec c (lookup s)"
proof (cases c)
  case (Dict_add k v)
  assume "ok s" "call_ok c"
  with Dict_add add_new [of s v k] add_old [of s v k] show ?thesis
    by (cases "lookup s k") (auto simp: call_ok_def)
next
  case (Dict_rmv k)
  assume "ok s"
  with Dict_rmv rmv_old [of s k] rmv_new [of s k] show ?thesis
    by (cases "lookup s k") (auto simp: fun_upd_idem)
qed

lemma run_spec:
  "ok s \<Longrightarrow> \<forall>c \<in> set cs. call_ok c \<Longrightarrow>
    ok (fold dict_step cs s) \<and> lookup (fold dict_step cs s) = fold dict_spec cs (lookup s)"
proof (induction cs arbitrary: s)
  case (Cons c cs)
  then show ?case using step_spec [of s c] by simp
qed simp

text \<open>The calls with their statuses.\<close>

fun dict_call :: "('k, 'v) dict_call \<Rightarrow> 's \<Rightarrow> bool \<times> 's" where
  "dict_call (Dict_add k v) s = add s k v"
| "dict_call (Dict_rmv k) s = rmv s k"

fun dict_run :: "('k, 'v) dict_call list \<Rightarrow> 's \<Rightarrow> bool list \<times> 's" where
  "dict_run [] s = ([], s)"
| "dict_run (c # cs) s = (let (r, s) = dict_call c s; (rs, s) = dict_run cs s in (r # rs, s))"

lemma call_reply: "ok s \<Longrightarrow> call_ok c \<Longrightarrow> dict_call c s = (dict_reply c (lookup s), dict_step c s)"
proof (cases c)
  case (Dict_add k v)
  assume "ok s" "call_ok c"
  with Dict_add add_new [of s v k] add_old [of s v k] show ?thesis
    by (cases "lookup s k") (auto simp: call_ok_def)
next
  case (Dict_rmv k)
  assume "ok s"
  with Dict_rmv rmv_old [of s k] rmv_new [of s k] show ?thesis by (cases "lookup s k") auto
qed

lemma run_replies:
  "ok s \<Longrightarrow> \<forall>c \<in> set cs. call_ok c \<Longrightarrow> dict_run cs s = (dict_replies cs (lookup s), fold dict_step cs s)"
proof (induction cs arbitrary: s)
  case (Cons c cs)
  then show ?case using step_spec [of s c] call_reply [of s c] by simp
qed simp

lemma add_rmv:
  assumes "ok s" "val_ok v" "add s k v = (True, s')"
  shows "\<exists>t. rmv s' k = (True, t) \<and> ok t \<and> lookup t = lookup s"
proof -
  have none: "lookup s k = None" using add_old [OF assms(1,2), of k] assms(3) by fastforce
  from add_new [OF assms(1,2) none] assms(3) have s': "ok s'" "lookup s' = (lookup s)(k \<mapsto> v)" by auto
  with rmv_old [OF s'(1), of k] none show ?thesis by (auto simp: fun_upd_idem)
qed

lemma rmv_add:
  assumes "ok s" "lookup s k = Some v" "val_ok v" "rmv s k = (True, s')"
  shows "\<exists>t. add s' k v = (True, t) \<and> ok t \<and> lookup t = lookup s"
proof -
  from rmv_old [OF assms(1), of k] assms(2,4) have s': "ok s'" "lookup s' = (lookup s)(k := None)" by auto
  with add_new [OF s'(1) assms(3), of k] assms(2) show ?thesis by (auto simp: fun_upd_idem)
qed

end

end
