(* ===== verification/Power2.thy ===== *)
theory Power2
  imports Judy Judy1 Bit_Utils
begin

text \<open>
  src/power2\_allocator/power2\_allocator.c: the state and every operation.

  \<open>power2_allocator\<close> is the struct. \<open>free_lists\<close> is the C array of JudyL arrays: entry \<open>k\<close> maps
  a free index aligned to \<open>2 ^ k\<close> to the number of free units there; \<open>inuse_list\<close> maps the
  index of an allocated block to its size. An operation takes the environment and the allocator
  (as an option where the code tests the pointer, otherwise it is not NULL) and returns its value with the new state.
  Indexes and sizes are \<open>uint32_t\<close>: natural numbers combined with \<open>add32\<close> and \<open>sub32\<close>.

  The code that picks the free list of a chunk occurs three times in the source; it is
  \<open>chunk_log2\<close> with the assertions \<open>chunk_asserts\<close>.
\<close>

section \<open>State\<close>

record power2_allocator =
  max_size :: nat
  total_size :: nat
  no_free_lists :: nat
  free_lists :: "jl list"
  inuse_list :: jl

definition fl_get :: "power2_allocator \<Rightarrow> nat \<Rightarrow> jl res" where
  "fl_get a k = (if k < length (free_lists a) then Inr (free_lists a ! k) else Inl Bad_access)"

definition fl_set :: "power2_allocator \<Rightarrow> nat \<Rightarrow> jl \<Rightarrow> power2_allocator" where
  "fl_set a k l = a\<lparr>free_lists := (free_lists a)[k := l]\<rparr>"

text \<open>An assertion whose condition itself can fault; not evaluated when assertions are off.\<close>

definition c_assert_res :: "env \<Rightarrow> bool res \<Rightarrow> unit res" where
  "c_assert_res E m = (if asserts E then bnd m (\<lambda>b. if b then Inr () else Inl Assert_failed) else Inr ())"

section \<open>Free lists\<close>

definition chunk_log2 :: "power2_allocator \<Rightarrow> nat \<Rightarrow> nat \<Rightarrow> nat" where
  "chunk_log2 a cur_index rem_size =
     (let tz = ctz cur_index;
          log2_size = log2_uint32_ceil rem_size;
          free_log2 = (if tz < log2_size then tz else log2_size)
      in if free_log2 \<ge> no_free_lists a then sub32 (no_free_lists a) 1 else free_log2)"

definition chunk_asserts :: "env \<Rightarrow> nat \<Rightarrow> nat \<Rightarrow> unit res" where
  "chunk_asserts E cur_index free_log2 =
     bnd (c_assert E (free_log2 < 32)) (\<lambda>_.
     bnd (c_assert_res E (bnd (shl1 free_log2) (\<lambda>w. Inr (cur_index mod w = 0)))) (\<lambda>_.
     c_assert_res E (bnd (shl1 free_log2) (\<lambda>w. Inr (ctz cur_index \<ge> ctz w)))))"

function power2_allocator_remove_free_index ::
  "env \<Rightarrow> power2_allocator \<Rightarrow> nat \<Rightarrow> nat \<Rightarrow> (int \<times> power2_allocator) res" where
  "power2_allocator_remove_free_index E a cur_index rem_size =
     (if rem_size = 0 then Inr (0, a) else
      let free_log2 = chunk_log2 a cur_index rem_size in
      bnd (chunk_asserts E cur_index free_log2) (\<lambda>_.
      bnd (fl_get a free_log2) (\<lambda>l.
      let Pfree = JLG E l cur_index in
      if Pfree = PNULL then bnd (c_assert E False) (\<lambda>_. Inr (1, a)) else
      bnd (deref Pfree) (\<lambda>v.
      let tmp_size = u32 v; (Rc_int, l') = JLD E l cur_index; a' = fl_set a free_log2 l' in
      bnd (c_assert E (Rc_int \<noteq> 0)) (\<lambda>_.
      bnd (shl1 free_log2) (\<lambda>w.
      if rem_size < w then
        bnd (c_assert E (tmp_size = rem_size)) (\<lambda>_.
        power2_allocator_remove_free_index E a' (add32 cur_index rem_size) 0)
      else
        bnd (c_assert E (tmp_size = w)) (\<lambda>_.
        power2_allocator_remove_free_index E a' (add32 cur_index w) (rem_size - w))))))))"
  by pat_completeness auto
termination
  by (relation "measure (\<lambda>(E, a, c, r). r)") (auto simp: shl1_def split: if_splits)

definition power2_allocator_remove_one_free ::
  "env \<Rightarrow> power2_allocator \<Rightarrow> nat \<Rightarrow> nat \<Rightarrow> nat \<Rightarrow> (nat \<times> nat \<times> power2_allocator) res" where
  "power2_allocator_remove_one_free E a log2 sz free_size =
     (if log2 \<ge> no_free_lists a then Inr (M1, free_size, a) else
      bnd (c_assert_res E (bnd (shl1 log2) (\<lambda>w. Inr (sz \<le> w)))) (\<lambda>_.
      bnd (fl_get a log2) (\<lambda>l.
      bnd (jl_while E l 0 (\<lambda>k v s. Inr (if v \<ge> sz then Inl (k, v) else Inr s)) ()) (\<lambda>r.
      case r of
        Inr _ \<Rightarrow> Inr (M1, free_size, a)
      | Inl (index, v) \<Rightarrow>
          let (Rc_int, l') = JLD E l index in
          bnd (c_assert E (Rc_int \<noteq> 0)) (\<lambda>_.
          Inr (u32 index, u32 v, fl_set a log2 l'))))))"

function power2_allocator_insert_one_free ::
  "env \<Rightarrow> power2_allocator \<Rightarrow> nat \<Rightarrow> nat \<Rightarrow> (int \<times> power2_allocator) res" where
  "power2_allocator_insert_one_free E a cur_index rem_size =
     (if rem_size = 0 then Inr (0, a) else
      let free_log2 = chunk_log2 a cur_index rem_size in
      bnd (chunk_asserts E cur_index free_log2) (\<lambda>_.
      bnd (fl_get a free_log2) (\<lambda>l.
      let (Pfree, l') = JLI E l cur_index in
      if Pfree = PJERR then bnd (c_assert E False) (\<lambda>_. Inr (- 1, a)) else
      bnd (deref Pfree) (\<lambda>v.
      bnd (c_assert E (v = 0)) (\<lambda>_.
      bnd (shl1 free_log2) (\<lambda>w.
      if rem_size < w then
        bnd (c_assert E (rem_size > w div 2)) (\<lambda>_.
        power2_allocator_insert_one_free E (fl_set a free_log2 (jl_put cur_index rem_size l'))
          (add32 cur_index rem_size) 0)
      else
        power2_allocator_insert_one_free E (fl_set a free_log2 (jl_put cur_index w l'))
          (add32 cur_index w) (rem_size - w)))))))"
  by pat_completeness auto
termination
  by (relation "measure (\<lambda>(E, a, c, r). r)") (auto simp: shl1_def split: if_splits)

declare power2_allocator_remove_free_index.simps [simp del]
  power2_allocator_insert_one_free.simps [simp del]

section \<open>The list of blocks in use\<close>

definition power2_allocator_mark_inuse ::
  "env \<Rightarrow> power2_allocator \<Rightarrow> nat \<Rightarrow> nat \<Rightarrow> (int \<times> power2_allocator) res" where
  "power2_allocator_mark_inuse E a alloc_index sz =
     (let (Pinuse, l) = JLI E (inuse_list a) alloc_index in
      if Pinuse = PJERR then bnd (c_assert E False) (\<lambda>_. Inr (- 1, a)) else
      bnd (deref Pinuse) (\<lambda>v.
      bnd (c_assert E (v = 0)) (\<lambda>_.
      Inr (0, a\<lparr>inuse_list := jl_put alloc_index sz l\<rparr>))))"

definition power2_allocator_get_index_size :: "env \<Rightarrow> power2_allocator \<Rightarrow> nat \<Rightarrow> nat res" where
  "power2_allocator_get_index_size E a alloc_index =
     (let Pinuse = JLG E (inuse_list a) alloc_index in
      if Pinuse = PNULL then Inr M1 else
      bnd (c_assert_res E (if Pinuse = PJERR then Inr False else bnd (deref Pinuse) (\<lambda>v. Inr (v \<noteq> 0)))) (\<lambda>_.
      bnd (deref Pinuse) (\<lambda>v. Inr (u32 v))))"

definition power2_allocator_mark_free :: "env \<Rightarrow> power2_allocator \<Rightarrow> nat \<Rightarrow> power2_allocator res" where
  "power2_allocator_mark_free E a alloc_index =
     (let (Rc_int, l) = JLD E (inuse_list a) alloc_index in
      bnd (c_assert E (Rc_int = 1)) (\<lambda>_. Inr (a\<lparr>inuse_list := l\<rparr>)))"

text \<open>The neighbours of an index: their index and sz, or \<open>(uint32_t)-1\<close> and 0.\<close>

definition inuse_block :: "pword \<Rightarrow> (nat \<times> nat) res" where
  "inuse_block p = (case p of PJERR \<Rightarrow> Inl Bad_access | PNULL \<Rightarrow> Inr (M1, 0) | PV k v \<Rightarrow> Inr (u32 k, u32 v))"

definition power2_allocator_get_next_inuse_block :: "env \<Rightarrow> power2_allocator \<Rightarrow> nat \<Rightarrow> (nat \<times> nat) res" where
  "power2_allocator_get_next_inuse_block E a alloc_index = inuse_block (JLN E (inuse_list a) alloc_index)"

definition power2_allocator_get_prev_inuse_block :: "env \<Rightarrow> power2_allocator \<Rightarrow> nat \<Rightarrow> (nat \<times> nat) res" where
  "power2_allocator_get_prev_inuse_block E a alloc_index = inuse_block (JLP E (inuse_list a) alloc_index)"

section \<open>Creation, destruction, copy\<close>

primrec create_loop :: "env \<Rightarrow> nat \<Rightarrow> nat \<Rightarrow> nat \<Rightarrow> power2_allocator \<Rightarrow> power2_allocator res" where
  "create_loop E sz 0 free_index a = Inr a"
| "create_loop E sz (Suc n) free_index a =
     bnd (power2_allocator_insert_one_free E a free_index sz) (\<lambda>(rc, a').
     create_loop E sz n (add32 free_index sz) a')"

definition power2_allocator_create :: "env \<Rightarrow> nat \<Rightarrow> nat \<Rightarrow> power2_allocator option res" where
  "power2_allocator_create E sz count =
     (if \<not> is_uint32_power2 sz then Inr None else
      let log2 = log2_uint32_ceil sz in
      if \<not> mem E 0 then Inr None else
      if \<not> mem E 1 then Inr None else
      bnd (create_loop E sz count 0
             \<lparr>max_size = sz, total_size = mul32 sz count, no_free_lists = log2 + 1,
              free_lists = replicate (log2 + 1) [], inuse_list = []\<rparr>) (\<lambda>a. Inr (Some a)))"

text \<open>The lists are freed, then the struct: what is left is the emptied struct just before
  \<open>bf_sys_free\<close> takes it.\<close>

definition power2_allocator_destroy :: "power2_allocator option \<Rightarrow> power2_allocator option" where
  "power2_allocator_destroy allocator =
     (case allocator of None \<Rightarrow> None
      | Some a \<Rightarrow> Some (a\<lparr>free_lists := map JLFA (take (no_free_lists a) (free_lists a)) @
                                        drop (no_free_lists a) (free_lists a),
                         inuse_list := JLFA (inuse_list a)\<rparr>))"

definition copy_jl :: "env \<Rightarrow> jl \<Rightarrow> jl \<Rightarrow> (unit + jl) res" where
  "copy_jl E src dest =
     jl_while E src 0 (\<lambda>index v d.
       let (Pdest, d') = JLI E d index in
       if Pdest = PJERR then bnd (c_assert E False) (\<lambda>_. Inr (Inl ()))
       else Inr (Inr (jl_put index v d'))) dest"

text \<open>The copies of the free lists, then of the in-use list; \<open>Inl ()\<close> is \<open>goto cleanup\<close>.\<close>

fun copy_free_lists :: "env \<Rightarrow> power2_allocator \<Rightarrow> nat list \<Rightarrow> power2_allocator \<Rightarrow> (unit + power2_allocator) res" where
  "copy_free_lists E src [] dest = Inr (Inr dest)"
| "copy_free_lists E src (i # is) dest =
     bnd (fl_get src i) (\<lambda>ls.
     bnd (fl_get dest i) (\<lambda>ld.
     bnd (copy_jl E ls ld) (\<lambda>r.
     case r of Inl _ \<Rightarrow> Inr (Inl ())
     | Inr l \<Rightarrow> copy_free_lists E src is (fl_set dest i l))))"

definition power2_allocator_make_copy ::
  "env \<Rightarrow> power2_allocator option \<Rightarrow> power2_allocator option res" where
  "power2_allocator_make_copy E src =
     (case src of None \<Rightarrow> Inr None
      | Some a \<Rightarrow>
          if \<not> mem E 0 then Inr None else
          if \<not> mem E 1 then Inr None else
          bnd (copy_free_lists E a [0..<no_free_lists a]
                 (a\<lparr>free_lists := replicate (no_free_lists a) [], inuse_list := []\<rparr>)) (\<lambda>r.
          case r of Inl _ \<Rightarrow> Inr None
          | Inr dest \<Rightarrow>
              bnd (copy_jl E (inuse_list a) (inuse_list dest)) (\<lambda>r.
              case r of Inl _ \<Rightarrow> Inr None
              | Inr l \<Rightarrow> Inr (Some (dest\<lparr>inuse_list := l\<rparr>)))))"

section \<open>Allocation\<close>

fun alloc_search ::
  "env \<Rightarrow> nat \<Rightarrow> nat list \<Rightarrow> nat \<Rightarrow> power2_allocator \<Rightarrow> (nat \<times> nat \<times> power2_allocator) res" where
  "alloc_search E sz [] free_size a = Inr (M1, free_size, a)"
| "alloc_search E sz (i # is) free_size a =
     bnd (power2_allocator_remove_one_free E a i sz free_size) (\<lambda>(free_index, free_size', a').
     if free_index \<noteq> M1 then Inr (free_index, free_size', a')
     else alloc_search E sz is free_size' a')"

text \<open>\<open>x & ~((1ull << k) - 1)\<close>: the low \<open>k\<close> bits cleared.\<close>

definition clear_low :: "nat \<Rightarrow> nat \<Rightarrow> nat" where
  "clear_low k x = x div 2 ^ k * 2 ^ k"

definition power2_allocator_alloc ::
  "env \<Rightarrow> power2_allocator option \<Rightarrow> nat \<Rightarrow> (int \<times> power2_allocator option) res" where
  "power2_allocator_alloc E allocator sz =
     (case allocator of None \<Rightarrow> Inr (- 1, allocator)
      | Some a \<Rightarrow>
      if max_size a < sz then Inr (- 1, allocator) else
      let log2 = log2_uint32_ceil sz in
      bnd (alloc_search E sz [log2..<no_free_lists a] 0 a) (\<lambda>(free_index, free_size, a).
      if free_index = M1 then Inr (- 1, Some a) else
      let alloc_index = clear_low log2 (sub32 (add32 free_index free_size) 1) in
      bnd (if add32 alloc_index sz > add32 free_index free_size
           then bnd (shl1 log2) (\<lambda>w. Inr (sub32 alloc_index w)) else Inr alloc_index) (\<lambda>alloc_index.
      bnd (c_assert E (alloc_index \<ge> free_index)) (\<lambda>_.
      bnd (c_assert E (add32 alloc_index sz \<le> add32 free_index free_size)) (\<lambda>_.
      bnd (power2_allocator_insert_one_free E a free_index (sub32 alloc_index free_index)) (\<lambda>(rc, a).
      if rc \<noteq> 0 then bnd (c_assert E False) (\<lambda>_. Inr (- 1, Some a)) else
      bnd (power2_allocator_insert_one_free E a (add32 alloc_index sz)
             (sub32 (add32 free_index free_size) (add32 alloc_index sz))) (\<lambda>(rc, a).
      if rc \<noteq> 0 then bnd (c_assert E False) (\<lambda>_. Inr (- 1, Some a)) else
      bnd (power2_allocator_mark_inuse E a alloc_index sz) (\<lambda>(rc, a).
      if rc \<noteq> 0 then Inr (- 1, Some a) else
      Inr (s32 alloc_index, Some a)))))))))"

section \<open>Release and reservation\<close>

definition power2_allocator_release ::
  "env \<Rightarrow> power2_allocator \<Rightarrow> nat \<Rightarrow> (int \<times> power2_allocator) res" where
  "power2_allocator_release E a index =
     bnd (power2_allocator_get_index_size E a index) (\<lambda>sz.
     if sz = M1 then Inr (- 1, a) else
     bnd (power2_allocator_get_prev_inuse_block E a index) (\<lambda>(prev_index, prev_size).
     bnd (power2_allocator_get_next_inuse_block E a index) (\<lambda>(next_index, next_size).
     let free_index = (if prev_index \<noteq> M1 then add32 prev_index prev_size else 0);
         free_size = add32 sz (sub32 index free_index) in
     bnd (power2_allocator_remove_free_index E a free_index (sub32 index free_index)) (\<lambda>(rc, a).
     if rc \<noteq> 0 then bnd (c_assert E False) (\<lambda>_. Inr (- 1, a)) else
     let next_index = (if next_index = M1 then total_size a else next_index);
         gap = sub32 next_index (add32 index sz);
         free_size = add32 free_size gap in
     bnd (power2_allocator_remove_free_index E a (add32 index sz) gap) (\<lambda>(rc, a).
     if rc \<noteq> 0 then bnd (c_assert E False) (\<lambda>_. Inr (- 1, a)) else
     bnd (power2_allocator_insert_one_free E a free_index free_size) (\<lambda>(rc, a).
     if rc \<noteq> 0 then bnd (c_assert E False) (\<lambda>_. Inr (- 1, a)) else
     bnd (power2_allocator_mark_free E a index) (\<lambda>a.
     Inr (0, a))))))))"

definition power2_allocator_reserve ::
  "env \<Rightarrow> power2_allocator \<Rightarrow> nat \<Rightarrow> nat \<Rightarrow> (int \<times> power2_allocator) res" where
  "power2_allocator_reserve E a reserve_index reserve_size =
     bnd (power2_allocator_get_index_size E a reserve_index) (\<lambda>sz.
     if sz \<noteq> M1 then Inr (1, a) else
     bnd (power2_allocator_get_prev_inuse_block E a reserve_index) (\<lambda>(prev_index, prev_size).
     bnd (power2_allocator_get_next_inuse_block E a reserve_index) (\<lambda>(next_index, next_size).
     let prev_free_index = (if prev_index \<noteq> M1 then add32 prev_index prev_size else 0);
         next_inuse_index = (if next_index = M1 then total_size a else next_index) in
     if reserve_index < prev_free_index then Inr (1, a) else
     if add32 reserve_index reserve_size > next_inuse_index then Inr (1, a) else
     bnd (power2_allocator_remove_free_index E a prev_free_index
            (sub32 next_inuse_index prev_free_index)) (\<lambda>(rc, a).
     if rc \<noteq> 0 then bnd (c_assert E False) (\<lambda>_. Inr (- 1, a)) else
     bnd (power2_allocator_insert_one_free E a prev_free_index
            (sub32 reserve_index prev_free_index)) (\<lambda>(rc, a).
     if rc \<noteq> 0 then bnd (c_assert E False) (\<lambda>_. Inr (- 1, a)) else
     bnd (power2_allocator_insert_one_free E a (add32 reserve_index reserve_size)
            (sub32 next_inuse_index (add32 reserve_index reserve_size))) (\<lambda>(rc, a).
     if rc \<noteq> 0 then bnd (c_assert E False) (\<lambda>_. Inr (- 1, a)) else
     bnd (power2_allocator_mark_inuse E a reserve_index reserve_size) (\<lambda>(rc, a).
     if rc \<noteq> 0 then Inr (- 1, a) else
     Inr (0, a))))))))"


section \<open>Several blocks at once\<close>

text \<open>\<open>index += (1 << log2)\<close> adds an \<open>int\<close> to a 64-bit word: the \<open>int\<close> is sign-extended.\<close>

definition sext32 :: "nat \<Rightarrow> nat" where
  "sext32 n = (if n < 2147483648 then n else n + (W64 - W32))"

text \<open>The inner loop of \<open>power2_allocator_alloc_int_v2\<close>: \<open>n\<close> of the \<open>count\<close> chunks are still
  to be found, \<open>p\<close> is \<open>Pfree\<close>. The result is the list of indexes and sizes written to the two
  arrays by the iterations that reached the end of the body; it has \<open>count\<close> entries exactly when
  \<open>i == count\<close> after the loop.\<close>

primrec v2_contiguous :: "env \<Rightarrow> jl \<Rightarrow> nat \<Rightarrow> nat \<Rightarrow> nat \<Rightarrow> pword \<Rightarrow> nat \<Rightarrow> (nat \<times> nat) list res" where
  "v2_contiguous E l log2 sz 0 p index = Inr []"
| "v2_contiguous E l log2 sz (Suc n) p index =
     (if p = PNULL then Inr [] else
      bnd (deref p) (\<lambda>v.
      if v < sz then Inr [] else
      bnd (shl1 log2) (\<lambda>w.
      let index' = (index + sext32 w) mod W64 in
      bnd (v2_contiguous E l log2 sz n (JLG E l index') index') (\<lambda>r.
      Inr ((u32 index, u32 v) # r)))))"

text \<open>The outer loop. Its only state is \<open>index\<close>, which every iteration reads from a \<open>uint32_t\<close>:
  after more than \<open>W32\<close> iterations some value has come back and the loop never ends.\<close>

primrec v2_search :: "env \<Rightarrow> jl \<Rightarrow> nat \<Rightarrow> nat \<Rightarrow> nat \<Rightarrow> nat \<Rightarrow> nat \<Rightarrow> nat \<Rightarrow> (nat \<times> nat) list option res" where
  "v2_search E l log2 sz count align 0 index = Inl Diverges"
| "v2_search E l log2 sz count align (Suc fuel) index =
     (let next_index = u32 (index + align) in
      case JLF E l index of
        PNULL \<Rightarrow> Inr None
      | PJERR \<Rightarrow> Inl Bad_access
      | PV k v \<Rightarrow>
          if k mod align \<noteq> 0 then v2_search E l log2 sz count align fuel next_index else
          bnd (v2_contiguous E l log2 sz count (PV k v) k) (\<lambda>found.
          if length found = count then Inr (Some found)
          else v2_search E l log2 sz count align fuel next_index))"

fun v2_remove :: "env \<Rightarrow> nat \<Rightarrow> nat \<Rightarrow> (nat \<times> nat) list \<Rightarrow> power2_allocator \<Rightarrow> power2_allocator res" where
  "v2_remove E log2 sz [] a = Inr a"
| "v2_remove E log2 sz ((free_index, free_size) # r) a =
     bnd (fl_get a log2) (\<lambda>l.
     let (Rc_int, l') = JLD E l free_index in
     bnd (c_assert E (Rc_int \<noteq> 0)) (\<lambda>_.
     bnd (power2_allocator_insert_one_free E (fl_set a log2 l') (add32 free_index sz) (sub32 free_size sz)) (\<lambda>(rc, a).
     bnd (c_assert E (rc = 0)) (\<lambda>_.
     v2_remove E log2 sz r a))))"

fun v2_mark :: "env \<Rightarrow> nat \<Rightarrow> nat \<Rightarrow> nat \<Rightarrow> nat \<Rightarrow> (nat \<times> nat) list \<Rightarrow> power2_allocator \<Rightarrow> (int \<times> power2_allocator) res" where
  "v2_mark E log2 sz first i [] a = Inr (0, a)"
| "v2_mark E log2 sz first i ((free_index, free_size) # r) a =
     bnd (c_assert_res E (bnd (shl1 log2) (\<lambda>w. Inr (free_index = add32 first (mul32 i w))))) (\<lambda>_.
     bnd (power2_allocator_mark_inuse E a free_index sz) (\<lambda>(rc, a).
     if rc \<noteq> 0 then bnd (c_assert E False) (\<lambda>_. Inr (- 1, a))
     else v2_mark E log2 sz first (Suc i) r a))"

definition power2_allocator_alloc_int_v2 ::
  "env \<Rightarrow> power2_allocator \<Rightarrow> nat \<Rightarrow> nat \<Rightarrow> nat \<Rightarrow> nat \<Rightarrow> (int \<times> power2_allocator) res" where
  "power2_allocator_alloc_int_v2 E a log2 sz count align =
     (if log2 \<noteq> sub32 (no_free_lists a) 1 \<or> count = 0 then Inr (- 1, a) else
      bnd (c_assert_res E (bnd (shl1 log2) (\<lambda>w. Inr (sz \<le> w)))) (\<lambda>_.
      bnd (fl_get a log2) (\<lambda>l.
      bnd (v2_search E l log2 sz count align (Suc W32) 0) (\<lambda>found.
      case found of
        None \<Rightarrow> Inr (- 1, a)
      | Some r \<Rightarrow>
          bnd (v2_remove E log2 sz r a) (\<lambda>a.
          bnd (v2_mark E log2 sz (fst (hd r)) 0 r a) (\<lambda>(rc, a).
          if rc \<noteq> 0 then Inr (- 1, a) else Inr (s32 (fst (hd r)), a)))))))"

definition power2_allocator_alloc_multiple ::
  "env \<Rightarrow> power2_allocator option \<Rightarrow> nat \<Rightarrow> nat \<Rightarrow> (int \<times> power2_allocator option) res" where
  "power2_allocator_alloc_multiple E allocator sz count =
     (if count = 1 then power2_allocator_alloc E allocator sz else
      bnd (shl1 (log2_uint32_ceil sz)) (\<lambda>w.
      let total = mul32 w count in
      case allocator of None \<Rightarrow> Inr (- 1, allocator)
      | Some a \<Rightarrow>
          if total_size a < total then Inr (- 1, allocator) else
          bnd (shl1 (log2_uint32_ceil total)) (\<lambda>align.
          let log2 = log2_uint32_ceil sz in
          if log2 \<noteq> sub32 (no_free_lists a) 1 then Inr (- 1, allocator) else
          bnd (power2_allocator_alloc_int_v2 E a log2 sz count align) (\<lambda>(alloc_index, a).
          if u32_of_int alloc_index = M1 then Inr (- 1, Some a) else Inr (alloc_index, Some a)))))"

text \<open>The loop of \<open>power2_allocator_release_multiple\<close>; \<open>sz\<close> is the size of the first block.\<close>

primrec release_multiple_loop ::
  "env \<Rightarrow> nat \<Rightarrow> nat \<Rightarrow> nat \<Rightarrow> nat \<Rightarrow> power2_allocator \<Rightarrow> (int \<times> power2_allocator) res" where
  "release_multiple_loop E log2 sz 0 index a = Inr (0, a)"
| "release_multiple_loop E log2 sz (Suc n) index a =
     bnd (power2_allocator_get_next_inuse_block E a index) (\<lambda>(next_index, next_size).
     let next_index = (if next_index = M1 then total_size a else next_index);
         gap = sub32 next_index (add32 index sz) in
     bnd (power2_allocator_remove_free_index E a (add32 index sz) gap) (\<lambda>(rc, a).
     if rc \<noteq> 0 then bnd (c_assert E False) (\<lambda>_. Inr (- 1, a)) else
     bnd (power2_allocator_insert_one_free E a index (add32 sz gap)) (\<lambda>(rc, a).
     if rc \<noteq> 0 then bnd (c_assert E False) (\<lambda>_. Inr (- 1, a)) else
     bnd (power2_allocator_mark_free E a index) (\<lambda>a.
     bnd (shl1 log2) (\<lambda>w.
     release_multiple_loop E log2 sz n (add32 index w) a)))))"

definition power2_allocator_release_multiple ::
  "env \<Rightarrow> power2_allocator \<Rightarrow> nat \<Rightarrow> nat \<Rightarrow> (int \<times> power2_allocator) res" where
  "power2_allocator_release_multiple E a index count =
     (if count = 1 then power2_allocator_release E a index else
      bnd (power2_allocator_get_index_size E a index) (\<lambda>sz.
      if sz = M1 then Inr (- 1, a) else
      let log2 = log2_uint32_ceil sz in
      if log2 \<noteq> sub32 (no_free_lists a) 1 then Inr (- 1, a) else
      release_multiple_loop E log2 sz count index a))"

section \<open>Inspection\<close>

definition power2_allocator_alloc_count_by_size :: "env \<Rightarrow> power2_allocator \<Rightarrow> nat \<Rightarrow> int res" where
  "power2_allocator_alloc_count_by_size E a sz =
     (if sz > max_size a then Inr 0 else
      bnd (jl_while E (inuse_list a) 0
             (\<lambda>Index v count. if v = sz then bnd (inc_int count) (\<lambda>c. Inr (Inr c)) else Inr (Inr count)) 0)
        (\<lambda>r. case r of Inl () \<Rightarrow> Inr 0 | Inr count \<Rightarrow> Inr count))"

text \<open>\<open>count += ( *PValue)\<close> adds in 64 bits and truncates to \<open>int\<close>: the accumulator is its \<open>uint32_t\<close> image.\<close>

definition power2_allocator_usage :: "env \<Rightarrow> power2_allocator \<Rightarrow> int res" where
  "power2_allocator_usage E a =
     bnd (jl_while E (inuse_list a) 0 (\<lambda>Index v count. Inr (Inr (add32 count v))) 0)
       (\<lambda>r. case r of Inl () \<Rightarrow> Inr 0 | Inr count \<Rightarrow> Inr (s32 count))"

definition power2_allocator_alloc_count :: "power2_allocator option \<Rightarrow> nat" where
  "power2_allocator_alloc_count allocator =
     (case allocator of None \<Rightarrow> 0 | Some a \<Rightarrow> u32 (JLC (inuse_list a) 0 (W64 - 1)))"

definition power2_allocator_first_alloc :: "env \<Rightarrow> power2_allocator option \<Rightarrow> int" where
  "power2_allocator_first_alloc E allocator =
     (case allocator of None \<Rightarrow> - 1
      | Some a \<Rightarrow> (case JLF E (inuse_list a) 0 of PNULL \<Rightarrow> - 1 | PJERR \<Rightarrow> 0 | PV k v \<Rightarrow> s32 k))"

definition word_of_int :: "int \<Rightarrow> nat" where
  "word_of_int i = nat (i mod int W64)"

definition power2_allocator_next_alloc :: "env \<Rightarrow> power2_allocator option \<Rightarrow> int \<Rightarrow> int" where
  "power2_allocator_next_alloc E allocator idx =
     (case allocator of None \<Rightarrow> - 1
      | Some a \<Rightarrow> (case JLN E (inuse_list a) (word_of_int idx) of
          PNULL \<Rightarrow> - 1 | PJERR \<Rightarrow> s32 (word_of_int idx) | PV k v \<Rightarrow> s32 k))"

text \<open>What \<open>power2_allocator_print\<close> prints: the arguments of its \<open>printf\<close> calls.\<close>

datatype printed = FREE | Log2 nat | Block int int | USED

definition print_list :: "env \<Rightarrow> jl \<Rightarrow> printed list res" where
  "print_list E l =
     bnd (jl_while E l 0 (\<lambda>index v out. Inr (Inr (out @ [Block (s32 index) (s32 v)]))) [])
       (\<lambda>r. case r of Inl () \<Rightarrow> Inr [] | Inr out \<Rightarrow> Inr out)"

fun print_free_lists :: "env \<Rightarrow> power2_allocator \<Rightarrow> nat list \<Rightarrow> printed list res" where
  "print_free_lists E a [] = Inr []"
| "print_free_lists E a (i # is) =
     bnd (fl_get a i) (\<lambda>l. bnd (print_list E l) (\<lambda>out. bnd (print_free_lists E a is) (\<lambda>rest.
       Inr (Log2 i # out @ rest))))"

definition power2_allocator_print :: "env \<Rightarrow> power2_allocator option \<Rightarrow> printed list res" where
  "power2_allocator_print E allocator =
     (case allocator of None \<Rightarrow> Inr []
      | Some a \<Rightarrow> bnd (print_free_lists E a [0..<no_free_lists a]) (\<lambda>f.
          bnd (print_list E (inuse_list a)) (\<lambda>u. Inr (FREE # f @ USED # u))))"

section \<open>The run-time check\<close>

function power2_allocator_free_list_assert ::
  "env \<Rightarrow> power2_allocator \<Rightarrow> nat \<Rightarrow> nat \<Rightarrow> unit res" where
  "power2_allocator_free_list_assert E a cur_index rem_size =
     (if rem_size = 0 then Inr () else
      let free_log2 = chunk_log2 a cur_index rem_size in
      bnd (chunk_asserts E cur_index free_log2) (\<lambda>_.
      bnd (fl_get a free_log2) (\<lambda>l.
      let Pfree = JLG E l cur_index in
      if Pfree = PNULL then c_assert E False else
      bnd (deref Pfree) (\<lambda>v.
      let tmp_size = u32 v in
      bnd (shl1 free_log2) (\<lambda>w.
      if rem_size < w then
        bnd (c_assert E (tmp_size = rem_size)) (\<lambda>_.
        power2_allocator_free_list_assert E a (add32 cur_index rem_size) 0)
      else
        bnd (c_assert E (tmp_size = w)) (\<lambda>_.
        power2_allocator_free_list_assert E a (add32 cur_index w) (rem_size - w)))))))"
  by pat_completeness auto
termination
  by (relation "measure (\<lambda>(E, a, c, r). r)") (auto simp: shl1_def split: if_splits)

declare power2_allocator_free_list_assert.simps [simp del]

text \<open>Marking the units of a block in a Judy1 array; a unit marked twice fails an assertion.\<close>

fun mark_units :: "env \<Rightarrow> nat list \<Rightarrow> j1 \<Rightarrow> j1 res" where
  "mark_units E [] s = Inr s"
| "mark_units E (i # is) s =
     (let (Rc_int, s') = J1S E s i in bnd (c_assert E (Rc_int \<noteq> 0)) (\<lambda>_. mark_units E is s'))"

definition mark_blocks :: "env \<Rightarrow> jl \<Rightarrow> j1 \<Rightarrow> j1 res" where
  "mark_blocks E l s =
     bnd (jl_while E l 0 (\<lambda>index v s. bnd (u32_range index ((index + v) mod W64)) (\<lambda>is.
            bnd (mark_units E is s) (\<lambda>s. Inr (Inr s)))) s)
       (\<lambda>r. case r of Inl () \<Rightarrow> Inr s | Inr s \<Rightarrow> Inr s)"

fun mark_free_lists :: "env \<Rightarrow> power2_allocator \<Rightarrow> nat list \<Rightarrow> j1 \<Rightarrow> j1 res" where
  "mark_free_lists E a [] s = Inr s"
| "mark_free_lists E a (k # ks) s =
     bnd (fl_get a k) (\<lambda>l.
     bnd (jl_while E l 0 (\<lambda>index v s.
            let sz = u32 v in
            bnd (c_assert_res E (bnd (shl1 k) (\<lambda>w. Inr (sz \<le> w)))) (\<lambda>_.
            bnd (c_assert_res E (bnd (shl1 k) (\<lambda>w. Inr (sz > w div 2)))) (\<lambda>_.
            bnd (u32_range index ((index + sz) mod W64)) (\<lambda>is.
            bnd (mark_units E is s) (\<lambda>s. Inr (Inr s)))))) s) (\<lambda>r.
     case r of Inl () \<Rightarrow> Inr s | Inr s \<Rightarrow> mark_free_lists E a ks s))"

fun check_units :: "env \<Rightarrow> j1 \<Rightarrow> j1 \<Rightarrow> nat list \<Rightarrow> unit res" where
  "check_units E free_array inuse_array [] = Inr ()"
| "check_units E free_array inuse_array (i # is) =
     bnd (if J1T free_array i \<noteq> 0 then c_assert E (J1T inuse_array i = 0)
          else c_assert E (J1T inuse_array i \<noteq> 0)) (\<lambda>_.
     check_units E free_array inuse_array is)"

definition check_free_lists :: "env \<Rightarrow> power2_allocator \<Rightarrow> unit res" where
  "check_free_lists E a =
     bnd (jl_while E (inuse_list a) 0 (\<lambda>index v free_index.
            bnd (power2_allocator_free_list_assert E a free_index (sub32 (u32 index) free_index)) (\<lambda>_.
            Inr (Inr (add32 index v)))) 0) (\<lambda>r.
     case r of Inl () \<Rightarrow> Inr ()
     | Inr free_index \<Rightarrow>
         if free_index \<noteq> total_size a
         then power2_allocator_free_list_assert E a free_index (sub32 (total_size a) free_index)
         else Inr ())"

definition power2_allocator_assert :: "env \<Rightarrow> power2_allocator option \<Rightarrow> unit res" where
  "power2_allocator_assert E allocator =
     (case allocator of None \<Rightarrow> Inr ()
      | Some a \<Rightarrow>
          bnd (mark_free_lists E a [0..<no_free_lists a] []) (\<lambda>free_array.
          bnd (mark_blocks E (inuse_list a) []) (\<lambda>inuse_array.
          bnd (check_units E free_array inuse_array [0..<total_size a]) (\<lambda>_.
          bnd (check_free_lists E a) (\<lambda>_.
          bnd (c_assert E (fst (J1F E free_array (total_size a)) = 0)) (\<lambda>_.
          c_assert E (fst (J1F E inuse_array (total_size a)) = 0)))))))"

end
