(* ===== verification/Power2_Chunks.thy ===== *)
theory Power2_Chunks
  imports Bit_Utils
begin

text \<open>
  How the power2 allocator cuts a free region into chunks, as mathematics on natural numbers.

  \<open>chunks m c r\<close> is the sequence of free-list entries for the \<open>r\<close> free units from index \<open>c\<close>
  when the free lists go up to \<open>2 ^ m\<close>: an entry \<open>(k, i, s)\<close> says that list \<open>k\<close> maps index \<open>i\<close>
  to size \<open>s\<close>. \<open>gaps\<close> are the free regions between the blocks of an in-use list. The allocator's
  free lists are, in every state, the chunks of the gaps (\<open>free_chunks\<close>); the lemmas say how
  that set changes when a gap is cut at a place inside one chunk (allocation), cut anywhere
  (reservation) or when two gaps are joined (release).
\<close>

section \<open>Chunks of a free region\<close>

definition chunk_exp :: "nat \<Rightarrow> nat \<Rightarrow> nat \<Rightarrow> nat" where
  "chunk_exp m c r = min m (min (ctz c) (log2_uint32_ceil r))"

function chunks :: "nat \<Rightarrow> nat \<Rightarrow> nat \<Rightarrow> (nat \<times> nat \<times> nat) list" where
  "chunks m c r =
     (if r = 0 then [] else
      let k = chunk_exp m c r in
      if r < 2 ^ k then [(k, c, r)]
      else (k, c, 2 ^ k) # chunks m (c + 2 ^ k) (r - 2 ^ k))"
  by pat_completeness auto
termination
  by (relation "measure (\<lambda>(m, c, r). r)") auto

declare chunks.simps [simp del]

lemma chunks_0 [simp]: "chunks m c 0 = []"
  by (simp add: chunks.simps)

lemma chunks_partial: "0 < r \<Longrightarrow> r < 2 ^ chunk_exp m c r \<Longrightarrow> chunks m c r = [(chunk_exp m c r, c, r)]"
  by (subst chunks.simps) (simp add: Let_def)

lemma chunks_full:
  "2 ^ chunk_exp m c r \<le> r \<Longrightarrow> chunks m c r =
     (chunk_exp m c r, c, 2 ^ chunk_exp m c r) # chunks m (c + 2 ^ chunk_exp m c r) (r - 2 ^ chunk_exp m c r)"
proof -
  assume le: "2 ^ chunk_exp m c r \<le> r"
  then have "r \<noteq> 0" by (intro notI) simp
  with le show ?thesis by (subst chunks.simps) (simp add: Let_def)
qed

lemma chunk_exp_le: "chunk_exp m c r \<le> m"
  by (simp add: chunk_exp_def)

lemma chunk_exp_dvd: "m \<le> 32 \<Longrightarrow> 2 ^ chunk_exp m c r dvd c"
  using ctz_min_dvd [of m "chunk_exp m c r" c] by (simp add: chunk_exp_def)

lemma chunk_exp_half:
  assumes "0 < r" and "r < W32"
  shows "2 ^ chunk_exp m c r < 2 * r"
proof (cases "chunk_exp m c r")
  case 0
  with assms show ?thesis by simp
next
  case (Suc k)
  then have "\<not> log2_uint32_ceil r \<le> k" by (simp add: chunk_exp_def)
  with assms(2) have "2 ^ k < r" by (simp add: log2_ceil_le_iff)
  with Suc show ?thesis by simp
qed

text \<open>The exponent does not depend on how much is free beyond the chunk.\<close>

lemma chunk_exp_cut:
  assumes "2 ^ chunk_exp m c r \<le> x" and "x \<le> r" and "r < W32"
  shows "chunk_exp m c x = chunk_exp m c r"
proof -
  have "chunk_exp m c r \<le> log2_uint32_ceil x"
    using assms by (intro log2_ceil_ge_exp) auto
  moreover have "log2_uint32_ceil x \<le> log2_uint32_ceil r"
    using assms by (intro log2_ceil_mono) auto
  ultimately show ?thesis by (simp add: chunk_exp_def)
qed

lemma chunk_exp_aligned:
  assumes "2 ^ min m (ctz c) \<le> r" and "r < W32"
  shows "chunk_exp m c r = min m (ctz c)"
  using log2_ceil_ge_exp [OF assms] by (simp add: chunk_exp_def)

lemma chunks_mem:
  assumes "m < 32" and "r < W32" and "(k, i, s) \<in> set (chunks m c r)"
  shows "k \<le> m \<and> 2 ^ k dvd i \<and> 0 < s \<and> s \<le> 2 ^ k \<and> 2 ^ k < 2 * s \<and> c \<le> i \<and> i + s \<le> c + r"
  using assms
proof (induction m c r rule: chunks.induct)
  case (1 m c r)
  let ?k = "chunk_exp m c r"
  show ?case
  proof (cases "r = 0")
    case True
    with "1.prems" show ?thesis by simp
  next
    case r: False
    with "1.prems" have h: "2 ^ ?k < 2 * r" and d: "2 ^ ?k dvd c"
      by (simp_all add: chunk_exp_half chunk_exp_dvd)
    show ?thesis
    proof (cases "r < 2 ^ ?k")
      case True
      with "1.prems" r h d show ?thesis by (auto simp: chunks_partial chunk_exp_le)
    next
      case False
      then consider "(k, i, s) = (?k, c, 2 ^ ?k)" | "(k, i, s) \<in> set (chunks m (c + 2 ^ ?k) (r - 2 ^ ?k))"
        using "1.prems"(3) by (auto simp: chunks_full)
      then show ?thesis
      proof cases
        case 1
        with d False show ?thesis by (auto simp: chunk_exp_le)
      next
        case 2
        have "r - 2 ^ ?k < W32" using "1.prems"(2) by simp
        with "1.IH" [of ?k] r False "1.prems"(1) 2
        have IH: "k \<le> m \<and> 2 ^ k dvd i \<and> 0 < s \<and> s \<le> 2 ^ k \<and> 2 ^ k < 2 * s \<and> c + 2 ^ ?k \<le> i \<and>
          i + s \<le> (c + 2 ^ ?k) + (r - 2 ^ ?k)" by simp
        then have "c \<le> i" by (meson add_leD1)
        with IH False show ?thesis by simp
      qed
    qed
  qed
qed

lemma chunks_cover:
  assumes "c \<le> x" and "x < c + r"
  shows "\<exists>(k, i, s) \<in> set (chunks m c r). i \<le> x \<and> x < i + s"
  using assms
proof (induction m c r rule: chunks.induct)
  case (1 m c r)
  let ?k = "chunk_exp m c r"
  have r: "0 < r" using "1.prems" by simp
  show ?case
  proof (cases "r < 2 ^ ?k")
    case True
    with "1.prems" r show ?thesis by (auto simp: chunks_partial)
  next
    case False
    show ?thesis
    proof (cases "x < c + 2 ^ ?k")
      case True
      with False "1.prems" show ?thesis by (auto simp: chunks_full)
    next
      case x: False
      with "1.IH" [of ?k] r False "1.prems"
      have "\<exists>(k, i, s) \<in> set (chunks m (c + 2 ^ ?k) (r - 2 ^ ?k)). i \<le> x \<and> x < i + s"
        by (auto simp: Let_def)
      with False show ?thesis by (auto simp: chunks_full)
    qed
  qed
qed

text \<open>A region splits at \<open>c + p\<close> when no chunk that starts before could reach over it.\<close>

lemma chunks_append:
  assumes "m \<le> 32" and "p + q < W32"
    and "\<And>y. c \<le> y \<Longrightarrow> y < c + p \<Longrightarrow> 2 ^ min m (ctz y) dvd c + p"
  shows "chunks m c (p + q) = chunks m c p @ chunks m (c + p) q"
  using assms
proof (induction m c p rule: chunks.induct)
  case (1 m c p)
  show ?case
  proof (cases "p = 0")
    case True
    then show ?thesis by simp
  next
    case p: False
    let ?t = "min m (ctz c)"
    have "2 ^ ?t dvd c" using ctz_min_dvd [of m ?t c] "1.prems"(1) by simp
    moreover have "2 ^ ?t dvd c + p" using "1.prems"(3) [of c] p by simp
    ultimately have "2 ^ ?t dvd p" using dvd_add_right_iff by blast
    then have le: "2 ^ ?t \<le> p" using p by (simp add: dvd_imp_le)
    then have e1: "chunk_exp m c p = ?t" and e2: "chunk_exp m c (p + q) = ?t"
      using "1.prems"(2) by (simp_all add: chunk_exp_aligned)
    have "chunks m (c + 2 ^ ?t) ((p - 2 ^ ?t) + q) = chunks m (c + 2 ^ ?t) (p - 2 ^ ?t) @ chunks m (c + p) q"
      using "1.IH" [of ?t] p le e1 "1.prems" by (simp add: Let_def)
    then show ?thesis
      using le chunks_full [of m c p] chunks_full [of m c "p + q"] by (simp add: e1 e2)
  qed
qed

lemma chunk_exp_power:
  "m < 32 \<Longrightarrow> chunk_exp m c (2 ^ chunk_exp m c r) = chunk_exp m c r"
  using log2_ceil_power [of "chunk_exp m c r"] by (simp add: chunk_exp_def min_def)

text \<open>Between two neighbouring multiples of \<open>2 ^ k\<close>, every alignment divides the upper one.\<close>

lemma inside_block_dvd:
  assumes "2 ^ k dvd c" and "c < y" and "y < c + 2 ^ k" and "m \<le> 32"
  shows "2 ^ min m (ctz y) dvd c + 2 ^ k"
proof -
  have "\<not> 2 ^ k dvd y"
  proof
    assume "2 ^ k dvd y"
    with assms(1,2) have "2 ^ k dvd y - c" and "0 < y - c" by (auto simp: dvd_diff_nat)
    then have "2 ^ k \<le> y - c" by (rule dvd_imp_le)
    with assms(2,3) show False by linarith
  qed
  then have "ctz y < k" using assms(2) ctz_dvd_iff [of y k] by auto
  then have "(2::nat) ^ min m (ctz y) dvd 2 ^ k" by (intro le_imp_power_dvd) simp
  with assms(1) show ?thesis by (meson dvd_add dvd_trans dvd_refl)
qed

text \<open>The place of one chunk in a region, and what remains of the region when it is cut at a
  point of that chunk: before the cut the same chunks and the chunks of the front of this one,
  after the cut the chunks of the rest of this one and then the same chunks.\<close>

lemma chunks_cut:
  assumes "m < 32" and "r < W32" and "(k, f, s) \<in> set (chunks m c r)"
  shows "\<exists>pre post. chunks m c r = pre @ (k, f, s) # post \<and>
    (\<forall>x. f \<le> x \<and> x \<le> f + s \<longrightarrow>
      chunks m c (x - c) = pre @ chunks m f (x - f) \<and>
      chunks m x (c + r - x) = chunks m x (f + s - x) @ post)"
  using assms
proof (induction m c r rule: chunks.induct)
  case (1 m c r)
  let ?k = "chunk_exp m c r"
  have r: "r \<noteq> 0" using "1.prems"(3) by (cases "r = 0") auto
  show ?case
  proof (cases "r < 2 ^ ?k")
    case True
    with r "1.prems"(3) have "k = ?k \<and> f = c \<and> s = r" and "chunks m c r = [(?k, c, r)]"
      by (auto simp: chunks_partial)
    then show ?thesis by (intro exI [of _ "[]"]) auto
  next
    case full: False
    let ?c = "c + 2 ^ ?k" and ?r = "r - 2 ^ ?k"
    have eq: "chunks m c r = (?k, c, 2 ^ ?k) # chunks m ?c ?r" using full by (simp add: chunks_full)
    have sum: "?c + ?r = c + r" using full by simp
    consider "(k, f, s) = (?k, c, 2 ^ ?k)" | "(k, f, s) \<in> set (chunks m ?c ?r)"
      using "1.prems"(3) eq by auto
    then show ?thesis
    proof cases
      case first: 1
      have one: "chunks m c (2 ^ ?k) = [(?k, c, 2 ^ ?k)]"
        using chunks_full [of m c "2 ^ ?k"] "1.prems"(1) by (simp add: chunk_exp_power)
      have "chunks m x (c + r - x) = chunks m x (?c - x) @ chunks m ?c ?r" if x: "c \<le> x" "x \<le> ?c" for x
      proof (cases "x = c")
        case True
        then show ?thesis using one eq by simp
      next
        case False
        have "2 ^ min m (ctz y) dvd x + (?c - x)" if "x \<le> y" "y < x + (?c - x)" for y
          using inside_block_dvd [of ?k c y m] that x False "1.prems"(1) by (auto simp: chunk_exp_dvd)
        from chunks_append [of m "?c - x" ?r x, OF _ _ this]
        show ?thesis using x "1.prems" full by simp
      qed
      with first eq show ?thesis by (intro exI [of _ "[]"] exI [of _ "chunks m ?c ?r"]) auto
    next
      case tail: 2
      have "\<exists>pre post. chunks m ?c ?r = pre @ (k, f, s) # post \<and>
        (\<forall>x. f \<le> x \<and> x \<le> f + s \<longrightarrow> chunks m ?c (x - ?c) = pre @ chunks m f (x - f) \<and>
          chunks m x (?c + ?r - x) = chunks m x (f + s - x) @ post)"
        using "1.IH" [of ?k] r full tail "1.prems" by (simp add: Let_def)
      then obtain pre post where split: "chunks m ?c ?r = pre @ (k, f, s) # post"
        and cut: "\<And>x. f \<le> x \<Longrightarrow> x \<le> f + s \<Longrightarrow> chunks m ?c (x - ?c) = pre @ chunks m f (x - f) \<and>
          chunks m x (?c + ?r - x) = chunks m x (f + s - x) @ post" by blast
      have "?c \<le> f \<and> f + s \<le> ?c + ?r"
        using chunks_mem [of m ?r k f s ?c] tail "1.prems" by simp
      then have lo: "?c \<le> f" and hi: "f + s \<le> c + r" using sum by auto
      have "chunks m c (x - c) = ((?k, c, 2 ^ ?k) # pre) @ chunks m f (x - f)" if "f \<le> x" "x \<le> f + s" for x
      proof -
        have b: "2 ^ ?k \<le> x - c" "x - c \<le> r" "x - c - 2 ^ ?k = x - ?c" using that lo hi by auto
        then have "chunk_exp m c (x - c) = ?k" using "1.prems"(2) by (intro chunk_exp_cut) auto
        with b cut that show ?thesis using chunks_full [of m c "x - c"] by simp
      qed
      with split cut eq sum show ?thesis by (intro exI [of _ "(?k, c, 2 ^ ?k) # pre"] exI [of _ post]) auto
    qed
  qed
qed

lemma chunks_cut_obtain:
  assumes "m < 32" and "r < W32" and "(k, f, s) \<in> set (chunks m c r)"
  obtains "chunks m c r = chunks m c (f - c) @ (k, f, s) # chunks m (f + s) (c + r - (f + s))"
    and "\<And>x. f \<le> x \<Longrightarrow> x \<le> f + s \<Longrightarrow> chunks m c (x - c) = chunks m c (f - c) @ chunks m f (x - f)"
    and "\<And>x. f \<le> x \<Longrightarrow> x \<le> f + s \<Longrightarrow>
      chunks m x (c + r - x) = chunks m x (f + s - x) @ chunks m (f + s) (c + r - (f + s))"
proof -
  from chunks_cut [OF assms] obtain pre post where split: "chunks m c r = pre @ (k, f, s) # post"
    and cut: "\<And>x. f \<le> x \<Longrightarrow> x \<le> f + s \<Longrightarrow> chunks m c (x - c) = pre @ chunks m f (x - f) \<and>
      chunks m x (c + r - x) = chunks m x (f + s - x) @ post" by blast
  have "pre = chunks m c (f - c)" using cut [of f] by simp
  moreover have "post = chunks m (f + s) (c + r - (f + s))" using cut [of "f + s"] by simp
  ultimately show ?thesis using split cut that by metis
qed

lemma chunks_pos:
  "m < 32 \<Longrightarrow> r < W32 \<Longrightarrow> (k, i, s) \<in> set (chunks m c r) \<Longrightarrow> c \<le> i \<and> i < c + r"
  using chunks_mem [of m r k i s c] by simp

section \<open>Gaps between the blocks in use\<close>

fun gaps :: "nat \<Rightarrow> (nat \<times> nat) list \<Rightarrow> nat \<Rightarrow> (nat \<times> nat) list" where
  "gaps c [] t = [(c, t)]"
| "gaps c ((i, s) # us) t = (c, i) # gaps (i + s) us t"

text \<open>Blocks in use: non-empty, in ascending order, without overlap, between \<open>c\<close> and \<open>t\<close>.\<close>

fun blocks_ok :: "nat \<Rightarrow> (nat \<times> nat) list \<Rightarrow> nat \<Rightarrow> bool" where
  "blocks_ok c [] t \<longleftrightarrow> c \<le> t"
| "blocks_ok c ((i, s) # us) t \<longleftrightarrow> c \<le> i \<and> 0 < s \<and> blocks_ok (i + s) us t"

fun blocks_end :: "nat \<Rightarrow> (nat \<times> nat) list \<Rightarrow> nat" where
  "blocks_end c [] = c"
| "blocks_end c ((i, s) # us) = blocks_end (i + s) us"

definition next_begin :: "(nat \<times> nat) list \<Rightarrow> nat \<Rightarrow> nat" where
  "next_begin us t = (case us of [] \<Rightarrow> t | (i, s) # _ \<Rightarrow> i)"

fun gaps_before :: "nat \<Rightarrow> (nat \<times> nat) list \<Rightarrow> (nat \<times> nat) list" where
  "gaps_before c [] = []"
| "gaps_before c ((i, s) # us) = (c, i) # gaps_before (i + s) us"

definition gaps_after :: "(nat \<times> nat) list \<Rightarrow> nat \<Rightarrow> (nat \<times> nat) list" where
  "gaps_after us t = (case us of [] \<Rightarrow> [] | (i, s) # us' \<Rightarrow> gaps (i + s) us' t)"

lemma next_begin_simps [simp]: "next_begin [] t = t" "next_begin ((i, s) # us) t = i"
  by (simp_all add: next_begin_def)

lemma gaps_after_simps [simp]: "gaps_after [] t = []" "gaps_after ((i, s) # us) t = gaps (i + s) us t"
  by (simp_all add: gaps_after_def)

lemma gaps_unfold: "gaps c us t = (c, next_begin us t) # gaps_after us t"
  by (cases us) auto

lemma gaps_append:
  "gaps c (us @ vs) t = gaps_before c us @ (blocks_end c us, next_begin vs t) # gaps_after vs t"
  by (induction c us rule: gaps_before.induct) (auto simp: gaps_unfold)

lemma gaps_split:
  "(b, e) \<in> set (gaps c us t) \<Longrightarrow> \<exists>us1 us2. us = us1 @ us2 \<and> b = blocks_end c us1 \<and> e = next_begin us2 t"
proof (induction c us t rule: gaps.induct)
  case (1 c t)
  then show ?case by simp
next
  case (2 c i s us t)
  then consider "b = c" "e = i" | "(b, e) \<in> set (gaps (i + s) us t)" by auto
  then show ?case
  proof cases
    case 1
    then show ?thesis by (intro exI [of _ "[]"] exI [of _ "(i, s) # us"]) simp
  next
    case 2
    with "2.IH" obtain us1 us2 where "us = us1 @ us2 \<and> b = blocks_end (i + s) us1 \<and> e = next_begin us2 t"
      by blast
    then show ?thesis by (intro exI [of _ "(i, s) # us1"] exI [of _ us2]) simp
  qed
qed

lemma blocks_ok_le: "blocks_ok c us t \<Longrightarrow> c \<le> t"
  by (induction c us t rule: blocks_ok.induct) auto

lemma blocks_ok_append:
  "blocks_ok c (us @ vs) t \<longleftrightarrow> blocks_ok c us (next_begin vs t) \<and> blocks_ok (blocks_end c us) vs t"
proof (induction c us t rule: blocks_ok.induct)
  case (1 c t)
  then show ?case by (cases vs) (auto dest: blocks_ok_le)
qed auto

lemma blocks_ok_mem: "blocks_ok c us t \<Longrightarrow> (i, s) \<in> set us \<Longrightarrow> c \<le> i \<and> 0 < s \<and> i + s \<le> t"
  by (induction c us t rule: blocks_ok.induct) (auto dest: blocks_ok_le)

lemma blocks_end_le: "blocks_ok c us t \<Longrightarrow> c \<le> blocks_end c us \<and> blocks_end c us \<le> t"
  by (induction c us t rule: blocks_ok.induct) auto

lemma blocks_ok_end: "blocks_ok c us t \<Longrightarrow> blocks_end c us \<le> t' \<Longrightarrow> blocks_ok c us t'"
  by (induction c us t rule: blocks_ok.induct) auto

lemma blocks_ok_mem_end: "blocks_ok c us t \<Longrightarrow> (i, s) \<in> set us \<Longrightarrow> i + s \<le> blocks_end c us"
  by (induction c us t rule: blocks_ok.induct) (auto dest: blocks_end_le)

lemma blocks_end_snoc [simp]: "blocks_end c (us @ [(i, s)]) = i + s"
  by (induction c us rule: blocks_end.induct) auto

lemma next_begin_le: "blocks_ok c us t \<Longrightarrow> c \<le> next_begin us t \<and> next_begin us t \<le> t"
  by (cases us) (fastforce dest: blocks_ok_le)+

lemma blocks_ok_next_begin: "blocks_ok c us t \<Longrightarrow> (i, s) \<in> set us \<Longrightarrow> next_begin us t \<le> i"
  by (cases us) (fastforce dest: blocks_ok_mem)+

lemma gaps_before_bounds:
  "blocks_ok c us t \<Longrightarrow> (b, e) \<in> set (gaps_before c us) \<Longrightarrow> b \<le> e \<and> e < blocks_end c us"
proof (induction c us arbitrary: t rule: gaps_before.induct)
  case (2 c i s us)
  then show ?case using blocks_end_le [of "i + s" us t] by auto
qed simp

lemma gaps_bounds: "blocks_ok c us t \<Longrightarrow> (b, e) \<in> set (gaps c us t) \<Longrightarrow> c \<le> b \<and> b \<le> e \<and> e \<le> t"
  by (induction c us t rule: gaps.induct) (auto dest: blocks_ok_le)

lemma gaps_after_bounds:
  "blocks_ok c us t \<Longrightarrow> (b, e) \<in> set (gaps_after us t) \<Longrightarrow> next_begin us t < b \<and> b \<le> e \<and> e \<le> t"
  by (cases us) (fastforce dest: gaps_bounds)+

section \<open>The chunks of all gaps\<close>

definition free_chunks :: "nat \<Rightarrow> nat \<Rightarrow> (nat \<times> nat) list \<Rightarrow> nat \<Rightarrow> (nat \<times> nat \<times> nat) set" where
  "free_chunks m c us t = (\<Union>(b, e) \<in> set (gaps c us t). set (chunks m b (e - b)))"

text \<open>The chunks outside the gap between the blocks \<open>us\<close> and the blocks \<open>vs\<close>.\<close>

definition other_chunks ::
  "nat \<Rightarrow> nat \<Rightarrow> (nat \<times> nat) list \<Rightarrow> (nat \<times> nat) list \<Rightarrow> nat \<Rightarrow> (nat \<times> nat \<times> nat) set" where
  "other_chunks m c us vs t =
     (\<Union>(b, e) \<in> set (gaps_before c us) \<union> set (gaps_after vs t). set (chunks m b (e - b)))"

lemma free_chunks_split:
  "free_chunks m c (us @ vs) t = other_chunks m c us vs t \<union>
     set (chunks m (blocks_end c us) (next_begin vs t - blocks_end c us))"
  by (auto simp: free_chunks_def other_chunks_def gaps_append)

lemma free_chunks_insert:
  "free_chunks m c (us @ (i, s) # vs) t = other_chunks m c us vs t \<union>
     set (chunks m (blocks_end c us) (i - blocks_end c us)) \<union>
     set (chunks m (i + s) (next_begin vs t - (i + s)))"
  by (auto simp: free_chunks_def other_chunks_def gaps_append gaps_unfold [of "i + s"])

lemma other_chunks_pos:
  assumes "m < 32" "t < W32" "blocks_ok c (us @ vs) t" "(k, i, s) \<in> other_chunks m c us vs t"
  shows "i < blocks_end c us \<or> next_begin vs t < i"
proof -
  from assms(4) obtain b e where be: "(b, e) \<in> set (gaps_before c us) \<or> (b, e) \<in> set (gaps_after vs t)"
    and mem: "(k, i, s) \<in> set (chunks m b (e - b))"
    by (auto simp: other_chunks_def)
  from assms(3) have l: "blocks_ok c us (next_begin vs t)" and r: "blocks_ok (blocks_end c us) vs t"
    by (simp_all add: blocks_ok_append)
  have "next_begin vs t \<le> t" and "blocks_end c us \<le> t"
    using next_begin_le [OF r] blocks_ok_le [OF r] by auto
  from be show ?thesis
  proof
    assume "(b, e) \<in> set (gaps_before c us)"
    from gaps_before_bounds [OF l this] have b: "b \<le> e" "e < blocks_end c us" by auto
    with \<open>blocks_end c us \<le> t\<close> assms(2) have "e - b < W32" by simp
    from chunks_pos [OF assms(1) this mem] b show ?thesis by simp
  next
    assume "(b, e) \<in> set (gaps_after vs t)"
    from gaps_after_bounds [OF r this] have b: "next_begin vs t < b" "b \<le> e" "e \<le> t" by auto
    with assms(2) have "e - b < W32" by simp
    from chunks_pos [OF assms(1) this mem] b show ?thesis by simp
  qed
qed

lemma free_chunks_mem:
  assumes "(k, i, s) \<in> free_chunks m c us t"
  obtains us1 us2 where "us = us1 @ us2"
    "(k, i, s) \<in> set (chunks m (blocks_end c us1) (next_begin us2 t - blocks_end c us1))"
proof -
  from assms obtain b e where "(b, e) \<in> set (gaps c us t)" and "(k, i, s) \<in> set (chunks m b (e - b))"
    by (auto simp: free_chunks_def)
  with gaps_split [of b e c us t] that show ?thesis by blast
qed

end
