(* ===== verification/Power2_Lists.thy ===== *)
theory Power2_Lists
  imports Power2 Power2_Chunks
begin

text \<open>
  The free-list loops of power2\_allocator.c against \<open>chunks\<close>: on a struct whose lists go up to
  \<open>2 ^ m\<close> (\<open>shape m\<close>), \<open>power2_allocator_insert_one_free\<close> adds exactly the chunks of the
  region, \<open>power2_allocator_remove_free_index\<close> removes exactly the chunks of a region that is
  there, and no assertion of either fails. \<open>FL\<close> is the content of the array of lists.
\<close>

section \<open>The content of the free lists\<close>

definition FL :: "jl list \<Rightarrow> (nat \<times> nat \<times> nat) set" where
  "FL fl = {(k, i, s). k < length fl \<and> (i, s) \<in> set (fl ! k)}"

definition shape :: "nat \<Rightarrow> power2_allocator \<Rightarrow> bool" where
  "shape m a \<longleftrightarrow> m < 32 \<and> no_free_lists a = Suc m \<and> length (free_lists a) = Suc m \<and>
     (\<forall>l \<in> set (free_lists a). jl_ok l)"

lemma shapeD:
  assumes "shape m a"
  shows "m < 32" "no_free_lists a = Suc m" "length (free_lists a) = Suc m"
    "k \<le> m \<Longrightarrow> jl_ok (free_lists a ! k)"
  using assms by (auto simp: shape_def)

lemma shape_update:
  "shape m a \<Longrightarrow> jl_ok l \<Longrightarrow> shape m (fl_set a k l)"
  by (auto simp: shape_def fl_set_def dest!: set_update_subset_insert [THEN subsetD])

lemma shape_inuse [simp]: "shape m (a\<lparr>inuse_list := u\<rparr>) \<longleftrightarrow> shape m a"
  by (simp add: shape_def)

lemma shape_free_lists:
  "shape m (a\<lparr>free_lists := fl\<rparr>) \<Longrightarrow> shape m a \<Longrightarrow> shape m (b\<lparr>free_lists := fl, no_free_lists := Suc m\<rparr>)"
  by (auto simp: shape_def)

lemma fl_set_simps [simp]:
  "free_lists (fl_set a k l) = (free_lists a)[k := l]"
  "inuse_list (fl_set a k l) = inuse_list a"
  "no_free_lists (fl_set a k l) = no_free_lists a"
  "max_size (fl_set a k l) = max_size a"
  "total_size (fl_set a k l) = total_size a"
  "(fl_set a k l)\<lparr>free_lists := fl\<rparr> = a\<lparr>free_lists := fl\<rparr>"
  by (simp_all add: fl_set_def)

lemma fl_get_shape: "shape m a \<Longrightarrow> k \<le> m \<Longrightarrow> fl_get a k = Inr (free_lists a ! k)"
  by (simp add: shape_def fl_get_def)

lemma FL_lookup:
  "shape m a \<Longrightarrow> k \<le> m \<Longrightarrow> map_of (free_lists a ! k) i = Some s \<longleftrightarrow> (k, i, s) \<in> FL (free_lists a)"
  by (simp add: FL_def shapeD map_of_jl)

lemma FL_lookup_None:
  "shape m a \<Longrightarrow> k \<le> m \<Longrightarrow> \<forall>s. (k, i, s) \<notin> FL (free_lists a) \<Longrightarrow> map_of (free_lists a ! k) i = None"
  using FL_lookup [of m a k i] by (metis option.exhaust)

lemma FL_list_update:
  "k < length fl \<Longrightarrow> (k', i, s) \<in> FL (fl[k := l]) \<longleftrightarrow> (if k' = k then (i, s) \<in> set l else (k', i, s) \<in> FL fl)"
  by (simp add: FL_def nth_list_update)

lemma FL_put:
  assumes "shape m a" "k \<le> m" "\<forall>s. (k, i, s) \<notin> FL (free_lists a)"
  shows "FL ((free_lists a)[k := jl_put i v (free_lists a ! k)]) = insert (k, i, v) (FL (free_lists a))"
  using assms jl_put_absent_mem [OF shapeD(4) [OF assms(1,2)] FL_lookup_None [OF assms]]
  by (auto simp: FL_def shapeD nth_list_update split: if_splits)

lemma FL_unique:
  assumes "shape m a" "(k, i, s) \<in> FL (free_lists a)" "(k, i, s') \<in> FL (free_lists a)"
  shows "s = s'"
proof -
  have "k \<le> m" using assms(1,2) by (simp add: FL_def shapeD)
  with assms have "map_of (free_lists a ! k) i = Some s" "map_of (free_lists a ! k) i = Some s'"
    using FL_lookup [OF assms(1)] by blast+
  then show ?thesis by simp
qed

lemma FL_del:
  assumes "shape m a" "k \<le> m" "(k, i, v) \<in> FL (free_lists a)"
  shows "FL ((free_lists a)[k := jl_del i (free_lists a ! k)]) = FL (free_lists a) - {(k, i, v)}"
proof -
  have "{p \<in> set (free_lists a ! k). fst p \<noteq> i} = set (free_lists a ! k) - {(i, v)}"
  proof -
    have uniq: "s = v" if "(i, s) \<in> set (free_lists a ! k)" for s
    proof -
      have "(k, i, s) \<in> FL (free_lists a)" using that assms(1,2) by (simp add: FL_def shapeD)
      then show ?thesis by (rule FL_unique [OF assms(1) _ assms(3)])
    qed
    have "p \<in> set (free_lists a ! k) \<and> fst p \<noteq> i \<longleftrightarrow> p \<in> set (free_lists a ! k) \<and> p \<noteq> (i, v)" for p
      using uniq [of "snd p"] by (cases p) auto
    then show ?thesis by blast
  qed
  then have "set (jl_del i (free_lists a ! k)) = set (free_lists a ! k) - {(i, v)}"
    by (simp only: set_jl_del [OF shapeD(4) [OF assms(1,2)]])
  moreover have "k < length (free_lists a)" using assms(2) by (simp add: shapeD(3) [OF assms(1)])
  moreover have "(k', j, s) \<in> FL (free_lists a) \<longleftrightarrow> (j, s) \<in> set (free_lists a ! k)" if "k' = k" for k' j s
    using that \<open>k < length (free_lists a)\<close> by (simp add: FL_def)
  ultimately show ?thesis
    by (intro set_eqI) (auto simp only: FL_list_update Diff_iff insert_iff empty_iff prod.inject split: if_splits)
qed

section \<open>The choice of the list\<close>

lemma chunk_log2_eq: "shape m a \<Longrightarrow> chunk_log2 a c r = chunk_exp m c r"
proof -
  assume a: "shape m a"
  then have "m < 32" by (rule shapeD)
  then have "sub32 (Suc m) 1 = m" using sub32_id [of 1 "Suc m"] by (simp add: W32_def)
  with a show ?thesis by (auto simp: chunk_log2_def chunk_exp_def shapeD(2) Let_def min_def)
qed

lemma chunk_asserts_ok:
  assumes "m < 32"
  shows "chunk_asserts E c (chunk_exp m c r) = Inr ()"
proof -
  let ?k = "chunk_exp m c r"
  have "?k < 32" using assms chunk_exp_le [of m c r] by simp
  moreover have "c mod 2 ^ ?k = 0" using chunk_exp_dvd [of m c r] assms by (simp add: dvd_eq_mod_eq_0)
  moreover have "?k \<le> ctz c" by (simp add: chunk_exp_def)
  ultimately show ?thesis by (simp add: chunk_asserts_def shl1_def c_assert_I c_assert_res_def)
qed

lemma shl1_id: "k < 32 \<Longrightarrow> shl1 k = Inr (2 ^ k)"
  by (simp add: shl1_def)

section \<open>Inserting a region\<close>

lemma insert_one_free_0 [simp]: "power2_allocator_insert_one_free E a c 0 = Inr (0, a)"
  by (simp add: power2_allocator_insert_one_free.simps)

lemma insert_step:
  assumes "quiet E" "shape m a" "0 < r" "r < W32" "\<forall>s. (chunk_exp m c r, c, s) \<notin> FL (free_lists a)"
  defines "k \<equiv> chunk_exp m c r"
  shows "power2_allocator_insert_one_free E a c r =
    (if r < 2 ^ k then Inr (0, fl_set a k (jl_put c r (free_lists a ! k)))
     else power2_allocator_insert_one_free E (fl_set a k (jl_put c (2 ^ k) (free_lists a ! k)))
       (add32 c (2 ^ k)) (r - 2 ^ k))"
proof -
  have k: "k \<le> m" "k < 32" using assms(2) chunk_exp_le [of m c r] by (auto simp: k_def shapeD dest: shapeD(1))
  have none: "map_of (free_lists a ! k) c = None"
    using assms(2,5) k(1) by (intro FL_lookup_None) (auto simp: k_def)
  have half: "2 ^ k div 2 < r" using chunk_exp_half [of r m c] assms(3,4) by (auto simp: k_def)
  have "chunk_asserts E c k = Inr ()" using shapeD(1) [OF assms(2)] by (simp add: k_def chunk_asserts_ok)
  moreover have "chunk_log2 a c r = k" using assms(2) by (simp add: k_def chunk_log2_eq)
  ultimately show ?thesis
    using assms(1,2,3) k none half
    by (subst power2_allocator_insert_one_free.simps)
      (simp add: Let_def fl_get_shape JLI_absent shl1_id c_assert_I)
qed

lemma insert_one_free_ok:
  assumes "quiet E" "shape m a" "c + r < W32"
    and "\<And>k i s s'. (k, i, s) \<in> set (chunks m c r) \<Longrightarrow> (k, i, s') \<notin> FL (free_lists a)"
  shows "\<exists>fl. power2_allocator_insert_one_free E a c r = Inr (0, a\<lparr>free_lists := fl\<rparr>) \<and>
    shape m (a\<lparr>free_lists := fl\<rparr>) \<and> FL fl = FL (free_lists a) \<union> set (chunks m c r)"
  using assms(2-4)
proof (induction m c r arbitrary: a rule: chunks.induct)
  case (1 m c r)
  let ?k = "chunk_exp m c r"
  show ?case
  proof (cases "r = 0")
    case True
    with "1.prems" show ?thesis by (intro exI [of _ "free_lists a"]) simp
  next
    case r: False
    have m: "m < 32" using "1.prems"(1) by (rule shapeD)
    have km: "?k \<le> m" by (rule chunk_exp_le)
    have "\<exists>s. (?k, c, s) \<in> set (chunks m c r)"
      using r chunks_partial [of r m c] chunks_full [of m c r] by (cases "r < 2 ^ ?k") auto
    with "1.prems"(3) have fresh: "\<forall>s. (?k, c, s) \<notin> FL (free_lists a)" by blast
    note step = insert_step [OF assms(1) "1.prems"(1) _ _ fresh]
    have rW: "r < W32" using "1.prems"(2) by simp
    let ?a = "\<lambda>v. fl_set a ?k (jl_put c v (free_lists a ! ?k))"
    have shp: "shape m (?a v)" for v
      using "1.prems"(1) km by (intro shape_update) (auto dest: shapeD)
    have put: "FL (free_lists (?a v)) = insert (?k, c, v) (FL (free_lists a))" for v
      using FL_put [OF "1.prems"(1) km fresh] by simp
    show ?thesis
    proof (cases "r < 2 ^ ?k")
      case True
      with r rW step shp [of r] put [of r] show ?thesis
        by (intro exI [of _ "free_lists (?a r)"]) (auto simp: chunks_partial fl_set_def)
    next
      case False
      let ?b = "?a (2 ^ ?k)"
      have "\<exists>fl. power2_allocator_insert_one_free E ?b (c + 2 ^ ?k) (r - 2 ^ ?k) = Inr (0, ?b\<lparr>free_lists := fl\<rparr>) \<and>
        shape m (?b\<lparr>free_lists := fl\<rparr>) \<and>
        FL fl = FL (free_lists ?b) \<union> set (chunks m (c + 2 ^ ?k) (r - 2 ^ ?k))"
      proof (rule "1.IH" [of ?k])
        show "c + 2 ^ ?k + (r - 2 ^ ?k) < W32" using "1.prems"(2) False by simp
        fix k i s s' assume mem: "(k, i, s) \<in> set (chunks m (c + 2 ^ ?k) (r - 2 ^ ?k))"
        then have "c + 2 ^ ?k \<le> i" using chunks_pos [of m "r - 2 ^ ?k" k i s "c + 2 ^ ?k"] m rW by simp
        then have "i \<noteq> c" by (intro notI) simp
        moreover have "(k, i, s') \<notin> FL (free_lists a)"
          using "1.prems"(3) [of k i s s'] mem False by (simp add: chunks_full)
        ultimately show "(k, i, s') \<notin> FL (free_lists ?b)" by (simp only: put) simp
      qed (use r False shp in auto)
      then obtain fl where fl: "power2_allocator_insert_one_free E ?b (c + 2 ^ ?k) (r - 2 ^ ?k) = Inr (0, a\<lparr>free_lists := fl\<rparr>)"
        "shape m (a\<lparr>free_lists := fl\<rparr>)" "FL fl = FL (free_lists ?b) \<union> set (chunks m (c + 2 ^ ?k) (r - 2 ^ ?k))"
        by auto
      have "add32 c (2 ^ ?k) = c + 2 ^ ?k" using "1.prems"(2) False by (simp add: add32_id)
      with fl(1) False r rW step
      have "power2_allocator_insert_one_free E a c r = Inr (0, a\<lparr>free_lists := fl\<rparr>)" by simp
      moreover have "FL fl = FL (free_lists a) \<union> set (chunks m c r)"
        using fl(3) put [of "2 ^ ?k"] False by (simp add: chunks_full)
      ultimately show ?thesis using fl(2) by blast
    qed
  qed
qed

section \<open>Removing a region\<close>

lemma remove_free_index_0 [simp]: "power2_allocator_remove_free_index E a c 0 = Inr (0, a)"
  by (simp add: power2_allocator_remove_free_index.simps)

lemma remove_step:
  fixes m c r :: nat
  assumes "quiet E" "shape m a" "0 < r" "r < W32"
  defines "k \<equiv> chunk_exp m c r"
  defines "v \<equiv> (if r < 2 ^ k then r else 2 ^ k)"
  assumes "(k, c, v) \<in> FL (free_lists a)"
  shows "power2_allocator_remove_free_index E a c r =
    (if r < 2 ^ k then Inr (0, fl_set a k (jl_del c (free_lists a ! k)))
     else power2_allocator_remove_free_index E (fl_set a k (jl_del c (free_lists a ! k)))
       (add32 c (2 ^ k)) (r - 2 ^ k))"
proof -
  have k: "k \<le> m" "k < 32" using assms(2) chunk_exp_le [of m c r] by (auto simp: k_def shapeD dest: shapeD(1))
  have some: "map_of (free_lists a ! k) c = Some v"
    using FL_lookup [OF assms(2) k(1)] assms(7) by simp
  have uv: "u32 r = r" "\<not> r < 2 ^ k \<Longrightarrow> u32 (2 ^ k) = 2 ^ k"
    using assms(4) by (simp_all add: u32_id)
  have "chunk_asserts E c k = Inr ()" using shapeD(1) [OF assms(2)] by (simp add: k_def chunk_asserts_ok)
  moreover have "chunk_log2 a c r = k" using assms(2) by (simp add: k_def chunk_log2_eq)
  ultimately show ?thesis
    using assms(1,2,3) k some uv
    by (subst power2_allocator_remove_free_index.simps)
      (simp add: Let_def fl_get_shape JLG_present JLD_present shl1_id c_assert_I v_def)
qed

lemma remove_free_index_ok:
  assumes "quiet E" "shape m a" "c + r < W32" "set (chunks m c r) \<subseteq> FL (free_lists a)"
  shows "\<exists>fl. power2_allocator_remove_free_index E a c r = Inr (0, a\<lparr>free_lists := fl\<rparr>) \<and>
    shape m (a\<lparr>free_lists := fl\<rparr>) \<and> FL fl = FL (free_lists a) - set (chunks m c r)"
  using assms(2-4)
proof (induction m c r arbitrary: a rule: chunks.induct)
  case (1 m c r)
  let ?k = "chunk_exp m c r"
  show ?case
  proof (cases "r = 0")
    case True
    with "1.prems" show ?thesis by (intro exI [of _ "free_lists a"]) simp
  next
    case r: False
    let ?v = "if r < 2 ^ ?k then r else 2 ^ ?k"
    have m: "m < 32" using "1.prems"(1) by (rule shapeD)
    have km: "?k \<le> m" by (rule chunk_exp_le)
    have rW: "r < W32" using "1.prems"(2) by simp
    have mem: "(?k, c, ?v) \<in> FL (free_lists a)"
      using r "1.prems"(3) chunks_partial [of r m c] chunks_full [of m c r] by (cases "r < 2 ^ ?k") auto
    note step = remove_step [OF assms(1) "1.prems"(1) _ rW mem]
    let ?b = "fl_set a ?k (jl_del c (free_lists a ! ?k))"
    have shp: "shape m ?b" using "1.prems"(1) km by (intro shape_update) (auto dest: shapeD)
    have del: "FL (free_lists ?b) = FL (free_lists a) - {(?k, c, ?v)}"
      using FL_del [OF "1.prems"(1) km mem] by simp
    show ?thesis
    proof (cases "r < 2 ^ ?k")
      case True
      with r step shp del show ?thesis
        by (intro exI [of _ "free_lists ?b"]) (auto simp: chunks_partial fl_set_def)
    next
      case False
      have "\<exists>fl. power2_allocator_remove_free_index E ?b (c + 2 ^ ?k) (r - 2 ^ ?k) = Inr (0, ?b\<lparr>free_lists := fl\<rparr>) \<and>
        shape m (?b\<lparr>free_lists := fl\<rparr>) \<and>
        FL fl = FL (free_lists ?b) - set (chunks m (c + 2 ^ ?k) (r - 2 ^ ?k))"
      proof (rule "1.IH" [of ?k])
        show "c + 2 ^ ?k + (r - 2 ^ ?k) < W32" using "1.prems"(2) False by simp
        have "(?k, c, ?v) \<notin> set (chunks m (c + 2 ^ ?k) (r - 2 ^ ?k))"
          using chunks_pos [of m "r - 2 ^ ?k" ?k c ?v "c + 2 ^ ?k"] m rW by (auto simp: less_imp_diff_less)
        then show "set (chunks m (c + 2 ^ ?k) (r - 2 ^ ?k)) \<subseteq> FL (free_lists ?b)"
          using "1.prems"(3) False unfolding del by (simp add: chunks_full subset_Diff_insert)
      qed (use r False shp in auto)
      then obtain fl where fl: "power2_allocator_remove_free_index E ?b (c + 2 ^ ?k) (r - 2 ^ ?k) = Inr (0, a\<lparr>free_lists := fl\<rparr>)"
        "shape m (a\<lparr>free_lists := fl\<rparr>)" "FL fl = FL (free_lists ?b) - set (chunks m (c + 2 ^ ?k) (r - 2 ^ ?k))"
        by auto
      have "add32 c (2 ^ ?k) = c + 2 ^ ?k" using "1.prems"(2) False by (simp add: add32_id)
      with fl(1) False r step
      have "power2_allocator_remove_free_index E a c r = Inr (0, a\<lparr>free_lists := fl\<rparr>)" by simp
      moreover have "FL fl = FL (free_lists a) - set (chunks m c r)"
        using fl(3) del False by (auto simp: chunks_full)
      ultimately show ?thesis using fl(2) by blast
    qed
  qed
qed

section \<open>Taking one free chunk\<close>

lemma jl_fold_search:
  "jl_fold (\<lambda>k v s. Inr (if n \<le> v then Inl (k, v) else Inr s)) l () =
     Inr (case find (\<lambda>p. n \<le> snd p) l of None \<Rightarrow> Inr () | Some p \<Rightarrow> Inl p)"
  by (induction l) auto

text \<open>In a list of ascending keys the first hit is the one with the least key.\<close>

lemma jl_find_least:
  assumes "jl_ok l" "find (\<lambda>p. n \<le> snd p) l = Some (i, s)" "(j, t) \<in> set l" "n \<le> t"
  shows "i \<le> j"
proof -
  obtain l1 l2 where l: "l = l1 @ (i, s) # l2" and none: "\<forall>p \<in> set l1. \<not> n \<le> snd p"
  proof -
    obtain k where k: "k < length l" "l ! k = (i, s)" "\<forall>j < k. \<not> n \<le> snd (l ! j)"
      using assms(2) by (auto simp: find_Some_iff)
    then have "l = take k l @ (i, s) # drop (Suc k) l" by (metis id_take_nth_drop)
    moreover have "\<forall>p \<in> set (take k l). \<not> n \<le> snd p" using k by (fastforce simp: in_set_conv_nth)
    ultimately show ?thesis by (rule that)
  qed
  have "\<forall>p \<in> set l2. i < fst p" using assms(1) unfolding l by (simp add: jl_ok_append jl_ok_Cons)
  moreover have "(j, t) \<in> set ((i, s) # l2)" using assms(3,4) none unfolding l by auto
  ultimately show ?thesis by auto
qed

lemma remove_one_free_ok:
  assumes "quiet E" "shape m a" "k \<le> m" "n \<le> 2 ^ k"
    and "\<And>i s. (k, i, s) \<in> FL (free_lists a) \<Longrightarrow> i < W32 \<and> s < W32"
  shows "(\<exists>i s fl. power2_allocator_remove_one_free E a k n z = Inr (i, s, a\<lparr>free_lists := fl\<rparr>) \<and>
        (k, i, s) \<in> FL (free_lists a) \<and> n \<le> s \<and> shape m (a\<lparr>free_lists := fl\<rparr>) \<and>
        FL fl = FL (free_lists a) - {(k, i, s)} \<and> (\<forall>j t. (k, j, t) \<in> FL (free_lists a) \<and> n \<le> t \<longrightarrow> i \<le> j)) \<or>
    (power2_allocator_remove_one_free E a k n z = Inr (M1, z, a) \<and>
       (\<forall>i s. (k, i, s) \<in> FL (free_lists a) \<longrightarrow> s < n))"
proof -
  let ?l = "free_lists a ! k"
  have k: "k < 32" "\<not> no_free_lists a \<le> k" using assms(2,3) shapeD [OF assms(2)] by auto
  have ok: "jl_ok ?l" using assms(2,3) by (simp add: shapeD)
  have loop: "jl_while E ?l 0 (\<lambda>k v s. Inr (if n \<le> v then Inl (k, v) else Inr s)) () =
     Inr (case find (\<lambda>p. n \<le> snd p) ?l of None \<Rightarrow> Inr () | Some p \<Rightarrow> Inl p)"
    by (subst jl_while_fold [OF assms(1) ok]) (rule jl_fold_search)
  show ?thesis
  proof (cases "find (\<lambda>p. n \<le> snd p) ?l")
    case None
    then have "\<forall>p \<in> set ?l. snd p < n" by (auto simp: find_None_all)
    then have "\<forall>i s. (k, i, s) \<in> FL (free_lists a) \<longrightarrow> s < n"
      by (auto simp: FL_def)
    with None loop k assms show ?thesis
      by (simp add: power2_allocator_remove_one_free_def fl_get_shape shl1_id c_assert_res_def)
  next
    case (Some p)
    obtain i s where p: "p = (i, s)" by (cases p)
    with find_SomeD [OF Some] have "(i, s) \<in> set ?l" and ns: "n \<le> s" by auto
    then have mem: "(k, i, s) \<in> FL (free_lists a)"
      using assms(2,3) by (simp add: FL_def shapeD)
    have lk: "map_of ?l i = Some s" using mem FL_lookup [OF assms(2,3)] by simp
    have "u32 i = i" "u32 s = s" using assms(5) [OF mem] by (simp_all add: u32_id)
    then have "power2_allocator_remove_one_free E a k n z = Inr (i, s, fl_set a k (jl_del i ?l))"
      using Some loop k assms lk p
      by (simp add: power2_allocator_remove_one_free_def fl_get_shape shl1_id c_assert_res_def JLD_present)
    moreover have "shape m (fl_set a k (jl_del i ?l))"
      using assms(2) ok by (intro shape_update) auto
    moreover have "FL ((free_lists a)[k := jl_del i ?l]) = FL (free_lists a) - {(k, i, s)}"
      using assms(2,3) mem by (rule FL_del)
    moreover have "i \<le> j" if "(k, j, t) \<in> FL (free_lists a)" "n \<le> t" for j t
      using jl_find_least [OF ok Some [unfolded p]] that by (auto simp: FL_def)
    ultimately show ?thesis
      using mem ns unfolding fl_set_def by blast
  qed
qed

end
