(* ===== verification/Power2_Inv.thy ===== *)
theory Power2_Inv
  imports Power2_Lists
begin

text \<open>
  The representation invariant \<open>p2_inv\<close> of the power2 allocator and what every operation does
  to it. The invariant says: the lists go up to \<open>max_size = 2 ^ m\<close>, which divides the pool
  size; the blocks in use are non-empty, ordered and disjoint; and the free lists hold exactly
  the chunks of the gaps between the blocks. This is what \<open>power2_allocator_assert\<close> checks at
  run time. The pool is smaller than \<open>M1\<close>, the value that stands for ``no block''. \<open>used a\<close> is the set of units in some block: the abstract state of the pool.
\<close>

definition p2_inv :: "power2_allocator \<Rightarrow> bool" where
  "p2_inv a \<longleftrightarrow> (let m = no_free_lists a - 1 in
     shape m a \<and> max_size a = 2 ^ m \<and> 2 ^ m dvd total_size a \<and> total_size a < M1 \<and>
     blocks_ok 0 (inuse_list a) (total_size a) \<and>
     FL (free_lists a) = free_chunks m 0 (inuse_list a) (total_size a))"

definition used :: "power2_allocator \<Rightarrow> nat set" where
  "used a = (\<Union>(i, s) \<in> set (inuse_list a). {i..<i + s})"

lemma p2_invI:
  "shape m a \<Longrightarrow> max_size a = 2 ^ m \<Longrightarrow> 2 ^ m dvd total_size a \<Longrightarrow> total_size a < M1 \<Longrightarrow>
   blocks_ok 0 (inuse_list a) (total_size a) \<Longrightarrow>
   FL (free_lists a) = free_chunks m 0 (inuse_list a) (total_size a) \<Longrightarrow> p2_inv a"
  by (simp add: p2_inv_def shapeD(2))

lemma p2_invE:
  assumes "p2_inv a"
  obtains m where "shape m a" "m < 32" "max_size a = 2 ^ m" "2 ^ m dvd total_size a" "total_size a < W32"
    "blocks_ok 0 (inuse_list a) (total_size a)"
    "FL (free_lists a) = free_chunks m 0 (inuse_list a) (total_size a)"
  using assms by (auto simp: p2_inv_def Let_def dest: shapeD(1) less_M1)

lemma p2_inv_total: "p2_inv a \<Longrightarrow> total_size a < M1"
  by (simp add: p2_inv_def Let_def)

lemma blocks_ok_jl_ok: "blocks_ok c us t \<Longrightarrow> jl_ok us"
proof (induction c us t rule: blocks_ok.induct)
  case (2 c i s us t)
  then show ?case using blocks_ok_mem [of "i + s" us t] by (fastforce simp: jl_ok_Cons)
qed simp

lemma total_room:
  assumes "2 ^ m dvd t" "t < W32" "m < 32"
  shows "t + 2 ^ m \<le> W32"
proof -
  have "2 ^ m dvd W32" using assms(3) unfolding W32_pow by (intro le_imp_power_dvd) simp
  then have "2 ^ m dvd W32 - t" using assms(1) by (rule dvd_diff_nat)
  with assms(2) have "2 ^ m \<le> W32 - t" by (intro dvd_imp_le) auto
  with assms(2) show ?thesis by linarith
qed

lemma FL_bounds:
  assumes "p2_inv a" "(k, i, s) \<in> FL (free_lists a)"
  shows "i + s \<le> total_size a \<and> 0 < s"
proof -
  from assms(1) obtain m where inv: "m < 32" "total_size a < W32" "blocks_ok 0 (inuse_list a) (total_size a)"
    "FL (free_lists a) = free_chunks m 0 (inuse_list a) (total_size a)" by (elim p2_invE) blast
  then obtain b e where be: "(b, e) \<in> set (gaps 0 (inuse_list a) (total_size a))"
    and mem: "(k, i, s) \<in> set (chunks m b (e - b))"
    using assms(2) by (auto simp: free_chunks_def)
  from gaps_bounds [OF inv(3) be] inv(2) have "b \<le> e" "e \<le> total_size a" "e - b < W32" by auto
  with chunks_mem [OF inv(1) _ mem] show ?thesis by simp
qed

section \<open>Cutting a gap\<close>

lemma gap_cut:
  assumes "m < 32" "t < W32" "blocks_ok 0 (us1 @ us2) t"
  defines "b \<equiv> blocks_end 0 us1" and "e \<equiv> next_begin us2 t"
  assumes mem: "(k, f, s) \<in> set (chunks m b (e - b))"
    and xy: "f \<le> x" "x \<le> y" "y \<le> f + s"
  shows "free_chunks m 0 (us1 @ us2) t - {(k, f, s)} \<union> set (chunks m f (x - f)) \<union> set (chunks m y (f + s - y)) =
      other_chunks m 0 us1 us2 t \<union> set (chunks m b (x - b)) \<union> set (chunks m y (e - y))"
    and "(k', i, s') \<in> free_chunks m 0 (us1 @ us2) t - {(k, f, s)} \<Longrightarrow> i < f \<or> f + s \<le> i"
proof -
  have be: "b \<le> e" "e \<le> t"
    using assms(3) next_begin_le [of b us2 t] by (auto simp: blocks_ok_append b_def e_def)
  then have r: "e - b < W32" using assms(2) by simp
  have in_gap: "b \<le> f" "f + s \<le> e" "0 < s" using chunks_mem [OF assms(1) r mem] be by auto
  from chunks_cut_obtain [OF assms(1) r mem] have
    split: "chunks m b (e - b) = chunks m b (f - b) @ (k, f, s) # chunks m (f + s) (e - (f + s))" and
    left: "chunks m b (x - b) = chunks m b (f - b) @ chunks m f (x - f)" and
    right: "chunks m y (e - y) = chunks m y (f + s - y) @ chunks m (f + s) (e - (f + s))"
    using xy be by (smt (verit, best) add_diff_inverse_nat le_trans linorder_not_le)+
  have pos: "i < f \<or> f + s \<le> i"
    if "(k', i, s') \<in> set (chunks m b (f - b)) \<union> set (chunks m (f + s) (e - (f + s)))" for k' i s'
  proof -
    have "f - b < W32" and "e - (f + s) < W32" using r in_gap by linarith+
    with that chunks_pos [OF assms(1), of "f - b" k' i s' b] chunks_pos [OF assms(1), of "e - (f + s)" k' i s' "f + s"]
      in_gap show ?thesis by auto
  qed
  have other: "i < f \<or> f + s \<le> i" if "(k', i, s') \<in> other_chunks m 0 us1 us2 t" for k' i s'
    using other_chunks_pos [OF assms(1,2,3) that] in_gap by (auto simp: b_def e_def)
  have notin: "(k, f, s) \<notin> other_chunks m 0 us1 us2 t \<union> set (chunks m b (f - b)) \<union> set (chunks m (f + s) (e - (f + s)))"
    using pos [of k f s] other [of k f s] in_gap(3) by auto
  have whole: "free_chunks m 0 (us1 @ us2) t - {(k, f, s)} =
      other_chunks m 0 us1 us2 t \<union> set (chunks m b (f - b)) \<union> set (chunks m (f + s) (e - (f + s)))"
    using notin unfolding free_chunks_split b_def [symmetric] e_def [symmetric] split by auto
  show "free_chunks m 0 (us1 @ us2) t - {(k, f, s)} \<union> set (chunks m f (x - f)) \<union> set (chunks m y (f + s - y)) =
      other_chunks m 0 us1 us2 t \<union> set (chunks m b (x - b)) \<union> set (chunks m y (e - y))"
    unfolding whole left right by auto
  show "(k', i, s') \<in> free_chunks m 0 (us1 @ us2) t - {(k, f, s)} \<Longrightarrow> i < f \<or> f + s \<le> i"
    using pos [of k' i s'] other [of k' i s'] unfolding whole by auto
qed

section \<open>Allocation\<close>

text \<open>The chunk that the search settles on: from the list of the power of two at or above the
  size upwards the first that is large enough, within a list the one with the least index. The
  allocator then cuts the block out of it as far back as alignment and size allow.\<close>

definition first_chunk :: "power2_allocator \<Rightarrow> nat \<Rightarrow> nat \<Rightarrow> nat \<Rightarrow> nat \<Rightarrow> bool" where
  "first_chunk a n k f s \<longleftrightarrow> (k, f, s) \<in> FL (free_lists a) \<and> log2_uint32_ceil n \<le> k \<and> n \<le> s \<and>
     (\<forall>k' f' s'. (k', f', s') \<in> FL (free_lists a) \<and> log2_uint32_ceil n \<le> k' \<and> n \<le> s' \<longrightarrow> k < k' \<or> k = k' \<and> f \<le> f')"

definition last_in :: "nat \<Rightarrow> nat \<Rightarrow> nat \<Rightarrow> nat \<Rightarrow> bool" where
  "last_in n f s i \<longleftrightarrow> 2 ^ log2_uint32_ceil n dvd i \<and> f \<le> i \<and> i + n \<le> f + s \<and>
     (\<forall>j. 2 ^ log2_uint32_ceil n dvd j \<and> j + n \<le> f + s \<longrightarrow> j \<le> i)"

lemma alloc_search_ok:
  assumes "quiet E" "shape m a" "lo \<le> Suc m" "n \<le> 2 ^ lo"
    and bound: "\<forall>k i s. (k, i, s) \<in> FL (free_lists a) \<longrightarrow> i < M1 \<and> s < W32"
  shows "(\<exists>k i s fl. alloc_search E n [lo..<Suc m] z a = Inr (i, s, a\<lparr>free_lists := fl\<rparr>) \<and>
        lo \<le> k \<and> k \<le> m \<and> i \<noteq> M1 \<and> (k, i, s) \<in> FL (free_lists a) \<and> n \<le> s \<and>
        shape m (a\<lparr>free_lists := fl\<rparr>) \<and> FL fl = FL (free_lists a) - {(k, i, s)} \<and>
        (\<forall>k' j t. (k', j, t) \<in> FL (free_lists a) \<and> lo \<le> k' \<and> n \<le> t \<longrightarrow> k < k' \<or> k = k' \<and> i \<le> j)) \<or>
    (alloc_search E n [lo..<Suc m] z a = Inr (M1, z, a) \<and>
       (\<forall>k i s. (k, i, s) \<in> FL (free_lists a) \<and> lo \<le> k \<longrightarrow> s < n))"
  using assms(3,4)
proof (induction "Suc m - lo" arbitrary: lo)
  case 0
  then have "lo = Suc m" by simp
  moreover have "k \<le> m" if "(k, i, s) \<in> FL (free_lists a)" for k i s
    using that by (simp add: FL_def shapeD(3) [OF assms(2)])
  ultimately show ?case by fastforce
next
  case (Suc d)
  then have lo: "lo \<le> m" by simp
  then have upt: "[lo..<Suc m] = lo # [Suc lo..<Suc m]" by (simp add: upt_conv_Cons)
  have "(2::nat) ^ lo \<le> 2 ^ Suc lo" by simp
  with Suc.prems(2) have n: "n \<le> 2 ^ Suc lo" by (rule le_trans)
  have bnds: "\<And>i s. (lo, i, s) \<in> FL (free_lists a) \<Longrightarrow> i < W32 \<and> s < W32"
    using bound by (fastforce simp: M1_W32)
  have "d = Suc m - Suc lo" using Suc.hyps(2) by simp
  note IH = Suc.hyps(1) [OF this _ n]
  have "(\<exists>i s fl. power2_allocator_remove_one_free E a lo n z = Inr (i, s, a\<lparr>free_lists := fl\<rparr>) \<and>
        (lo, i, s) \<in> FL (free_lists a) \<and> n \<le> s \<and> shape m (a\<lparr>free_lists := fl\<rparr>) \<and>
        FL fl = FL (free_lists a) - {(lo, i, s)} \<and> (\<forall>j t. (lo, j, t) \<in> FL (free_lists a) \<and> n \<le> t \<longrightarrow> i \<le> j)) \<or>
    (power2_allocator_remove_one_free E a lo n z = Inr (M1, z, a) \<and>
       (\<forall>i s. (lo, i, s) \<in> FL (free_lists a) \<longrightarrow> s < n))"
    using bnds by (intro remove_one_free_ok [OF assms(1,2) lo Suc.prems(2)]) blast+
  then show ?case
  proof (elim disjE exE conjE)
    fix i s fl
    assume r: "power2_allocator_remove_one_free E a lo n z = Inr (i, s, a\<lparr>free_lists := fl\<rparr>)"
      and facts: "(lo, i, s) \<in> FL (free_lists a)" "n \<le> s" "shape m (a\<lparr>free_lists := fl\<rparr>)"
        "FL fl = FL (free_lists a) - {(lo, i, s)}"
      and least: "\<forall>j t. (lo, j, t) \<in> FL (free_lists a) \<and> n \<le> t \<longrightarrow> i \<le> j"
    have "i \<noteq> M1" using bound facts(1) by blast
    with r have found: "alloc_search E n [lo..<Suc m] z a = Inr (i, s, a\<lparr>free_lists := fl\<rparr>)"
      unfolding upt by simp
    have "lo < k' \<or> lo = k' \<and> i \<le> j" if "(k', j, t) \<in> FL (free_lists a)" "lo \<le> k'" "n \<le> t" for k' j t
      using least that by (cases "lo = k'") auto
    then have "\<forall>k' j t. (k', j, t) \<in> FL (free_lists a) \<and> lo \<le> k' \<and> n \<le> t \<longrightarrow> lo < k' \<or> lo = k' \<and> i \<le> j"
      by blast
    with found facts lo \<open>i \<noteq> M1\<close> show ?thesis by (metis le_refl)
  next
    assume r: "power2_allocator_remove_one_free E a lo n z = Inr (M1, z, a)"
      and none: "\<forall>i s. (lo, i, s) \<in> FL (free_lists a) \<longrightarrow> s < n"
    have eq: "alloc_search E n [lo..<Suc m] z a = alloc_search E n [Suc lo..<Suc m] z a"
      unfolding upt using r by simp
    from lo have "Suc lo \<le> Suc m" by simp
    from IH [OF this] show ?thesis
    proof (elim disjE exE conjE)
      fix k i s fl
      assume found: "alloc_search E n [Suc lo..<Suc m] z a = Inr (i, s, a\<lparr>free_lists := fl\<rparr>)" "Suc lo \<le> k" "k \<le> m"
        "i \<noteq> M1" "(k, i, s) \<in> FL (free_lists a)" "n \<le> s" "shape m (a\<lparr>free_lists := fl\<rparr>)"
        "FL fl = FL (free_lists a) - {(k, i, s)}"
        and least: "\<forall>k' j t. (k', j, t) \<in> FL (free_lists a) \<and> Suc lo \<le> k' \<and> n \<le> t \<longrightarrow> k < k' \<or> k = k' \<and> i \<le> j"
      have "k < k' \<or> k = k' \<and> i \<le> j" if "(k', j, t) \<in> FL (free_lists a)" "lo \<le> k'" "n \<le> t" for k' j t
        using that none least by (metis Suc_leI le_neq_implies_less not_less)
      then have "\<forall>k' j t. (k', j, t) \<in> FL (free_lists a) \<and> lo \<le> k' \<and> n \<le> t \<longrightarrow> k < k' \<or> k = k' \<and> i \<le> j"
        by blast
      with found show ?thesis unfolding eq by (metis Suc_leD)
    next
      assume "alloc_search E n [Suc lo..<Suc m] z a = Inr (M1, z, a)"
        and high: "\<forall>k i s. (k, i, s) \<in> FL (free_lists a) \<and> Suc lo \<le> k \<longrightarrow> s < n"
      moreover have "s < n" if "(k, i, s) \<in> FL (free_lists a)" "lo \<le> k" for k i s
        using that none high by (metis Suc_leI le_neq_implies_less)
      ultimately show ?thesis unfolding eq by blast
    qed
  qed
qed

lemma alloc_place:
  assumes "2 ^ L dvd f" "0 < n" "n \<le> 2 ^ L" "n \<le> s" "f + s + 2 ^ L \<le> W32" "L < 32"
  defines "x \<equiv> clear_low L (sub32 (add32 f s) 1)"
  shows "\<exists>ai. (if add32 f s < add32 x n then bnd (shl1 L) (\<lambda>w. Inr (sub32 x w)) else Inr x) = Inr ai \<and>
    f \<le> ai \<and> ai + n \<le> f + s \<and> 2 ^ L dvd ai \<and> (\<forall>j. 2 ^ L dvd j \<and> j + n \<le> f + s \<longrightarrow> j \<le> ai)"
proof -
  let ?w = "2 ^ L :: nat"
  have fs: "f + s < W32" using assms(5) by (meson add_lessD1 le_eq_less_or_eq less_add_same_cancel1
      less_le_trans zero_less_numeral zero_less_power)
  then have x: "x = (f + s - 1) div ?w * ?w"
    using assms(2,4) by (simp add: x_def clear_low_def add32_id sub32_id)
  have xle: "x \<le> f + s - 1" using x by (simp add: div_times_less_eq_dividend)
  have dx: "?w dvd x" using x by simp
  have fx: "f \<le> x"
  proof -
    have "f div ?w * ?w \<le> x" unfolding x using assms(2,4) by (intro mult_le_mono1 div_le_mono) simp
    then show ?thesis using assms(1) by simp
  qed
  have xn: "add32 x n = x + n" using xle assms by (intro add32_id) linarith
  have jx: "j \<le> x" if "?w dvd j" "j + n \<le> f + s" for j
  proof -
    have "j div ?w * ?w \<le> x" unfolding x using assms(2) that(2) by (intro mult_le_mono1 div_le_mono) simp
    then show ?thesis using that(1) by simp
  qed
  show ?thesis
  proof (cases "f + s < x + n")
    case True
    have last: "j \<le> x - ?w" if j: "?w dvd j" "j + n \<le> f + s" for j
    proof -
      have "0 < x - j" using jx [OF j] True j(2) by (cases "j = x") auto
      moreover have "?w dvd x - j" using j(1) dx by (rule dvd_diff_nat [rotated])
      ultimately have "?w \<le> x - j" by (intro dvd_imp_le)
      then show ?thesis using jx [OF j] by linarith
    qed
    from True have "f < x" using assms(4) fx by (cases "f = x") auto
    then have "0 < x - f" by simp
    moreover have "?w dvd x - f" using assms(1) dx by (rule dvd_diff_nat [rotated])
    ultimately have "?w \<le> x - f" by (intro dvd_imp_le)
    then have "f + ?w \<le> x" using fx by linarith
    moreover have "sub32 x ?w = x - ?w" using \<open>f + ?w \<le> x\<close> xle fs by (intro sub32_id) auto
    moreover have "?w dvd x - ?w" using dx by (intro dvd_diff_nat) auto
    moreover have "x - ?w + n \<le> f + s" using xle assms(3) \<open>f + ?w \<le> x\<close> by linarith
    moreover have "f \<le> x - ?w" using \<open>f + ?w \<le> x\<close> by linarith
    ultimately show ?thesis using True fs assms(6) last by (simp add: xn add32_id shl1_id)
  next
    case False
    with fx dx fs jx show ?thesis by (simp add: xn add32_id)
  qed
qed

lemma mark_inuse_ok:
  "quiet E \<Longrightarrow> map_of (inuse_list a) i = None \<Longrightarrow>
    power2_allocator_mark_inuse E a i n = Inr (0, a\<lparr>inuse_list := jl_put i n (inuse_list a)\<rparr>)"
  by (simp add: power2_allocator_mark_inuse_def JLI_absent Let_def)

text \<open>Putting a block into a gap of the in-use list.\<close>

lemma block_in_gap:
  assumes "blocks_ok 0 (us1 @ us2) t" "blocks_end 0 us1 \<le> i" "0 < n" "i + n \<le> next_begin us2 t"
  shows "jl_put i n (us1 @ us2) = us1 @ (i, n) # us2"
    and "map_of (us1 @ us2) i = None"
    and "blocks_ok 0 (us1 @ (i, n) # us2) t"
    and "\<And>j s x. (j, s) \<in> set (us1 @ us2) \<Longrightarrow> x \<in> {i..<i + n} \<Longrightarrow> x \<notin> {j..<j + s}"
proof -
  from assms(1) have l: "blocks_ok 0 us1 (next_begin us2 t)" and r: "blocks_ok (blocks_end 0 us1) us2 t"
    by (simp_all add: blocks_ok_append)
  have before: "j + s \<le> i \<and> 0 < s" if "(j, s) \<in> set us1" for j s
    using blocks_ok_mem_end [OF l that] blocks_ok_mem [OF l that] assms(2) by simp
  have after: "i + n \<le> j" if "(j, s) \<in> set us2" for j s
    using blocks_ok_next_begin [OF r that] assms(4) by simp
  have lt: "\<forall>p \<in> set us1. fst p < i" and gt: "\<forall>p \<in> set us2. i < fst p"
    using before after assms(3) by fastforce+
  then show "jl_put i n (us1 @ us2) = us1 @ (i, n) # us2" by (rule jl_put_append)
  show "map_of (us1 @ us2) i = None" using lt gt by (fastforce simp: map_of_eq_None_iff)
  show "blocks_ok 0 (us1 @ (i, n) # us2) t"
    using assms l r blocks_ok_end [OF l, of i] next_begin_le [OF r]
    by (cases us2) (auto simp: blocks_ok_append)
  show "x \<notin> {j..<j + s}" if "(j, s) \<in> set (us1 @ us2)" "x \<in> {i..<i + n}" for j s x
    using that before after by fastforce
qed

lemma FL_index_M1:
  assumes "p2_inv a" "(k, i, s) \<in> FL (free_lists a)"
  shows "i < M1 \<and> s < W32"
proof -
  have "total_size a < W32" using assms(1) by (auto elim: p2_invE)
  with FL_bounds [OF assms] show ?thesis by (auto simp: M1_W32)
qed

text \<open>A found chunk: the allocation cuts it and the invariant holds again.\<close>

lemma alloc_in_chunk:
  assumes E: "quiet E" and inv: "p2_inv a" and m: "shape m a" and n: "0 < n" "n \<le> max_size a"
    and chunk: "(k, f, s) \<in> FL (free_lists a)" "n \<le> s" "log2_uint32_ceil n \<le> k" "k \<le> m"
    and search: "alloc_search E n [log2_uint32_ceil n..<Suc m] 0 a = Inr (f, s, a\<lparr>free_lists := fl\<rparr>)" "f \<noteq> M1"
    and fl: "shape m (a\<lparr>free_lists := fl\<rparr>)" "FL fl = FL (free_lists a) - {(k, f, s)}"
  shows "\<exists>i a'. power2_allocator_alloc E (Some a) n = Inr (s32 i, Some a') \<and> p2_inv a' \<and>
    2 ^ log2_uint32_ceil n dvd i \<and> i + n \<le> total_size a \<and> {i..<i + n} \<inter> used a = {} \<and>
    max_size a' = max_size a \<and> total_size a' = total_size a \<and>
    map_of (inuse_list a) i = None \<and> inuse_list a' = jl_put i n (inuse_list a) \<and> last_in n f s i"
proof -
  let ?L = "log2_uint32_ceil n" and ?t = "total_size a"
  have I: "m < 32" "max_size a = 2 ^ m" "2 ^ m dvd ?t" "?t < W32" "blocks_ok 0 (inuse_list a) ?t"
      "FL (free_lists a) = free_chunks m 0 (inuse_list a) ?t"
    using inv shapeD [OF m] by (simp_all add: p2_inv_def less_M1)
  obtain us1 us2 where us: "inuse_list a = us1 @ us2"
    and mem: "(k, f, s) \<in> set (chunks m (blocks_end 0 us1) (next_begin us2 ?t - blocks_end 0 us1))"
    using chunk(1) unfolding I(6) by (elim free_chunks_mem)
  define b e where "b = blocks_end 0 us1" and "e = next_begin us2 ?t"
  note blk = I(5) [unfolded us]
  have be: "b \<le> e" "e \<le> ?t"
    using blk next_begin_le [of b us2 ?t] by (auto simp: blocks_ok_append b_def e_def)
  have c: "2 ^ k dvd f" "b \<le> f" "f + s \<le> e"
    using chunks_mem [OF I(1) _ mem [folded b_def e_def]] be I(4) by simp_all
  have dL: "2 ^ ?L dvd f" using c(1) chunk(3) by (meson dvd_trans le_imp_power_dvd)
  have nW: "n < W32" using n(2) I(2) I(1) power_strict_increasing [of m 32 "2::nat"] by (simp add: W32_pow)
  have nL: "n \<le> 2 ^ ?L" using log2_ceil_ge [OF nW] .
  have L: "?L \<le> m" using n(2) I(2) nW by (simp add: log2_ceil_le_iff)
  then have pL: "(2::nat) ^ ?L \<le> 2 ^ m" by simp
  have fst: "f + s \<le> ?t" using c be by simp
  then have room: "f + s + 2 ^ ?L \<le> W32" using total_room [OF I(3,4,1)] pL by linarith
  from alloc_place [OF dL n(1) nL chunk(2) room] L I(1) obtain i where
    place: "(if add32 f s < add32 (clear_low ?L (sub32 (add32 f s) 1)) n
       then bnd (shl1 ?L) (\<lambda>w. Inr (sub32 (clear_low ?L (sub32 (add32 f s) 1)) w))
       else Inr (clear_low ?L (sub32 (add32 f s) 1))) = Inr i"
    and i: "f \<le> i" "i + n \<le> f + s" "2 ^ ?L dvd i" and "last_in n f s i" by (auto simp: last_in_def)
  note cut = gap_cut [OF I(1,4) blk mem i(1) le_add1 i(2)]
  have u: "add32 i n = i + n" "add32 f s = f + s" "sub32 i f = i - f" "sub32 (f + s) (i + n) = f + s - (i + n)"
    using i fst I(4) by (simp_all add: add32_id sub32_id)
  have gap: "FL fl = free_chunks m 0 (us1 @ us2) ?t - {(k, f, s)}" using fl(2) I(6) us by simp
  \<comment> \<open>the front part\<close>
  have "\<exists>fl1. power2_allocator_insert_one_free E (a\<lparr>free_lists := fl\<rparr>) f (i - f) = Inr (0, a\<lparr>free_lists := fl1\<rparr>) \<and>
      shape m (a\<lparr>free_lists := fl1\<rparr>) \<and> FL fl1 = FL fl \<union> set (chunks m f (i - f))"
  proof (rule insert_one_free_ok [OF E fl(1), simplified])
    show "f + (i - f) < W32" using i fst I(4) by simp
    fix k' j s' s'' assume "(k', j, s') \<in> set (chunks m f (i - f))"
    moreover have "i - f < W32" using i fst I(4) by linarith
    ultimately have "f \<le> j \<and> j < f + (i - f)" using chunks_pos [OF I(1)] by blast
    then have "f \<le> j" "j < f + s" using i n by linarith+
    then show "(k', j, s'') \<notin> FL fl" using cut(2) [of k' j s''] unfolding gap by auto
  qed
  then obtain fl1 where fl1: "power2_allocator_insert_one_free E (a\<lparr>free_lists := fl\<rparr>) f (i - f) = Inr (0, a\<lparr>free_lists := fl1\<rparr>)"
    "shape m (a\<lparr>free_lists := fl1\<rparr>)" "FL fl1 = FL fl \<union> set (chunks m f (i - f))" by blast
  \<comment> \<open>the back part\<close>
  have "\<exists>fl2. power2_allocator_insert_one_free E (a\<lparr>free_lists := fl1\<rparr>) (i + n) (f + s - (i + n)) = Inr (0, a\<lparr>free_lists := fl2\<rparr>) \<and>
      shape m (a\<lparr>free_lists := fl2\<rparr>) \<and> FL fl2 = FL fl1 \<union> set (chunks m (i + n) (f + s - (i + n)))"
  proof (rule insert_one_free_ok [OF E fl1(2), simplified])
    show "i + n + (f + s - (i + n)) < W32" using i fst I(4) by simp
    fix k' j s' s'' assume "(k', j, s') \<in> set (chunks m (i + n) (f + s - (i + n)))"
    moreover have W: "f + s - (i + n) < W32" "i - f < W32" using fst I(4) i by linarith+
    ultimately have "i + n \<le> j \<and> j < i + n + (f + s - (i + n))" using chunks_pos [OF I(1)] by blast
    then have j: "i + n \<le> j" "j < f + s" using i by linarith+
    then have "(k', j, s'') \<notin> FL fl" using cut(2) [of k' j s''] i unfolding gap by auto
    moreover have "(k', j, s'') \<notin> set (chunks m f (i - f))"
      using chunks_pos [OF I(1) W(2), of k' j s'' f] j i n by (intro notI) linarith
    ultimately show "(k', j, s'') \<notin> FL fl1" by (simp add: fl1(3))
  qed
  then obtain fl2 where fl2: "power2_allocator_insert_one_free E (a\<lparr>free_lists := fl1\<rparr>) (i + n) (f + s - (i + n)) = Inr (0, a\<lparr>free_lists := fl2\<rparr>)"
    "shape m (a\<lparr>free_lists := fl2\<rparr>)" "FL fl2 = FL fl1 \<union> set (chunks m (i + n) (f + s - (i + n)))" by blast
  \<comment> \<open>the new block\<close>
  have gapi: "blocks_end 0 us1 \<le> i" "i + n \<le> next_begin us2 ?t" using c i by (simp_all add: b_def e_def)
  note blk' = block_in_gap [OF blk gapi(1) n(1) gapi(2)]
  let ?a' = "a\<lparr>free_lists := fl2, inuse_list := jl_put i n (inuse_list a)\<rparr>"
  have mark: "power2_allocator_mark_inuse E (a\<lparr>free_lists := fl2\<rparr>) i n = Inr (0, ?a')"
    using mark_inuse_ok [OF E, of "a\<lparr>free_lists := fl2\<rparr>" i n] blk'(2) us by simp
  have "power2_allocator_alloc E (Some a) n = Inr (s32 i, Some ?a')"
    using n(2) search place i u fl1(1) fl2(1) mark shapeD(2) [OF m]
    by (simp add: power2_allocator_alloc_def Let_def c_assert_I del: One_nat_def split del: if_split)
  moreover have "p2_inv ?a'"
  proof (rule p2_invI [of m])
    show "shape m ?a'" using fl2(2) by (simp add: shape_def)
    show "blocks_ok 0 (inuse_list ?a') (total_size ?a')" using blk'(1,3) us by simp
    have "FL fl2 = free_chunks m 0 (us1 @ (i, n) # us2) ?t"
      unfolding fl2(3) fl1(3) gap cut(1) free_chunks_insert ..
    then show "FL (free_lists ?a') = free_chunks m 0 (inuse_list ?a') (total_size ?a')"
      using blk'(1) us by simp
  qed (use I p2_inv_total [OF inv] in auto)
  moreover have "{i..<i + n} \<inter> used a = {}"
    using blk'(4) unfolding used_def us by blast
  moreover have "i + n \<le> ?t" using i(2) fst by linarith
  ultimately show ?thesis using i(3) blk'(2) us \<open>last_in n f s i\<close> by (intro exI [of _ i] exI [of _ ?a']) simp
qed

end
