(* ===== verification/Power2_Ops.thy ===== *)
theory Power2_Ops
  imports Power2_Inv
begin

text \<open>
  Release and reservation under the invariant, at the level of the list of blocks in use:
  \<open>us1\<close> are the blocks before the index, \<open>us2\<close> those after it. Release takes the two
  pieces of free space around the block out of the free lists and inserts the whole gap;
  reservation takes out the whole gap and inserts the two pieces.
\<close>

section \<open>The neighbours of an index\<close>

lemma prev_block:
  assumes "quiet E" "blocks_ok 0 (us1 @ us2) t" "t < W32" "inuse_list a = us1 @ us2"
    and "\<forall>p \<in> set us1. fst p < i" "\<forall>p \<in> set us2. i \<le> fst p"
  obtains pi ps where "power2_allocator_get_prev_inuse_block E a i = Inr (pi, ps)"
    "(if pi \<noteq> M1 then add32 pi ps else 0) = blocks_end 0 us1"
proof (cases us1 rule: rev_cases)
  case Nil
  with assms jl_prev_split [of us1 i us2] show ?thesis
    by (intro that [of M1 0])
      (simp_all add: power2_allocator_get_prev_inuse_block_def JLP_def inuse_block_def)
next
  case (snoc vs p)
  obtain j s where p: "p = (j, s)" by (cases p)
  with snoc have "(j, s) \<in> set (us1 @ us2)" by simp
  from blocks_ok_mem [OF assms(2) this] have "0 < s" "j + s \<le> t" by auto
  then have "j \<noteq> M1" "u32 j = j" "u32 s = s" "add32 j s = j + s"
    using assms(3) by (auto simp: M1_W32 u32_id add32_id)
  with assms jl_prev_split [of us1 i us2] snoc p show ?thesis
    by (intro that [of j s])
      (simp_all add: power2_allocator_get_prev_inuse_block_def JLP_def inuse_block_def)
qed

lemma next_block:
  assumes "quiet E" "blocks_ok 0 (us1 @ us2) t" "t < W32" "inuse_list a = us1 @ us2"
    and "\<forall>p \<in> set us1. fst p \<le> i" "\<forall>p \<in> set us2. i < fst p"
  obtains ni ns where "power2_allocator_get_next_inuse_block E a i = Inr (ni, ns)"
    "(if ni = M1 then t else ni) = next_begin us2 t"
proof (cases us2)
  case Nil
  with assms jl_next_split [of us1 i us2] show ?thesis
    by (intro that [of M1 0])
      (simp_all add: power2_allocator_get_next_inuse_block_def JLN_def inuse_block_def)
next
  case (Cons p vs)
  obtain j s where p: "p = (j, s)" by (cases p)
  with Cons have "(j, s) \<in> set (us1 @ us2)" by simp
  from blocks_ok_mem [OF assms(2) this] have "0 < s" "j + s \<le> t" by auto
  then have "j \<noteq> M1" "u32 j = j" "u32 s = s"
    using assms(3) by (auto simp: M1_W32 u32_id)
  with assms jl_next_split [of us1 i us2] Cons p show ?thesis
    by (intro that [of j s])
      (simp_all add: power2_allocator_get_next_inuse_block_def JLN_def inuse_block_def)
qed

lemma get_index_size_present:
  "quiet E \<Longrightarrow> map_of (inuse_list a) i = Some n \<Longrightarrow> 0 < n \<Longrightarrow> n < W32 \<Longrightarrow>
    power2_allocator_get_index_size E a i = Inr n"
  by (simp add: power2_allocator_get_index_size_def JLG_present c_assert_res_def u32_id)

lemma get_index_size_absent:
  "quiet E \<Longrightarrow> map_of (inuse_list a) i = None \<Longrightarrow> power2_allocator_get_index_size E a i = Inr M1"
  by (simp add: power2_allocator_get_index_size_def JLG_def)

section \<open>Regions of one gap\<close>

lemma chunks_regions_apart:
  assumes "m < 32" "c' + r' < W32" "c + r \<le> c'" "(k, i, s) \<in> set (chunks m c r)"
  shows "(k, i, s') \<notin> set (chunks m c' r')"
proof
  assume mem: "(k, i, s') \<in> set (chunks m c' r')"
  have "r < W32" "r' < W32" using assms by linarith+
  with chunks_pos [OF assms(1) _ assms(4)] chunks_pos [OF assms(1) _ mem] assms(3) show False by linarith
qed

lemma chunks_regions_apart':
  assumes "m < 32" "c' + r' < W32" "c + r \<le> c'" "(k, i, s) \<in> set (chunks m c' r')"
  shows "(k, i, s') \<notin> set (chunks m c r)"
  using chunks_regions_apart [OF assms(1-3)] assms(4) by blast

lemma chunks_not_other:
  assumes "m < 32" "t < W32" "blocks_ok 0 (us1 @ us2) t"
    and "blocks_end 0 us1 \<le> c" "c + r \<le> next_begin us2 t" "(k, i, s) \<in> set (chunks m c r)"
  shows "(k, i, s') \<notin> other_chunks m 0 us1 us2 t"
proof
  assume "(k, i, s') \<in> other_chunks m 0 us1 us2 t"
  from other_chunks_pos [OF assms(1-3) this]
  have *: "i < blocks_end 0 us1 \<or> next_begin us2 t < i" .
  have "next_begin us2 t \<le> t" using assms(3) next_begin_le by (auto simp: blocks_ok_append)
  then have "r < W32" using assms(2,5) by linarith
  from chunks_pos [OF assms(1) this assms(6)] assms(4,5) * show False by linarith
qed

lemma insert_region:
  assumes "quiet E" "shape m (a\<lparr>free_lists := f\<rparr>)" "c + r < W32"
    and "\<forall>k i s s'. (k, i, s) \<in> set (chunks m c r) \<longrightarrow> (k, i, s') \<notin> FL f"
  obtains g where "power2_allocator_insert_one_free E (a\<lparr>free_lists := f\<rparr>) c r = Inr (0, a\<lparr>free_lists := g\<rparr>)"
    "shape m (a\<lparr>free_lists := g\<rparr>)" "FL g = FL f \<union> set (chunks m c r)"
proof -
  have "\<exists>g. power2_allocator_insert_one_free E (a\<lparr>free_lists := f\<rparr>) c r = Inr (0, a\<lparr>free_lists := f\<rparr>\<lparr>free_lists := g\<rparr>) \<and>
    shape m (a\<lparr>free_lists := f\<rparr>\<lparr>free_lists := g\<rparr>) \<and> FL g = FL (free_lists (a\<lparr>free_lists := f\<rparr>)) \<union> set (chunks m c r)"
    using assms by (intro insert_one_free_ok) auto
  then show ?thesis using that by auto
qed

text \<open>Three list operations on one gap: what they are given and what they leave.\<close>

lemma close_gap:
  assumes E: "quiet E" and m: "shape m a" and t: "t < W32" and blk: "blocks_ok 0 (us1 @ us2) t"
  defines "b \<equiv> blocks_end 0 us1" and "e \<equiv> next_begin us2 t"
  assumes xy: "b \<le> x" "x \<le> y" "y \<le> e"
    and FL: "FL (free_lists a) = other_chunks m 0 us1 us2 t \<union> set (chunks m b (x - b)) \<union> set (chunks m y (e - y))"
  obtains f1 f2 f3 where
    "power2_allocator_remove_free_index E a b (x - b) = Inr (0, a\<lparr>free_lists := f1\<rparr>)"
    "power2_allocator_remove_free_index E (a\<lparr>free_lists := f1\<rparr>) y (e - y) = Inr (0, a\<lparr>free_lists := f2\<rparr>)"
    "power2_allocator_insert_one_free E (a\<lparr>free_lists := f2\<rparr>) b (e - b) = Inr (0, a\<lparr>free_lists := f3\<rparr>)"
    "shape m (a\<lparr>free_lists := f3\<rparr>)" "FL f3 = free_chunks m 0 (us1 @ us2) t"
proof -
  have M: "m < 32" using m by (rule shapeD)
  have be: "e \<le> t" using blk next_begin_le by (auto simp: blocks_ok_append e_def)
  have W: "b + (x - b) < W32" "y + (e - y) < W32" "b + (e - b) < W32" using be xy t by linarith+
  have "set (chunks m b (x - b)) \<subseteq> FL (free_lists a)" unfolding FL by blast
  from remove_free_index_ok [OF E m W(1) this] obtain f1 where
    f1: "power2_allocator_remove_free_index E a b (x - b) = Inr (0, a\<lparr>free_lists := f1\<rparr>)"
      "shape m (a\<lparr>free_lists := f1\<rparr>)" "FL f1 = FL (free_lists a) - set (chunks m b (x - b))" by blast
  have "set (chunks m y (e - y)) \<inter> set (chunks m b (x - b)) = {}"
    using chunks_regions_apart' [OF M W(2), of b "x - b"] xy by auto
  then have "set (chunks m y (e - y)) \<subseteq> FL (free_lists (a\<lparr>free_lists := f1\<rparr>))" using f1(3) FL by auto
  from remove_free_index_ok [OF E f1(2) W(2) this] obtain f2 where
    f2: "power2_allocator_remove_free_index E (a\<lparr>free_lists := f1\<rparr>) y (e - y) = Inr (0, a\<lparr>free_lists := f2\<rparr>)"
      "shape m (a\<lparr>free_lists := f2\<rparr>)" "FL f2 = FL f1 - set (chunks m y (e - y))" by auto
  have other: "(k, i, s') \<notin> other_chunks m 0 us1 us2 t"
    if "(k, i, s) \<in> set (chunks m b (x - b)) \<union> set (chunks m y (e - y)) \<union> set (chunks m b (e - b))" for k i s s'
    using that chunks_not_other [OF M t blk, of b "x - b" k i s s'] chunks_not_other [OF M t blk, of y "e - y" k i s s']
      chunks_not_other [OF M t blk, of b "e - b" k i s s'] xy by (auto simp: b_def e_def)
  have F2: "FL f2 = other_chunks m 0 us1 us2 t" using f1(3) f2(3) FL other by (auto; blast)
  have "\<forall>k i s s'. (k, i, s) \<in> set (chunks m b (e - b)) \<longrightarrow> (k, i, s') \<notin> FL f2"
    using other by (auto simp: F2)
  from insert_region [OF E f2(2) W(3) this] obtain f3 where
    f3: "power2_allocator_insert_one_free E (a\<lparr>free_lists := f2\<rparr>) b (e - b) = Inr (0, a\<lparr>free_lists := f3\<rparr>)"
      "shape m (a\<lparr>free_lists := f3\<rparr>)" "FL f3 = FL f2 \<union> set (chunks m b (e - b))" by blast
  have "FL f3 = free_chunks m 0 (us1 @ us2) t" by (simp add: f3(3) F2 free_chunks_split b_def e_def)
  with f1(1) f2(1) f3(1,2) show ?thesis by (rule that)
qed

lemma open_gap:
  assumes E: "quiet E" and m: "shape m a" and t: "t < W32" and blk: "blocks_ok 0 (us1 @ us2) t"
  defines "b \<equiv> blocks_end 0 us1" and "e \<equiv> next_begin us2 t"
  assumes xy: "b \<le> x" "x \<le> y" "y \<le> e" and FL: "FL (free_lists a) = free_chunks m 0 (us1 @ us2) t"
  obtains f1 f2 f3 where
    "power2_allocator_remove_free_index E a b (e - b) = Inr (0, a\<lparr>free_lists := f1\<rparr>)"
    "power2_allocator_insert_one_free E (a\<lparr>free_lists := f1\<rparr>) b (x - b) = Inr (0, a\<lparr>free_lists := f2\<rparr>)"
    "power2_allocator_insert_one_free E (a\<lparr>free_lists := f2\<rparr>) y (e - y) = Inr (0, a\<lparr>free_lists := f3\<rparr>)"
    "shape m (a\<lparr>free_lists := f3\<rparr>)"
    "FL f3 = other_chunks m 0 us1 us2 t \<union> set (chunks m b (x - b)) \<union> set (chunks m y (e - y))"
proof -
  have M: "m < 32" using m by (rule shapeD)
  have be: "e \<le> t" using blk next_begin_le by (auto simp: blocks_ok_append e_def)
  have W: "b + (x - b) < W32" "y + (e - y) < W32" "b + (e - b) < W32" using be xy t by linarith+
  have split: "FL (free_lists a) = other_chunks m 0 us1 us2 t \<union> set (chunks m b (e - b))"
    by (simp add: FL free_chunks_split b_def e_def)
  then have "set (chunks m b (e - b)) \<subseteq> FL (free_lists a)" by simp
  from remove_free_index_ok [OF E m W(3) this] obtain f1 where
    f1: "power2_allocator_remove_free_index E a b (e - b) = Inr (0, a\<lparr>free_lists := f1\<rparr>)"
      "shape m (a\<lparr>free_lists := f1\<rparr>)" "FL f1 = FL (free_lists a) - set (chunks m b (e - b))" by blast
  have other: "(k, i, s') \<notin> other_chunks m 0 us1 us2 t"
    if "(k, i, s) \<in> set (chunks m b (x - b)) \<union> set (chunks m y (e - y)) \<union> set (chunks m b (e - b))" for k i s s'
    using that chunks_not_other [OF M t blk, of b "x - b" k i s s'] chunks_not_other [OF M t blk, of y "e - y" k i s s']
      chunks_not_other [OF M t blk, of b "e - b" k i s s'] xy by (auto simp: b_def e_def)
  have F1: "FL f1 = other_chunks m 0 us1 us2 t" using f1(3) split other by (auto; blast)
  have "\<forall>k i s s'. (k, i, s) \<in> set (chunks m b (x - b)) \<longrightarrow> (k, i, s') \<notin> FL f1"
    using other by (auto simp: F1)
  from insert_region [OF E f1(2) W(1) this] obtain f2 where
    f2: "power2_allocator_insert_one_free E (a\<lparr>free_lists := f1\<rparr>) b (x - b) = Inr (0, a\<lparr>free_lists := f2\<rparr>)"
      "shape m (a\<lparr>free_lists := f2\<rparr>)" "FL f2 = FL f1 \<union> set (chunks m b (x - b))" by blast
  have "\<forall>k i s s'. (k, i, s) \<in> set (chunks m y (e - y)) \<longrightarrow> (k, i, s') \<notin> FL f2"
    using other chunks_regions_apart' [OF M W(2), of b "x - b"] xy by (auto simp: f2(3) F1)
  from insert_region [OF E f2(2) W(2) this] obtain f3 where
    f3: "power2_allocator_insert_one_free E (a\<lparr>free_lists := f2\<rparr>) y (e - y) = Inr (0, a\<lparr>free_lists := f3\<rparr>)"
      "shape m (a\<lparr>free_lists := f3\<rparr>)" "FL f3 = FL f2 \<union> set (chunks m y (e - y))" by blast
  have "FL f3 = other_chunks m 0 us1 us2 t \<union> set (chunks m b (x - b)) \<union> set (chunks m y (e - y))"
    by (simp add: f3(3) f2(3) F1)
  with f1(1) f2(1) f3(1,2) show ?thesis by (rule that)
qed

section \<open>Release\<close>

lemma mark_free_ok:
  "quiet E \<Longrightarrow> map_of (inuse_list a) i = Some n \<Longrightarrow>
    power2_allocator_mark_free E a i = Inr (a\<lparr>inuse_list := jl_del i (inuse_list a)\<rparr>)"
  by (simp add: power2_allocator_mark_free_def JLD_present c_assert_I)

lemma inuse_split:
  assumes "blocks_ok 0 us t" "(i, n) \<in> set us"
  obtains us1 us2 where "us = us1 @ (i, n) # us2" "\<forall>p \<in> set us1. fst p < i" "\<forall>p \<in> set us2. i < fst p"
    "0 < n" "blocks_end 0 us1 \<le> i" "i + n \<le> next_begin us2 t" "blocks_ok 0 (us1 @ us2) t"
proof -
  obtain us1 us2 where us: "us = us1 @ (i, n) # us2" using split_list [OF assms(2)] by blast
  have "jl_ok us" using assms(1) by (rule blocks_ok_jl_ok)
  then have "\<forall>p \<in> set us1. fst p < i" "\<forall>p \<in> set us2. i < fst p"
    by (auto simp: us jl_ok_append jl_ok_Cons)
  moreover have ok: "blocks_ok 0 us1 i" "0 < n" "blocks_ok (i + n) us2 t"
    using assms(1) by (simp_all add: us blocks_ok_append)
  moreover have "i + n \<le> next_begin us2 t" using next_begin_le [OF ok(3)] by simp
  moreover have "blocks_end 0 us1 \<le> i" using blocks_end_le [OF ok(1)] by simp
  moreover have "blocks_ok 0 (us1 @ us2) t"
  proof -
    have "blocks_ok (blocks_end 0 us1) us2 t"
      using ok(3) calculation(6,7) by (cases us2) auto
    moreover have "blocks_ok 0 us1 (next_begin us2 t)"
      using ok(1) \<open>i + n \<le> next_begin us2 t\<close> \<open>blocks_end 0 us1 \<le> i\<close> by (intro blocks_ok_end [OF ok(1)]) simp
    ultimately show ?thesis by (simp add: blocks_ok_append)
  qed
  ultimately show ?thesis using us by (intro that)
qed

lemma release_present:
  assumes E: "quiet E" and inv: "p2_inv a" and mem: "(i, n) \<in> set (inuse_list a)"
  obtains a' where "power2_allocator_release E a i = Inr (0, a')" "p2_inv a'"
    "inuse_list a' = jl_del i (inuse_list a)" "max_size a' = max_size a" "total_size a' = total_size a"
    "no_free_lists a' = no_free_lists a"
proof -
  let ?t = "total_size a"
  obtain m where I: "shape m a" "max_size a = 2 ^ m" "2 ^ m dvd ?t" "?t < W32" "blocks_ok 0 (inuse_list a) ?t"
      "FL (free_lists a) = free_chunks m 0 (inuse_list a) ?t"
    using inv by (elim p2_invE)
  obtain us1 us2 where us: "inuse_list a = us1 @ (i, n) # us2"
    and lt: "\<forall>p \<in> set us1. fst p < i" and gt: "\<forall>p \<in> set us2. i < fst p"
    and n: "0 < n" "blocks_end 0 us1 \<le> i" "i + n \<le> next_begin us2 ?t" and blk: "blocks_ok 0 (us1 @ us2) ?t"
    using inuse_split [OF I(5) mem] by blast
  define b e where "b = blocks_end 0 us1" and "e = next_begin us2 ?t"
  have "e \<le> ?t" using blk next_begin_le by (auto simp: blocks_ok_append e_def)
  then have bnd: "b \<le> i" "i + n \<le> e" "e < W32" using n I(4) by (simp_all add: b_def e_def)
  have look: "map_of (inuse_list a) i = Some n"
    using mem by (simp add: map_of_jl [OF blocks_ok_jl_ok [OF I(5)]])
  have "n \<le> ?t" using bnd \<open>e \<le> ?t\<close> by linarith
  then have nM: "n \<noteq> M1" using p2_inv_total [OF inv] by simp
  have nW: "n < W32" using \<open>n \<le> ?t\<close> I(4) by simp
  note sz = get_index_size_present [OF E look n(1) nW]
  have us': "inuse_list a = us1 @ ((i, n) # us2)" "inuse_list a = (us1 @ [(i, n)]) @ us2" using us by simp_all
  have ok': "blocks_ok 0 (us1 @ ((i, n) # us2)) ?t" "blocks_ok 0 ((us1 @ [(i, n)]) @ us2) ?t"
    using I(5) us by simp_all
  obtain pi ps where prev: "power2_allocator_get_prev_inuse_block E a i = Inr (pi, ps)"
    "(if pi \<noteq> M1 then add32 pi ps else 0) = b"
    unfolding b_def using lt gt by (elim prev_block [OF E ok'(1) I(4) us'(1), rotated -1]) auto
  obtain ni ns where nxt: "power2_allocator_get_next_inuse_block E a i = Inr (ni, ns)"
    "(if ni = M1 then ?t else ni) = e"
    unfolding e_def using lt gt by (elim next_block [OF E ok'(2) I(4) us'(2), rotated -1]) auto
  have FL: "FL (free_lists a) = other_chunks m 0 us1 us2 ?t \<union> set (chunks m b (i - b)) \<union> set (chunks m (i + n) (e - (i + n)))"
    by (simp add: I(6) us free_chunks_insert b_def e_def)
  obtain f1 f2 f3 where
    ops: "power2_allocator_remove_free_index E a b (i - b) = Inr (0, a\<lparr>free_lists := f1\<rparr>)"
      "power2_allocator_remove_free_index E (a\<lparr>free_lists := f1\<rparr>) (i + n) (e - (i + n)) = Inr (0, a\<lparr>free_lists := f2\<rparr>)"
      "power2_allocator_insert_one_free E (a\<lparr>free_lists := f2\<rparr>) b (e - b) = Inr (0, a\<lparr>free_lists := f3\<rparr>)"
    and f3: "shape m (a\<lparr>free_lists := f3\<rparr>)" "FL f3 = free_chunks m 0 (us1 @ us2) ?t"
    using close_gap [OF E I(1,4) blk, of i "i + n", folded b_def e_def, OF bnd(1) le_add1 bnd(2) FL] by blast
  have u: "sub32 i b = i - b" "add32 i n = i + n" "sub32 e (i + n) = e - (i + n)"
    "add32 n (i - b) = n + i - b" "add32 (n + i - b) (e - (i + n)) = e - b"
    using bnd by (simp_all add: add32_id sub32_id)
  have nxt': "(if ni = M1 then total_size (a\<lparr>free_lists := f1\<rparr>) else ni) = e"
    using nxt(2) by (simp cong: if_cong)
  let ?a' = "a\<lparr>free_lists := f3, inuse_list := jl_del i (inuse_list a)\<rparr>"
  have "power2_allocator_release E a i = Inr (0, ?a')"
    using sz nM prev nxt(1) nxt' ops u mark_free_ok [OF E, of "a\<lparr>free_lists := f3\<rparr>" i n] look
    by (simp add: power2_allocator_release_def Let_def split del: if_split)
  moreover have del: "jl_del i (inuse_list a) = us1 @ us2"
    using lt by (simp add: us) (intro jl_del_append; auto)
  moreover have "p2_inv ?a'"
  proof (rule p2_invI [of m])
    show "shape m ?a'" using f3(1) by (simp add: shape_def)
  qed (use I f3 blk del p2_inv_total [OF inv] in auto)
  ultimately show ?thesis by (intro that [of ?a']) simp_all
qed

lemma release_absent:
  "quiet E \<Longrightarrow> map_of (inuse_list a) i = None \<Longrightarrow> power2_allocator_release E a i = Inr (- 1, a)"
  by (simp add: power2_allocator_release_def get_index_size_absent)

section \<open>Reservation\<close>

lemma gap_at:
  assumes "blocks_ok 0 us t" "map_of us i = None"
  obtains us1 us2 where "us = us1 @ us2" "\<forall>p \<in> set us1. fst p < i" "\<forall>p \<in> set us2. i < fst p"
proof -
  let ?P = "\<lambda>p. fst p < i"
  have "jl_ok us" using assms(1) by (rule blocks_ok_jl_ok)
  have "us = takeWhile ?P us @ dropWhile ?P us" by simp
  moreover have "\<forall>p \<in> set (takeWhile ?P us). fst p < i" by (auto dest: set_takeWhileD)
  moreover have "i < fst p" if p: "p \<in> set (dropWhile ?P us)" for p
  proof -
    obtain q qs where q: "dropWhile ?P us = q # qs" using p by (cases "dropWhile ?P us") auto
    have "\<not> ?P q" using q by (metis hd_dropWhile list.distinct(1) list.sel(1))
    moreover have "jl_ok (q # qs)" using \<open>jl_ok us\<close> q by (metis \<open>us = _ @ _\<close> jl_ok_append)
    then have "p = q \<or> fst q < fst p" using p q by (cases q) (auto simp: jl_ok_Cons)
    moreover have "p \<in> set us" using p by (rule set_dropWhileD)
    then have "fst p \<noteq> i" using assms(2) by (auto simp: map_of_eq_None_iff)
    ultimately show ?thesis by auto
  qed
  ultimately show ?thesis by (intro that) auto
qed

text \<open>A region of the pool is free when no unit of it is used.\<close>

definition region_free :: "power2_allocator \<Rightarrow> nat \<Rightarrow> nat \<Rightarrow> bool" where
  "region_free a i n \<longleftrightarrow> i + n \<le> total_size a \<and> (\<forall>(j, s) \<in> set (inuse_list a). i + n \<le> j \<or> j + s \<le> i)"

lemma interval_disjoint: "0 < n \<Longrightarrow> 0 < s \<Longrightarrow> i + n \<le> j \<or> j + s \<le> i \<longleftrightarrow> {i..<i + n} \<inter> {j..<j + s} = {}"
  for i j :: nat
proof -
  assume "0 < n" "0 < s"
  then have "max i j \<in> {i..<i + n} \<inter> {j..<j + s}" if "\<not> (i + n \<le> j \<or> j + s \<le> i)" using that by auto
  then show ?thesis by fastforce
qed

lemma region_free_used:
  assumes "0 < n" "blocks_ok 0 (inuse_list a) (total_size a)"
  shows "region_free a i n \<longleftrightarrow> i + n \<le> total_size a \<and> {i..<i + n} \<inter> used a = {}"
proof -
  have "i + n \<le> j \<or> j + s \<le> i \<longleftrightarrow> {i..<i + n} \<inter> {j..<j + s} = {}" if "(j, s) \<in> set (inuse_list a)" for j s
    using blocks_ok_mem [OF assms(2) that] assms(1) by (intro interval_disjoint) auto
  then show ?thesis unfolding region_free_def used_def by fast
qed

lemma blocks_end_leI: "c \<le> i \<Longrightarrow> \<forall>(j, s) \<in> set us. j + s \<le> i \<Longrightarrow> blocks_end c us \<le> i"
  by (induction c us rule: blocks_end.induct) auto

lemma region_free_gap:
  assumes "blocks_ok 0 (us1 @ us2) t" "\<forall>p \<in> set us1. fst p < i" "\<forall>p \<in> set us2. i < fst p" "0 < n"
    "inuse_list a = us1 @ us2" "total_size a = t"
  shows "region_free a i n \<longleftrightarrow> blocks_end 0 us1 \<le> i \<and> i + n \<le> next_begin us2 t"
proof
  assume free: "region_free a i n"
  then have "i + n \<le> j \<or> j + s \<le> i" if "(j, s) \<in> set us1" for j s
    using that assms(5) by (auto simp: region_free_def)
  moreover have "j < i" if "(j, s) \<in> set us1" for j s using that assms(2) by auto
  ultimately have "\<forall>(j, s) \<in> set us1. j + s \<le> i" by fastforce
  then have "blocks_end 0 us1 \<le> i" by (intro blocks_end_leI) auto
  moreover have "i + n \<le> next_begin us2 t"
    using free assms by (cases us2) (fastforce simp: region_free_def)+
  ultimately show "blocks_end 0 us1 \<le> i \<and> i + n \<le> next_begin us2 t" ..
next
  assume gap: "blocks_end 0 us1 \<le> i \<and> i + n \<le> next_begin us2 t"
  have ok: "blocks_ok 0 us1 (next_begin us2 t)" "blocks_ok (blocks_end 0 us1) us2 t"
    using assms(1) by (simp_all add: blocks_ok_append)
  have "j + s \<le> i" if "(j, s) \<in> set us1" for j s
    using blocks_ok_mem_end [OF ok(1) that] gap by simp
  moreover have "i + n \<le> j" if "(j, s) \<in> set us2" for j s
    using blocks_ok_next_begin [OF ok(2) that] gap by simp
  moreover have "next_begin us2 t \<le> t" using next_begin_le [OF ok(2)] by simp
  ultimately show "region_free a i n" using gap assms(5,6) by (auto simp: region_free_def)
qed

lemma reserve_cases:
  assumes E: "quiet E" and inv: "p2_inv a" and n: "0 < n" "i + n < W32"
  shows "(region_free a i n \<and> (\<exists>a'. power2_allocator_reserve E a i n = Inr (0, a') \<and> p2_inv a' \<and>
      inuse_list a' = jl_put i n (inuse_list a) \<and> max_size a' = max_size a \<and> total_size a' = total_size a \<and>
      no_free_lists a' = no_free_lists a)) \<or>
    (\<not> region_free a i n \<and> power2_allocator_reserve E a i n = Inr (1, a))"
proof -
  let ?t = "total_size a"
  obtain m where I: "shape m a" "max_size a = 2 ^ m" "2 ^ m dvd ?t" "?t < W32" "blocks_ok 0 (inuse_list a) ?t"
      "FL (free_lists a) = free_chunks m 0 (inuse_list a) ?t"
    using inv by (elim p2_invE)
  note T = p2_inv_total [OF inv]
  show ?thesis
  proof (cases "map_of (inuse_list a) i")
    case (Some s)
    then have mem: "(i, s) \<in> set (inuse_list a)" by (rule map_of_SomeD)
    from blocks_ok_mem [OF I(5) mem] have s: "0 < s" "i + s \<le> ?t" by auto
    then have "s \<noteq> M1" "s < W32" using T I(4) by linarith+
    with get_index_size_present [OF E Some s(1)] have "power2_allocator_reserve E a i n = Inr (1, a)"
      by (simp add: power2_allocator_reserve_def)
    moreover have "\<not> region_free a i n" using mem s n(1) by (fastforce simp: region_free_def)
    ultimately show ?thesis by blast
  next
    case None
    then obtain us1 us2 where us: "inuse_list a = us1 @ us2"
      and lt: "\<forall>p \<in> set us1. fst p < i" and gt: "\<forall>p \<in> set us2. i < fst p" by (elim gap_at [OF I(5)])
    note blk = I(5) [unfolded us]
    define b e where "b = blocks_end 0 us1" and "e = next_begin us2 ?t"
    have free: "region_free a i n \<longleftrightarrow> b \<le> i \<and> i + n \<le> e"
      unfolding b_def e_def by (rule region_free_gap [OF blk lt gt n(1) us refl])
    obtain pi ps where prev: "power2_allocator_get_prev_inuse_block E a i = Inr (pi, ps)"
      "(if pi \<noteq> M1 then add32 pi ps else 0) = b"
      unfolding b_def using lt gt by (elim prev_block [OF E blk I(4) us, rotated -1]) auto
    obtain ni ns where nxt: "power2_allocator_get_next_inuse_block E a i = Inr (ni, ns)"
      "(if ni = M1 then ?t else ni) = e"
      unfolding e_def using lt gt by (elim next_block [OF E blk I(4) us, rotated -1]) auto
    note sz = get_index_size_absent [OF E None]
    have u1: "add32 i n = i + n" using n(2) by (rule add32_id)
    show ?thesis
    proof (cases "region_free a i n")
      case False
      then have "i < b \<or> e < i + n" using free by auto
      then have "power2_allocator_reserve E a i n = Inr (1, a)"
        using sz prev nxt u1 by (simp add: power2_allocator_reserve_def Let_def split del: if_split) auto
      with False show ?thesis by blast
    next
      case True
      with free have bnd: "b \<le> i" "i + n \<le> e" by auto
      have "e \<le> ?t" using blk next_begin_le by (auto simp: blocks_ok_append e_def)
      then have u: "sub32 i b = i - b" "sub32 e (i + n) = e - (i + n)" "sub32 e b = e - b"
        using bnd I(4) by (simp_all add: sub32_id)
      obtain f1 f2 f3 where
        ops: "power2_allocator_remove_free_index E a b (e - b) = Inr (0, a\<lparr>free_lists := f1\<rparr>)"
          "power2_allocator_insert_one_free E (a\<lparr>free_lists := f1\<rparr>) b (i - b) = Inr (0, a\<lparr>free_lists := f2\<rparr>)"
          "power2_allocator_insert_one_free E (a\<lparr>free_lists := f2\<rparr>) (i + n) (e - (i + n)) = Inr (0, a\<lparr>free_lists := f3\<rparr>)"
        and f3: "shape m (a\<lparr>free_lists := f3\<rparr>)"
          "FL f3 = other_chunks m 0 us1 us2 ?t \<union> set (chunks m b (i - b)) \<union> set (chunks m (i + n) (e - (i + n)))"
        using open_gap [OF E I(1,4) blk, of i "i + n", folded b_def e_def, OF bnd(1) le_add1 bnd(2) I(6) [unfolded us]]
        by blast
      note blk' = block_in_gap [OF blk bnd(1) [unfolded b_def] n(1) bnd(2) [unfolded e_def]]
      let ?a' = "a\<lparr>free_lists := f3, inuse_list := jl_put i n (inuse_list a)\<rparr>"
      have "power2_allocator_reserve E a i n = Inr (0, ?a')"
        using sz prev nxt ops u u1 bnd mark_inuse_ok [OF E, of "a\<lparr>free_lists := f3\<rparr>" i n] None
        by (simp add: power2_allocator_reserve_def Let_def not_less split del: if_split)
      moreover have "p2_inv ?a'"
      proof (rule p2_invI [of m])
        show "shape m ?a'" using f3(1) by (simp add: shape_def)
        show "blocks_ok 0 (inuse_list ?a') (total_size ?a')" using blk'(1,3) us by simp
        show "FL (free_lists ?a') = free_chunks m 0 (inuse_list ?a') (total_size ?a')"
          using blk'(1) us f3(2) by (simp add: free_chunks_insert b_def e_def)
      qed (use I T in auto)
      ultimately show ?thesis using True by (intro disjI1 conjI exI [of _ ?a']) simp_all
    qed
  qed
qed

section \<open>Allocation\<close>

text \<open>Every chunk is the one the cutting loop makes at its index.\<close>

lemma chunks_exp:
  assumes "(k, i, s) \<in> set (chunks m c r)"
  shows "k = chunk_exp m i (c + r - i) \<and> s = min (2 ^ k) (c + r - i)"
  using assms
proof (induction m c r rule: chunks.induct)
  case (1 m c r)
  let ?k = "chunk_exp m c r"
  consider "r = 0" | "0 < r" "r < 2 ^ ?k" | "0 < r" "2 ^ ?k \<le> r" by linarith
  then show ?case
  proof cases
    case 1 with "1.prems" show ?thesis by simp
  next
    case 2 with "1.prems" show ?thesis by (simp add: chunks_partial min_def)
  next
    case 3
    with "1.prems" consider "(k, i, s) = (?k, c, 2 ^ ?k)" |
      "(k, i, s) \<in> set (chunks m (c + 2 ^ ?k) (r - 2 ^ ?k))" by (auto simp: chunks_full)
    then show ?thesis
    proof cases
      case 1 with 3 show ?thesis by simp
    next
      case 2
      with "1.IH" [of ?k] 3 have "k = chunk_exp m i (c + 2 ^ ?k + (r - 2 ^ ?k) - i) \<and>
        s = min (2 ^ k) (c + 2 ^ ?k + (r - 2 ^ ?k) - i)" by (simp add: not_less)
      moreover have "c + 2 ^ ?k + (r - 2 ^ ?k) = c + r" using 3 by simp
      ultimately show ?thesis by simp
    qed
  qed
qed

text \<open>An aligned free region lies in one chunk that the search accepts.\<close>

lemma aligned_region_chunk:
  assumes inv: "p2_inv a" and n: "0 < n" "n \<le> max_size a" and i: "2 ^ log2_uint32_ceil n dvd i" "region_free a i n"
  shows "\<exists>k f s. (k, f, s) \<in> FL (free_lists a) \<and> log2_uint32_ceil n \<le> k \<and> n \<le> s \<and>
    f \<le> i \<and> i < f + s \<and> 2 ^ k dvd f \<and> s \<le> 2 ^ k"
proof -
  let ?t = "total_size a" and ?L = "log2_uint32_ceil n"
  obtain m where I: "m < 32" "max_size a = 2 ^ m" "?t < W32" "blocks_ok 0 (inuse_list a) ?t"
      "FL (free_lists a) = free_chunks m 0 (inuse_list a) ?t"
    using inv by (elim p2_invE)
  have "map_of (inuse_list a) i = None"
  proof (rule ccontr)
    assume "map_of (inuse_list a) i \<noteq> None"
    then obtain s where s: "(i, s) \<in> set (inuse_list a)" by (auto dest: map_of_SomeD)
    with blocks_ok_mem [OF I(4) s] i(2) n(1) show False by (fastforce simp: region_free_def)
  qed
  then obtain us1 us2 where us: "inuse_list a = us1 @ us2"
    and lt: "\<forall>p \<in> set us1. fst p < i" and gt: "\<forall>p \<in> set us2. i < fst p" by (elim gap_at [OF I(4)])
  note blk = I(4) [unfolded us]
  define b e where "b = blocks_end 0 us1" and "e = next_begin us2 ?t"
  have bnd: "b \<le> i" "i + n \<le> e"
    using region_free_gap [OF blk lt gt n(1) us refl] i(2) by (simp_all add: b_def e_def)
  then have "\<exists>(k, f, s) \<in> set (chunks m b (e - b)). f \<le> i \<and> i < f + s"
    using n(1) by (intro chunks_cover) auto
  then obtain k f s where mem: "(k, f, s) \<in> set (chunks m b (e - b))" and fi: "f \<le> i" "i < f + s" by blast
  have "e \<le> ?t" using blk next_begin_le by (auto simp: blocks_ok_append e_def)
  then have r: "e - b < W32" "e - f < W32" using I(3) by auto
  have c: "2 ^ k dvd f" "s \<le> 2 ^ k" "k \<le> m" using chunks_mem [OF I(1) r(1) mem] by auto
  have ex: "k = chunk_exp m f (e - f)" "s = min (2 ^ k) (e - f)"
    using chunks_exp [OF mem] bnd by simp_all
  have nW: "n < W32" using n(2) I(2) I(1) power_strict_increasing [of m 32 "2::nat"] by (simp add: W32_pow)
  have L: "?L \<le> m" using n(2) I(2) nW by (simp add: log2_ceil_le_iff)
  have kL: "?L \<le> k"
  proof (rule ccontr)
    assume "\<not> ?L \<le> k"
    then have "2 ^ k dvd i" using i(1) by (meson dvd_trans le_imp_power_dvd nat_le_linear)
    then have "2 ^ k dvd i - f" using c(1) by (rule dvd_diff_nat)
    moreover have "i - f < 2 ^ k" using fi c(2) by linarith
    ultimately have "i = f" using fi by (metis diff_is_0_eq' nat_dvd_not_less zero_less_diff le_neq_implies_less)
    moreover have "?L \<le> ctz i"
      using i(1) L I(1) ctz_min_dvd [of m ?L i] by simp
    moreover have "?L \<le> log2_uint32_ceil (e - f)"
      using log2_ceil_mono [of n "e - f"] bnd fi r(2) \<open>i = f\<close> by simp
    ultimately have "?L \<le> k" using L by (simp add: ex(1) chunk_exp_def)
    with \<open>\<not> ?L \<le> k\<close> show False ..
  qed
  then have "(2::nat) ^ ?L \<le> 2 ^ k" by simp
  with log2_ceil_ge [OF nW] have "n \<le> 2 ^ k" by linarith
  then have "n \<le> s" using ex(2) bnd fi by simp
  moreover have "(k, f, s) \<in> FL (free_lists a)"
    using mem I(5) us by (simp add: free_chunks_split b_def e_def)
  ultimately show ?thesis using kL fi c(1,2) by blast
qed

lemma alloc_which:
  assumes E: "quiet E" and inv: "p2_inv a" and n: "0 < n" "n \<le> max_size a"
  shows "(\<exists>k f s i a'. first_chunk a n k f s \<and> last_in n f s i \<and>
      power2_allocator_alloc E (Some a) n = Inr (s32 i, Some a') \<and> p2_inv a' \<and>
      2 ^ log2_uint32_ceil n dvd i \<and> region_free a i n \<and>
      inuse_list a' = jl_put i n (inuse_list a) \<and> max_size a' = max_size a \<and> total_size a' = total_size a) \<or>
    (power2_allocator_alloc E (Some a) n = Inr (- 1, Some a) \<and>
      (\<forall>i. 2 ^ log2_uint32_ceil n dvd i \<longrightarrow> \<not> region_free a i n))"
proof -
  let ?L = "log2_uint32_ceil n"
  obtain m where I: "shape m a" "m < 32" "max_size a = 2 ^ m" "blocks_ok 0 (inuse_list a) (total_size a)"
    using inv by (elim p2_invE)
  have nW: "n < W32" using n(2) I(2,3) power_strict_increasing [of m 32 "2::nat"] by (simp add: W32_pow)
  have L: "?L \<le> Suc m" using n(2) I(3) nW by (simp add: log2_ceil_le_iff le_SucI)
  have "\<forall>k i s. (k, i, s) \<in> FL (free_lists a) \<longrightarrow> i < M1 \<and> s < W32" using FL_index_M1 [OF inv] by blast
  from alloc_search_ok [OF E I(1) L log2_ceil_ge [OF nW] this, where z = 0]
  show ?thesis
  proof (elim disjE exE conjE)
    fix k f s fl
    assume f: "alloc_search E n [?L..<Suc m] 0 a = Inr (f, s, a\<lparr>free_lists := fl\<rparr>)" "?L \<le> k" "k \<le> m" "f \<noteq> M1"
      "(k, f, s) \<in> FL (free_lists a)" "n \<le> s" "shape m (a\<lparr>free_lists := fl\<rparr>)" "FL fl = FL (free_lists a) - {(k, f, s)}"
    assume "\<forall>k' j t. (k', j, t) \<in> FL (free_lists a) \<and> ?L \<le> k' \<and> n \<le> t \<longrightarrow> k < k' \<or> k = k' \<and> f \<le> j"
    with f(2,5,6) have "first_chunk a n k f s" by (simp add: first_chunk_def)
    moreover from alloc_in_chunk [OF E inv I(1) n f(5,6,2,3,1,4,7,8)] obtain i a' where "power2_allocator_alloc E (Some a) n = Inr (s32 i, Some a')" "p2_inv a'"
      "2 ^ ?L dvd i" "i + n \<le> total_size a" "{i..<i + n} \<inter> used a = {}"
      "inuse_list a' = jl_put i n (inuse_list a)" "max_size a' = max_size a" "total_size a' = total_size a" "last_in n f s i"
      by blast
    ultimately show ?thesis
      by (intro disjI1 exI [of _ k] exI [of _ f] exI [of _ s] exI [of _ i] exI [of _ a'])
        (simp add: region_free_used [OF n(1) I(4)])
  next
    assume s: "alloc_search E n [?L..<Suc m] 0 a = Inr (M1, 0, a)"
      and none: "\<forall>k i s. (k, i, s) \<in> FL (free_lists a) \<and> ?L \<le> k \<longrightarrow> s < n"
    have "power2_allocator_alloc E (Some a) n = Inr (- 1, Some a)"
      using s n(2) shapeD(2) [OF I(1)] by (simp add: power2_allocator_alloc_def Let_def)
    moreover have "\<not> region_free a i n" if "2 ^ ?L dvd i" for i
      using aligned_region_chunk [OF inv n that] none by (meson not_le)
    ultimately show ?thesis by blast
  qed
qed

lemma alloc_cases:
  assumes "quiet E" "p2_inv a" "0 < n" "n \<le> max_size a"
  shows "(\<exists>i a'. power2_allocator_alloc E (Some a) n = Inr (s32 i, Some a') \<and> p2_inv a' \<and>
      2 ^ log2_uint32_ceil n dvd i \<and> region_free a i n \<and>
      inuse_list a' = jl_put i n (inuse_list a) \<and> max_size a' = max_size a \<and> total_size a' = total_size a) \<or>
    (power2_allocator_alloc E (Some a) n = Inr (- 1, Some a) \<and>
      (\<forall>i. 2 ^ log2_uint32_ceil n dvd i \<longrightarrow> \<not> region_free a i n))"
  using alloc_which [OF assms] by blast

end
