(* ===== verification/Power2_Check.thy ===== *)
theory Power2_Check
  imports Power2_Ops
begin

text \<open>
  \<open>power2_allocator_assert\<close>, the run-time check of power2\_allocator.c, passes on every state
  that satisfies the invariant: no unit is marked twice, every unit below \<open>total_size\<close> is
  either free or in use, the chunks of every gap are in their lists, and nothing lies above
  the end of the pool.
\<close>

section \<open>Disjointness\<close>

lemma chunks_disjoint:
  assumes "m < 32" "r < W32" "(k, i, s) \<in> set (chunks m c r)" "(k', i', s') \<in> set (chunks m c r)"
    "x \<in> {i..<i + s}" "x \<in> {i'..<i' + s'}"
  shows "(k, i, s) = (k', i', s')"
  using assms
proof (induction m c r rule: chunks.induct)
  case (1 m c r)
  let ?k = "chunk_exp m c r"
  consider "r = 0" | "0 < r" "r < 2 ^ ?k" | "0 < r" "2 ^ ?k \<le> r" by linarith
  then show ?case
  proof cases
    case 1 with "1.prems" show ?thesis by simp
  next
    case 2 with "1.prems" show ?thesis by (simp add: chunks_partial)
  next
    case 3
    let ?rest = "chunks m (c + 2 ^ ?k) (r - 2 ^ ?k)"
    have low: "c + 2 ^ ?k \<le> j" if "(h, j, z) \<in> set ?rest" for h j z
      using chunks_mem [OF "1.prems"(1) _ that] "1.prems"(2) by simp
    have cs: "(k, i, s) = (?k, c, 2 ^ ?k) \<or> (k, i, s) \<in> set ?rest"
      "(k', i', s') = (?k, c, 2 ^ ?k) \<or> (k', i', s') \<in> set ?rest"
      using "1.prems"(3,4) 3 by (simp_all add: chunks_full)
    show ?thesis
    proof (cases "(k, i, s) \<in> set ?rest \<and> (k', i', s') \<in> set ?rest")
      case True
      then show ?thesis
        using "1.IH" [of ?k] 3 "1.prems" by (simp add: not_less less_imp_diff_less)
    next
      case False
      then show ?thesis
        using cs low [of k i s] low [of k' i' s'] "1.prems"(5,6) by auto
    qed
  qed
qed

lemma gaps_disjoint:
  assumes "blocks_ok c us t" "(b, e) \<in> set (gaps c us t)" "(b', e') \<in> set (gaps c us t)"
    "x \<in> {b..<e}" "x \<in> {b'..<e'}"
  shows "b = b' \<and> e = e'"
  using assms
proof (induction c us t rule: gaps.induct)
  case (2 c i s us t)
  have ok: "c \<le> i" "blocks_ok (i + s) us t" using "2.prems"(1) by simp_all
  have later: "i + s \<le> d" if "(d, f) \<in> set (gaps (i + s) us t)" for d f
    using gaps_bounds [OF ok(2) that] by simp
  from 2 ok later show ?case by fastforce
qed simp

lemma gap_not_used:
  assumes "blocks_ok c us t" "(b, e) \<in> set (gaps c us t)" "x \<in> {b..<e}" "(i, s) \<in> set us"
  shows "x \<notin> {i..<i + s}"
  using assms
proof (induction c us t rule: gaps.induct)
  case (2 c j z us t)
  have ok: "c \<le> j" "blocks_ok (j + z) us t" using "2.prems"(1) by simp_all
  have "j + z \<le> d" if "(d, f) \<in> set (gaps (j + z) us t)" for d f
    using gaps_bounds [OF ok(2) that] by simp
  moreover have "j + z \<le> d" if "(d, f) \<in> set us" for d f using blocks_ok_mem [OF ok(2) that] by simp
  ultimately show ?case using 2 ok by fastforce
qed simp

lemma gap_or_used:
  assumes "blocks_ok c us t" "c \<le> x" "x < t"
  shows "(\<exists>(i, s) \<in> set us. x \<in> {i..<i + s}) \<or> (\<exists>(b, e) \<in> set (gaps c us t). x \<in> {b..<e})"
  using assms
proof (induction c us t rule: gaps.induct)
  case (2 c i s us t)
  consider "x < i" | "i \<le> x" "x < i + s" | "i + s \<le> x" by linarith
  then show ?case
  proof cases
    case 3
    with 2 have "(\<exists>(i, s) \<in> set us. x \<in> {i..<i + s}) \<or> (\<exists>(b, e) \<in> set (gaps (i + s) us t). x \<in> {b..<e})" by simp
    then show ?thesis by auto
  qed (use 2 in auto)
qed simp

definition free_units :: "power2_allocator \<Rightarrow> nat set" where
  "free_units a = (\<Union>(k, i, s) \<in> FL (free_lists a). {i..<i + s})"

lemma free_disjoint:
  assumes "p2_inv a" "(k, i, s) \<in> FL (free_lists a)" "(k', i', s') \<in> FL (free_lists a)"
    "x \<in> {i..<i + s}" "x \<in> {i'..<i' + s'}"
  shows "(k, i, s) = (k', i', s')"
proof -
  obtain m where I: "m < 32" "total_size a < W32" "blocks_ok 0 (inuse_list a) (total_size a)"
      "FL (free_lists a) = free_chunks m 0 (inuse_list a) (total_size a)"
    using assms(1) by (elim p2_invE)
  obtain b e b' e' where g: "(b, e) \<in> set (gaps 0 (inuse_list a) (total_size a))" "(k, i, s) \<in> set (chunks m b (e - b))"
    "(b', e') \<in> set (gaps 0 (inuse_list a) (total_size a))" "(k', i', s') \<in> set (chunks m b' (e' - b'))"
    using assms(2,3) unfolding I(4) free_chunks_def by blast
  note gb = gaps_bounds [OF I(3) g(1)] gaps_bounds [OF I(3) g(3)]
  then have W: "e - b < W32" "e' - b' < W32" using I(2) by linarith+
  have "x \<in> {b..<e}" "x \<in> {b'..<e'}"
    using chunks_mem [OF I(1) W(1) g(2)] chunks_mem [OF I(1) W(2) g(4)] assms(4,5) gb by auto
  with gaps_disjoint [OF I(3) g(1,3)] have "b = b'" "e = e'" by blast+
  with chunks_disjoint [OF I(1) W(1) g(2) _ assms(4,5)] g(4) show ?thesis by simp
qed

lemma free_units_iff:
  assumes "p2_inv a"
  shows "x \<in> free_units a \<longleftrightarrow> x < total_size a \<and> x \<notin> used a"
proof -
  obtain m where I: "m < 32" "total_size a < W32" "blocks_ok 0 (inuse_list a) (total_size a)"
      "FL (free_lists a) = free_chunks m 0 (inuse_list a) (total_size a)"
    using assms by (elim p2_invE)
  show ?thesis
  proof
    assume "x \<in> free_units a"
    then obtain k i s b e where be: "(b, e) \<in> set (gaps 0 (inuse_list a) (total_size a))"
      and mem: "(k, i, s) \<in> set (chunks m b (e - b))" and x: "x \<in> {i..<i + s}"
      unfolding free_units_def I(4) free_chunks_def by blast
    note gb = gaps_bounds [OF I(3) be]
    then have "e - b < W32" using I(2) by linarith
    from chunks_mem [OF I(1) this mem] x gb have "x \<in> {b..<e}" by auto
    with gap_not_used [OF I(3) be this] gb show "x < total_size a \<and> x \<notin> used a"
      by (auto simp: used_def)
  next
    assume x: "x < total_size a \<and> x \<notin> used a"
    with gap_or_used [OF I(3), of x] obtain b e where be: "(b, e) \<in> set (gaps 0 (inuse_list a) (total_size a))"
      and "x \<in> {b..<e}" by (auto simp: used_def)
    then have "\<exists>(k, i, s) \<in> set (chunks m b (e - b)). i \<le> x \<and> x < i + s" by (intro chunks_cover) auto
    with be show "x \<in> free_units a" unfolding free_units_def I(4) free_chunks_def by fastforce
  qed
qed

section \<open>Marking units\<close>

lemma mark_units_ok:
  assumes "quiet E" "distinct is" "set is \<inter> set s = {}" "j1_ok s" "\<forall>i \<in> set is. i < W64"
  shows "\<exists>s'. mark_units E is s = Inr s' \<and> j1_ok s' \<and> set s' = set s \<union> set is"
  using assms(2-)
proof (induction "is" arbitrary: s)
  case (Cons i "is")
  have "\<exists>s'. mark_units E is (j1_put i s) = Inr s' \<and> j1_ok s' \<and> set s' = set (j1_put i s) \<union> set is"
    using Cons.prems by (intro Cons.IH) (auto intro: j1_ok_put)
  then show ?case using Cons.prems assms(1) by (auto simp: J1S_def c_assert_I)
qed simp

lemma mark_interval_ok:
  assumes "quiet E" "{i..<i + n} \<inter> set s = {}" "j1_ok s" "i + n < W32"
  obtains s' where "u32_range i ((i + n) mod W64) = Inr [i..<i + n]" "mark_units E [i..<i + n] s = Inr s'"
    "j1_ok s'" "set s' = set s \<union> {i..<i + n}"
proof -
  have W: "i + n < W64" using assms(4) W32_less_W64 by linarith
  have "\<exists>s'. mark_units E [i..<i + n] s = Inr s' \<and> j1_ok s' \<and> set s' = set s \<union> set [i..<i + n]"
    using assms W by (intro mark_units_ok) auto
  moreover have "u32_range i ((i + n) mod W64) = Inr [i..<i + n]"
    using assms(4) W by (simp add: u32_range_def u32_id)
  ultimately show ?thesis using that by auto
qed

text \<open>A list of blocks none of which meets another or the units marked before.\<close>

fun apart :: "(nat \<times> nat) list \<Rightarrow> nat set \<Rightarrow> bool" where
  "apart [] U \<longleftrightarrow> True"
| "apart ((i, n) # l) U \<longleftrightarrow> {i..<i + n} \<inter> U = {} \<and> i + n < W32 \<and> apart l (U \<union> {i..<i + n})"

lemma apartI:
  assumes "distinct (map fst l)" "\<forall>(i, n) \<in> set l. i + n < W32 \<and> {i..<i + n} \<inter> U = {}"
    "\<forall>(i, n) \<in> set l. \<forall>(j, z) \<in> set l. i \<noteq> j \<longrightarrow> {i..<i + n} \<inter> {j..<j + z} = {}"
  shows "apart l U"
  using assms
proof (induction l arbitrary: U)
  case (Cons p l)
  obtain i n where p: "p = (i, n)" by (cases p)
  have "{j..<j + z} \<inter> {i..<i + n} = {}" if "(j, z) \<in> set l" for j z
  proof -
    have "j \<noteq> i" using Cons.prems(1) that p by force
    then show ?thesis using Cons.prems(3) that p by (fastforce simp: disjoint_iff)
  qed
  then have "\<forall>(j, z) \<in> set l. j + z < W32 \<and> {j..<j + z} \<inter> (U \<union> {i..<i + n}) = {}"
    using Cons.prems(2) by (auto simp: Int_Un_distrib)
  moreover have "\<forall>(i, n) \<in> set l. \<forall>(j, z) \<in> set l. i \<noteq> j \<longrightarrow> {i..<i + n} \<inter> {j..<j + z} = {}"
    using Cons.prems(3) by fastforce
  moreover have "distinct (map fst l)" using Cons.prems(1) by simp
  ultimately have "apart l (U \<union> {i..<i + n})" by (intro Cons.IH)
  then show ?case using Cons.prems(2) p by simp
qed simp

lemma mark_fold_ok:
  assumes "quiet E" "apart l (set s)" "j1_ok s"
    and body: "\<And>i n s s'. (i, n) \<in> set l \<Longrightarrow> u32_range i ((i + n) mod W64) = Inr [i..<i + n] \<Longrightarrow>
      mark_units E [i..<i + n] s = Inr s' \<Longrightarrow> body i n s = Inr (Inr s')"
  shows "\<exists>s'. jl_fold body l s = Inr (Inr s') \<and> j1_ok s' \<and> set s' = set s \<union> (\<Union>(i, n) \<in> set l. {i..<i + n})"
  using assms(2-)
proof (induction l arbitrary: s)
  case (Cons p l)
  obtain i n where p: "p = (i, n)" by (cases p)
  have ap: "{i..<i + n} \<inter> set s = {}" "i + n < W32" "apart l (set s \<union> {i..<i + n})" using Cons.prems(1) p by simp_all
  obtain s1 where s1: "u32_range i ((i + n) mod W64) = Inr [i..<i + n]" "mark_units E [i..<i + n] s = Inr s1"
    "j1_ok s1" "set s1 = set s \<union> {i..<i + n}"
    using mark_interval_ok [OF assms(1) ap(1) Cons.prems(2) ap(2)] by blast
  have "body i n s = Inr (Inr s1)" using Cons.prems(3) [of i n s s1] s1 p by simp
  moreover have "\<exists>s'. jl_fold body l s1 = Inr (Inr s') \<and> j1_ok s' \<and> set s' = set s1 \<union> (\<Union>(i, n) \<in> set l. {i..<i + n})"
    using ap(3) s1 Cons.prems(3) by (intro Cons.IH) auto
  ultimately show ?case using p s1(4) by auto
qed simp


section \<open>The three passes\<close>

lemma mark_inuse_pass:
  assumes "quiet E" "p2_inv a"
  shows "\<exists>s. mark_blocks E (inuse_list a) [] = Inr s \<and> j1_ok s \<and> set s = used a"
proof -
  have ok: "blocks_ok 0 (inuse_list a) (total_size a)" and t: "total_size a < W32"
    using assms(2) by (auto elim: p2_invE)
  have jl: "jl_ok (inuse_list a)" using ok by (rule blocks_ok_jl_ok)
  have "apart (inuse_list a) (set [])"
  proof (rule apartI)
    show "distinct (map fst (inuse_list a))" using jl by (rule jl_ok_distinct)
    show "\<forall>(i, n) \<in> set (inuse_list a). i + n < W32 \<and> {i..<i + n} \<inter> set [] = {}"
      using blocks_ok_mem [OF ok] t by fastforce
    have "{i..<i + n} \<inter> {j..<j + z} = {}" if "(i, n) \<in> set (inuse_list a)" "(j, z) \<in> set (inuse_list a)" "i \<noteq> j" for i n j z
    proof -
      from split_list [OF that(1)] obtain us1 us2 where us: "inuse_list a = us1 @ (i, n) # us2" by blast
      have *: "blocks_ok 0 us1 i" "blocks_ok (i + n) us2 (total_size a)"
        using ok by (simp_all add: us blocks_ok_append)
      from that(2,3) us consider "(j, z) \<in> set us1" | "(j, z) \<in> set us2" by auto
      then show ?thesis
      proof cases
        case 1 from blocks_ok_mem [OF *(1) 1] show ?thesis by auto
      next
        case 2 from blocks_ok_mem [OF *(2) 2] show ?thesis by auto
      qed
    qed
    then show "\<forall>(i, n) \<in> set (inuse_list a). \<forall>(j, z) \<in> set (inuse_list a). i \<noteq> j \<longrightarrow> {i..<i + n} \<inter> {j..<j + z} = {}"
      by blast
  qed
  from mark_fold_ok [OF assms(1) this, of "\<lambda>index v s. bnd (u32_range index ((index + v) mod W64)) (\<lambda>is.
      bnd (mark_units E is s) (\<lambda>s. Inr (Inr s)))" ]
  obtain s where "jl_fold (\<lambda>index v s. bnd (u32_range index ((index + v) mod W64)) (\<lambda>is.
      bnd (mark_units E is s) (\<lambda>s. Inr (Inr s)))) (inuse_list a) [] = Inr (Inr s :: unit + j1)"
    "j1_ok s" "set s = (\<Union>(i, n) \<in> set (inuse_list a). {i..<i + n})" by auto
  then show ?thesis
    by (simp add: mark_blocks_def jl_while_fold [OF assms(1) jl] used_def)
qed

text \<open>Marking the free lists \<open>ks\<close>, given that the units marked before are those of other lists.\<close>

lemma mark_free_pass:
  assumes E: "quiet E" and inv: "p2_inv a" and ks: "distinct ks" "set ks \<subseteq> {0..<no_free_lists a}"
    and s: "j1_ok s" "set s = (\<Union>(k, i, n) \<in> {c \<in> FL (free_lists a). fst c \<notin> set ks}. {i..<i + n})"
  shows "\<exists>s'. mark_free_lists E a ks s = Inr s' \<and> j1_ok s' \<and> set s' = free_units a"
  using ks s
proof (induction ks arbitrary: s)
  case Nil
  then show ?case by (auto simp: free_units_def)
next
  case (Cons k ks)
  obtain m where I: "shape m a" "m < 32" "total_size a < W32" "blocks_ok 0 (inuse_list a) (total_size a)"
      "FL (free_lists a) = free_chunks m 0 (inuse_list a) (total_size a)"
    using inv by (elim p2_invE)
  let ?l = "free_lists a ! k"
  have km: "k \<le> m" using Cons.prems(2) shapeD(2) [OF I(1)] by simp
  have ok: "jl_ok ?l" by (rule shapeD(4) [OF I(1) km])
  have mem: "(k, i, n) \<in> FL (free_lists a) \<longleftrightarrow> (i, n) \<in> set ?l" for i n
    using km by (simp add: FL_def shapeD(3) [OF I(1)])
  have apart: "apart ?l (set s)"
  proof (rule apartI)
    show "distinct (map fst ?l)" using ok by (rule jl_ok_distinct)
    show "\<forall>(i, n) \<in> set ?l. i + n < W32 \<and> {i..<i + n} \<inter> set s = {}"
    proof (clarify, intro conjI)
      fix i n assume l: "(i, n) \<in> set ?l"
      then have "(k, i, n) \<in> FL (free_lists a)" using mem by blast
      from FL_bounds [OF inv this] I(3) show "i + n < W32" by linarith
      show "{i..<i + n} \<inter> set s = {}"
      proof (rule ccontr)
        assume "{i..<i + n} \<inter> set s \<noteq> {}"
        then obtain x k' i' n' where x: "x \<in> {i..<i + n}" "(k', i', n') \<in> FL (free_lists a)" "k' \<notin> set (k # ks)"
          "x \<in> {i'..<i' + n'}" unfolding Cons.prems(4) by fastforce
        have "(k, i, n) \<in> FL (free_lists a)" using l mem by blast
        from free_disjoint [OF inv this x(2,1,4)] x(3) show False by simp
      qed
    qed
    have "{i..<i + n} \<inter> {j..<j + z} = {}" if "(i, n) \<in> set ?l" "(j, z) \<in> set ?l" "i \<noteq> j" for i n j z
    proof (rule ccontr)
      assume "{i..<i + n} \<inter> {j..<j + z} \<noteq> {}"
      then obtain x where x: "x \<in> {i..<i + n}" "x \<in> {j..<j + z}" by blast
      have "(k, i, n) \<in> FL (free_lists a)" "(k, j, z) \<in> FL (free_lists a)" using that mem by blast+
      from free_disjoint [OF inv this x] that(3) show False by simp
    qed
    then show "\<forall>(i, n) \<in> set ?l. \<forall>(j, z) \<in> set ?l. i \<noteq> j \<longrightarrow> {i..<i + n} \<inter> {j..<j + z} = {}"
      by blast
  qed
  have sizes: "u32 n = n \<and> n \<le> 2 ^ k \<and> 2 ^ k div 2 < n" if l: "(i, n) \<in> set ?l" for i n
  proof -
    obtain b e where be: "(b, e) \<in> set (gaps 0 (inuse_list a) (total_size a))" "(k, i, n) \<in> set (chunks m b (e - b))"
      using l mem unfolding I(5) free_chunks_def by blast
    have "e - b < W32" using gaps_bounds [OF I(4) be(1)] I(3) by linarith
    from chunks_mem [OF I(2) this be(2)] have "n \<le> 2 ^ k" "2 ^ k < 2 * n" by auto
    moreover have "(k, i, n) \<in> FL (free_lists a)" using l mem by blast
    then have "n < W32" using FL_bounds [OF inv] I(3) by fastforce
    ultimately show ?thesis by (simp add: u32_id)
  qed
  let ?body = "\<lambda>index v s. let sz = u32 v in
      bnd (c_assert_res E (bnd (shl1 k) (\<lambda>w. Inr (sz \<le> w)))) (\<lambda>_.
      bnd (c_assert_res E (bnd (shl1 k) (\<lambda>w. Inr (sz > w div 2)))) (\<lambda>_.
      bnd (u32_range index ((index + sz) mod W64)) (\<lambda>is.
      bnd (mark_units E is s) (\<lambda>s. Inr (Inr s :: unit + j1)))))"
  have k32: "k < 32" using km I(2) by simp
  have "\<exists>s'. jl_fold ?body ?l s = Inr (Inr s') \<and> j1_ok s' \<and> set s' = set s \<union> (\<Union>(i, n) \<in> set ?l. {i..<i + n})"
    using sizes k32
    by (intro mark_fold_ok [OF E apart Cons.prems(3)]) (simp add: Let_def c_assert_res_def shl1_id)
  then obtain s1 where s1: "jl_fold ?body ?l s = Inr (Inr s1)" "j1_ok s1"
    "set s1 = set s \<union> (\<Union>(i, n) \<in> set ?l. {i..<i + n})" by blast
  have "set s1 = (\<Union>(k, i, n) \<in> {c \<in> FL (free_lists a). fst c \<notin> set ks}. {i..<i + n})"
  proof -
    have "{c \<in> FL (free_lists a). fst c \<notin> set ks} =
        {c \<in> FL (free_lists a). fst c \<notin> set (k # ks)} \<union> (\<lambda>p. (k, p)) ` set ?l"
      using mem Cons.prems(1) by (auto simp: image_iff)
    then show ?thesis unfolding s1(3) Cons.prems(4) by auto
  qed
  then have "\<exists>s'. mark_free_lists E a ks s1 = Inr s' \<and> j1_ok s' \<and> set s' = free_units a"
    using Cons.prems s1(2) by (intro Cons.IH) auto
  then show ?case
    using s1(1) by (simp add: fl_get_shape [OF I(1) km] jl_while_fold [OF E ok])
qed

lemma check_units_ok:
  "(\<And>i. i \<in> set is \<Longrightarrow> i \<in> set f \<longleftrightarrow> i \<notin> set u) \<Longrightarrow> check_units E f u is = Inr ()"
  by (induction "is") (auto simp: J1T_def c_assert_I)

lemma free_list_assert_0 [simp]: "power2_allocator_free_list_assert E a c 0 = Inr ()"
  by (simp add: power2_allocator_free_list_assert.simps)

lemma free_list_assert_step:
  fixes m c r :: nat
  assumes "quiet E" "shape m a" "0 < r" "r < W32"
  defines "k \<equiv> chunk_exp m c r"
  defines "v \<equiv> (if r < 2 ^ k then r else 2 ^ k)"
  assumes "(k, c, v) \<in> FL (free_lists a)"
  shows "power2_allocator_free_list_assert E a c r =
    (if r < 2 ^ k then Inr () else power2_allocator_free_list_assert E a (add32 c (2 ^ k)) (r - 2 ^ k))"
proof -
  have k: "k \<le> m" "k < 32" using assms(2) chunk_exp_le [of m c r] by (auto simp: k_def shapeD dest: shapeD(1))
  have some: "map_of (free_lists a ! k) c = Some v"
    using FL_lookup [OF assms(2) k(1)] assms(7) by simp
  have uv: "u32 r = r" "\<not> r < 2 ^ k \<Longrightarrow> u32 (2 ^ k) = 2 ^ k"
    using assms(4) by (simp_all add: u32_id)
  have "chunk_asserts E c k = Inr ()" using shapeD(1) [OF assms(2)] by (simp add: k_def chunk_asserts_ok)
  moreover have "chunk_log2 a c r = k" using assms(2) by (simp add: k_def chunk_log2_eq)
  ultimately show ?thesis
    using assms(1,2,3) k some uv
    by (subst power2_allocator_free_list_assert.simps)
      (simp add: Let_def fl_get_shape JLG_present shl1_id c_assert_I v_def)
qed

lemma free_list_assert_ok:
  assumes "quiet E" "shape m a" "c + r < W32" "set (chunks m c r) \<subseteq> FL (free_lists a)"
  shows "power2_allocator_free_list_assert E a c r = Inr ()"
  using assms(2-4)
proof (induction m c r rule: chunks.induct)
  case (1 m c r)
  let ?k = "chunk_exp m c r"
  consider "r = 0" | "0 < r" "r < 2 ^ ?k" | "0 < r" "2 ^ ?k \<le> r" by linarith
  then show ?case
  proof cases
    case 1 then show ?thesis by simp
  next
    case 2
    then have "(?k, c, if r < 2 ^ ?k then r else 2 ^ ?k) \<in> FL (free_lists a)"
      using "1.prems"(3) by (simp add: chunks_partial)
    from free_list_assert_step [OF assms(1) "1.prems"(1) 2(1) _ this] 2 "1.prems"(2) show ?thesis by simp
  next
    case 3
    then have "(?k, c, if r < 2 ^ ?k then r else 2 ^ ?k) \<in> FL (free_lists a)"
      using "1.prems"(3) by (simp add: chunks_full)
    from free_list_assert_step [OF assms(1) "1.prems"(1) 3(1) _ this] 3 "1.prems"(2)
    have "power2_allocator_free_list_assert E a c r =
      power2_allocator_free_list_assert E a (c + 2 ^ ?k) (r - 2 ^ ?k)" by (simp add: add32_id not_less)
    also have "\<dots> = Inr ()" using 3 "1.prems" by (intro "1.IH" [of ?k]) (auto simp: chunks_full)
    finally show ?thesis .
  qed
qed

lemma check_gaps_fold:
  assumes E: "quiet E" and m: "shape m a" and t: "t < W32" and us: "blocks_ok c us t"
    and FL: "free_chunks m c us t \<subseteq> FL (free_lists a)"
  shows "jl_fold (\<lambda>index v free_index.
      bnd (power2_allocator_free_list_assert E a free_index (sub32 (u32 index) free_index)) (\<lambda>_.
      Inr (Inr (add32 index v)))) us c = Inr (Inr (blocks_end c us) :: unit + nat) \<and>
    set (chunks m (blocks_end c us) (t - blocks_end c us)) \<subseteq> FL (free_lists a)"
  using us FL
proof (induction c us rule: blocks_end.induct)
  case (1 c)
  then show ?case by (simp add: free_chunks_def)
next
  case (2 c i n us)
  have ok: "c \<le> i" "blocks_ok (i + n) us t" using "2.prems"(1) by simp_all
  have "i + n \<le> t" using ok(2) by (rule blocks_ok_le)
  then have W: "i < W32" "i + n < W32" "c + (i - c) < W32" using t ok(1) by linarith+
  have "set (chunks m c (i - c)) \<subseteq> FL (free_lists a)" and rest: "free_chunks m (i + n) us t \<subseteq> FL (free_lists a)"
    using "2.prems"(2) by (auto simp: free_chunks_def)
  from free_list_assert_ok [OF E m W(3) this(1)] "2.IH" [OF ok(2) rest] W ok(1) show ?case
    by (simp add: u32_id sub32_id add32_id)
qed

lemma check_gaps_pass:
  assumes E: "quiet E" and inv: "p2_inv a"
  shows "check_free_lists E a = Inr ()"
proof -
  obtain m where I: "shape m a" "total_size a < W32" "blocks_ok 0 (inuse_list a) (total_size a)"
      "FL (free_lists a) = free_chunks m 0 (inuse_list a) (total_size a)"
    using inv by (elim p2_invE)
  let ?b = "blocks_end 0 (inuse_list a)"
  note fold = check_gaps_fold [OF E I(1,2,3) equalityD2 [OF I(4)]]
  have b: "?b \<le> total_size a" using blocks_end_le [OF I(3)] by simp
  then have "power2_allocator_free_list_assert E a ?b (total_size a - ?b) = Inr ()"
    using fold I(2) by (intro free_list_assert_ok [OF E I(1)]) auto
  then show ?thesis
    using fold b I(2) by (simp add: check_free_lists_def jl_while_fold [OF E blocks_ok_jl_ok [OF I(3)]] sub32_id)
qed

lemma J1F_above: "\<forall>x \<in> set s. x < t \<Longrightarrow> fst (J1F E s t) = 0"
proof -
  assume "\<forall>x \<in> set s. x < t"
  then have "j1_first s t = None" by (auto simp: j1_first_def find_None_all not_le)
  then show ?thesis by (simp add: J1F_def)
qed

lemma run_time_check_passes:
  assumes E: "quiet E" and inv: "p2_inv a"
  shows "power2_allocator_assert E (Some a) = Inr ()"
proof -
  obtain m where I: "shape m a" "blocks_ok 0 (inuse_list a) (total_size a)" using inv by (elim p2_invE)
  have "(\<Union>(k, i, n) \<in> {c \<in> FL (free_lists a). fst c \<notin> set [0..<no_free_lists a]}. {i..<i + n}) = {}"
    by (auto simp: FL_def shapeD [OF I(1)])
  then obtain f where f: "mark_free_lists E a [0..<no_free_lists a] [] = Inr f" "j1_ok f" "set f = free_units a"
    using mark_free_pass [OF E inv, of "[0..<no_free_lists a]" "[]"] by auto
  obtain u where u: "mark_blocks E (inuse_list a) [] = Inr u" "j1_ok u" "set u = used a"
    using mark_inuse_pass [OF E inv] by blast
  have "check_units E f u [0..<total_size a] = Inr ()"
    using f(3) u(3) by (intro check_units_ok) (simp add: free_units_iff [OF inv])
  moreover have "fst (J1F E f (total_size a)) = 0" "fst (J1F E u (total_size a)) = 0"
    using f(3) u(3) blocks_ok_mem [OF I(2)]
    by (intro J1F_above; fastforce simp: free_units_iff [OF inv] used_def)+
  ultimately show ?thesis
    using f u check_gaps_pass [OF E inv] by (simp add: power2_allocator_assert_def c_assert_I)
qed

end
