(* ===== verification/Power2_Create.thy ===== *)
theory Power2_Create
  imports Power2_Check
begin

text \<open>
  Creation and copy of a power2 allocator: \<open>power2_allocator_create\<close> establishes the invariant
  with nothing in use, \<open>power2_allocator_make_copy\<close> returns an equal struct.
\<close>

section \<open>Creation\<close>

lemma chunks_aligned_append:
  assumes "m < 32" "2 ^ m dvd c + p" "p + q < W32"
  shows "chunks m c (p + q) = chunks m c p @ chunks m (c + p) q"
proof (rule chunks_append)
  show "2 ^ min m (ctz y) dvd c + p" for y
    using assms(2) by (meson dvd_trans le_imp_power_dvd min.cobounded1)
qed (use assms in auto)

lemma create_loop_ok:
  assumes "quiet E" "shape m a" "2 ^ m dvd c" "c + n * 2 ^ m < W32"
    and "\<forall>k i s. (k, i, s) \<in> FL (free_lists a) \<longrightarrow> i < c"
  shows "\<exists>fl. create_loop E (2 ^ m) n c a = Inr (a\<lparr>free_lists := fl\<rparr>) \<and> shape m (a\<lparr>free_lists := fl\<rparr>) \<and>
    FL fl = FL (free_lists a) \<union> set (chunks m c (n * 2 ^ m))"
  using assms(2-)
proof (induction n arbitrary: c a)
  case 0
  then show ?case by (intro exI [of _ "free_lists a"]) simp
next
  case (Suc n)
  have M: "m < 32" using Suc.prems(1) by (rule shapeD)
  have W: "c + 2 ^ m < W32" "c + 2 ^ m + n * 2 ^ m < W32" "(2::nat) ^ m < W32" using Suc.prems(3) by auto
  have "\<forall>k i s s'. (k, i, s) \<in> set (chunks m c (2 ^ m)) \<longrightarrow> (k, i, s') \<notin> FL (free_lists a)"
    using Suc.prems(4) chunks_pos [OF M W(3)] by fastforce
  from insert_region [where m = m and a = a and f = "free_lists a", OF assms(1) _ W(1) this] Suc.prems(1) obtain g where
    g: "power2_allocator_insert_one_free E a c (2 ^ m) = Inr (0, a\<lparr>free_lists := g\<rparr>)" "shape m (a\<lparr>free_lists := g\<rparr>)"
      "FL g = FL (free_lists a) \<union> set (chunks m c (2 ^ m))" by auto
  have d: "2 ^ m dvd c + 2 ^ m" using Suc.prems(2) by simp
  have "i < c + 2 ^ m" if "(k, i, s) \<in> FL g" for k i s
    using that Suc.prems(4) chunks_pos [OF M W(3), of k i s c] unfolding g(3) by fastforce
  then have "\<exists>fl. create_loop E (2 ^ m) n (c + 2 ^ m) (a\<lparr>free_lists := g\<rparr>) = Inr (a\<lparr>free_lists := g\<rparr>\<lparr>free_lists := fl\<rparr>) \<and>
    shape m (a\<lparr>free_lists := g\<rparr>\<lparr>free_lists := fl\<rparr>) \<and>
    FL fl = FL (free_lists (a\<lparr>free_lists := g\<rparr>)) \<union> set (chunks m (c + 2 ^ m) (n * 2 ^ m))"
    using W(2) by (intro Suc.IH [OF g(2) d]) simp_all
  then obtain fl where fl: "create_loop E (2 ^ m) n (c + 2 ^ m) (a\<lparr>free_lists := g\<rparr>) = Inr (a\<lparr>free_lists := fl\<rparr>)"
    "shape m (a\<lparr>free_lists := fl\<rparr>)" "FL fl = FL g \<union> set (chunks m (c + 2 ^ m) (n * 2 ^ m))" by auto
  have "chunks m c (Suc n * 2 ^ m) = chunks m c (2 ^ m) @ chunks m (c + 2 ^ m) (n * 2 ^ m)"
    using chunks_aligned_append [OF M d, of "n * 2 ^ m"] W by simp
  with fl g W(1) show ?case by (intro exI [of _ fl]) (auto simp: add32_id)
qed

lemma create_ok:
  assumes "quiet E" "m < 32" "2 ^ m * count < M1"
  shows "\<exists>a. power2_allocator_create E (2 ^ m) count = Inr (Some a) \<and> p2_inv a \<and> inuse_list a = [] \<and>
    max_size a = 2 ^ m \<and> total_size a = 2 ^ m * count"
proof -
  let ?a = "\<lparr>max_size = 2 ^ m, total_size = mul32 (2 ^ m) count, no_free_lists = Suc m,
              free_lists = replicate (Suc m) [], inuse_list = []\<rparr>"
  have W: "2 ^ m * count < W32" using assms(3) by (rule less_M1)
  have sh: "shape m ?a" using assms(2) by (auto simp: shape_def)
  have FL0: "FL (free_lists ?a) = {}" by (auto simp: FL_def simp del: replicate_Suc)
  have "\<exists>fl. create_loop E (2 ^ m) count 0 ?a = Inr (?a\<lparr>free_lists := fl\<rparr>) \<and> shape m (?a\<lparr>free_lists := fl\<rparr>) \<and>
    FL fl = FL (free_lists ?a) \<union> set (chunks m 0 (count * 2 ^ m))"
    using W FL0 by (intro create_loop_ok [OF assms(1) sh]) (simp_all add: mult.commute)
  then obtain fl where fl: "create_loop E (2 ^ m) count 0 ?a = Inr (?a\<lparr>free_lists := fl\<rparr>)"
    "shape m (?a\<lparr>free_lists := fl\<rparr>)" "FL fl = set (chunks m 0 (2 ^ m * count))"
    unfolding FL0 by (auto simp: mult.commute)
  have "power2_allocator_create E (2 ^ m) count = Inr (Some (?a\<lparr>free_lists := fl\<rparr>))"
    using assms fl(1) by (simp add: power2_allocator_create_def is_uint32_power2_iff Let_def)
  moreover have "p2_inv (?a\<lparr>free_lists := fl\<rparr>)"
  proof (rule p2_invI [OF fl(2)])
    show "FL (free_lists (?a\<lparr>free_lists := fl\<rparr>)) =
      free_chunks m 0 (inuse_list (?a\<lparr>free_lists := fl\<rparr>)) (total_size (?a\<lparr>free_lists := fl\<rparr>))"
      using fl(3) W by (simp add: free_chunks_def mul32_id)
  qed (use W assms(3) in \<open>simp_all add: mul32_id\<close>)
  ultimately show ?thesis using W by (intro exI [of _ "?a\<lparr>free_lists := fl\<rparr>"]) (simp add: mul32_id)
qed

section \<open>Copy\<close>

lemma copy_jl_fold:
  "quiet E \<Longrightarrow> \<forall>p \<in> set l. \<forall>q \<in> set d. fst q < fst p \<Longrightarrow> jl_ok (d @ l) \<Longrightarrow>
    jl_fold (\<lambda>index v d. let (Pdest, d') = JLI E d index in
       if Pdest = PJERR then bnd (c_assert E False) (\<lambda>_. Inr (Inl ())) else Inr (Inr (jl_put index v d'))) l d =
    Inr (Inr (d @ l))"
proof (induction l arbitrary: d)
  case (Cons p l)
  obtain i v where p: "p = (i, v)" by (cases p)
  have lt: "\<forall>q \<in> set d. fst q < i" using Cons.prems(2) p by simp
  then have "map_of d i = None" by (fastforce simp: map_of_eq_None_iff)
  moreover have "jl_put i v d = d @ [(i, v)]" using jl_put_append [OF lt, of "[]" v] by simp
  moreover have "jl_fold (\<lambda>index v d. let (Pdest, d') = JLI E d index in
       if Pdest = PJERR then bnd (c_assert E False) (\<lambda>_. Inr (Inl ())) else Inr (Inr (jl_put index v d'))) l (d @ [(i, v)]) =
    Inr (Inr ((d @ [(i, v)]) @ l))"
    using Cons.prems p by (intro Cons.IH) (auto simp: jl_ok_append jl_ok_Cons)
  ultimately show ?case using Cons.prems(1) p by (simp add: JLI_absent)
qed simp

lemma copy_jl_ok: "quiet E \<Longrightarrow> jl_ok l \<Longrightarrow> copy_jl E l [] = Inr (Inr l)"
  unfolding copy_jl_def using copy_jl_fold [of E l "[]"] by (simp add: jl_while_fold)

lemma copy_free_lists_ok:
  assumes "quiet E" "\<forall>l \<in> set (free_lists a). jl_ok l" "n \<le> length (free_lists a)"
    and "length (free_lists b) = length (free_lists a)" "\<forall>i. n \<le> i \<and> i < length (free_lists a) \<longrightarrow> free_lists b ! i = []"
    and "take n (free_lists b) = take n (free_lists a)"
  shows "copy_free_lists E a [n..<length (free_lists a)] b = Inr (Inr (b\<lparr>free_lists := free_lists a\<rparr>))"
  using assms(3-)
proof (induction "length (free_lists a) - n" arbitrary: n b)
  case 0
  then have "n = length (free_lists a)" by simp
  with "0.prems" show ?case by simp
next
  case (Suc d)
  then have n: "n < length (free_lists a)" by simp
  let ?b = "fl_set b n (free_lists a ! n)"
  have "copy_free_lists E a [Suc n..<length (free_lists a)] ?b = Inr (Inr (?b\<lparr>free_lists := free_lists a\<rparr>))"
  proof (rule Suc.hyps(1))
    show "take (Suc n) (free_lists ?b) = take (Suc n) (free_lists a)"
      using Suc.prems n by (simp add: take_Suc_conv_app_nth fl_set_def)
  qed (use Suc n in \<open>auto simp: fl_set_def\<close>)
  then show ?case
    using Suc.prems n assms(1,2)
    by (simp add: upt_conv_Cons fl_get_def copy_jl_ok fl_set_def)
qed

lemma make_copy_ok:
  assumes "quiet E" "p2_inv a"
  shows "power2_allocator_make_copy E (Some a) = Inr (Some a)"
proof -
  obtain m where I: "shape m a" "blocks_ok 0 (inuse_list a) (total_size a)"
    using assms(2) by (elim p2_invE)
  have "copy_free_lists E a [0..<length (free_lists a)] (a\<lparr>free_lists := replicate (length (free_lists a)) [], inuse_list := []\<rparr>) =
      Inr (Inr (a\<lparr>inuse_list := []\<rparr>))"
    using I(1) by (subst copy_free_lists_ok [OF assms(1)]) (auto simp: shape_def simp del: replicate_Suc)
  then show ?thesis
    using assms(1) I copy_jl_ok [OF assms(1) blocks_ok_jl_ok [OF I(2)]]
    by (simp add: power2_allocator_make_copy_def shapeD(2,3) [OF I(1)])
qed

section \<open>The state is determined by what is in use\<close>

lemma FL_determines:
  assumes "shape m a" "shape m b" "FL (free_lists a) = FL (free_lists b)"
  shows "free_lists a = free_lists b"
proof (rule nth_equalityI)
  show len: "length (free_lists a) = length (free_lists b)" using assms(1,2) by (simp add: shape_def)
  fix k assume "k < length (free_lists a)"
  then have k: "k \<le> m" "k < length (free_lists b)" using assms(1) len by (simp_all add: shape_def)
  have "p \<in> set (free_lists a ! k) \<longleftrightarrow> p \<in> set (free_lists b ! k)" for p
    using assms(3) k len by (cases p) (auto simp: FL_def set_eq_iff)
  then show "free_lists a ! k = free_lists b ! k"
    using shapeD(4) [OF assms(1) k(1)] shapeD(4) [OF assms(2) k(1)] by (intro jl_unique) auto
qed

lemma p2_state_determined:
  assumes "p2_inv a" "p2_inv b" "inuse_list a = inuse_list b" "max_size a = max_size b" "total_size a = total_size b"
  shows "a = b"
proof -
  obtain m where A: "shape m a" "max_size a = 2 ^ m" "FL (free_lists a) = free_chunks m 0 (inuse_list a) (total_size a)"
    using assms(1) by (elim p2_invE)
  obtain m' where B: "shape m' b" "max_size b = 2 ^ m'" "FL (free_lists b) = free_chunks m' 0 (inuse_list b) (total_size b)"
    using assms(2) by (elim p2_invE)
  have m: "m' = m" using A(2) B(2) assms(4) by simp
  have "free_lists a = free_lists b" using FL_determines [OF A(1)] B A(3) m assms(3,5) by simp
  moreover have "no_free_lists a = no_free_lists b" using shapeD(2) [OF A(1)] shapeD(2) [OF B(1)] m by simp
  ultimately show ?thesis using assms by (cases a; cases b) simp
qed

end
