(* ===== verification/Power2_Multi.thy ===== *)
theory Power2_Multi
  imports Power2_Create
begin

text \<open>
  \<open>power2_allocator_alloc_multiple\<close> and \<open>power2_allocator_release_multiple\<close>: several blocks at
  a distance of \<open>max_size\<close>, taken from the top free list, with the first one aligned to the
  power of two above the whole run.
\<close>

section \<open>Cutting the front of a chunk\<close>

lemma cut_front:
  assumes E: "quiet E" and m: "shape m a" and t: "t < W32" and blk: "blocks_ok 0 us t"
    and FL: "FL (free_lists a) = free_chunks m 0 us t"
    and mem: "(k, f, s) \<in> FL (free_lists a)" and n: "0 < n" "n \<le> s"
  obtains g where
    "power2_allocator_insert_one_free E (fl_set a k (jl_del f (free_lists a ! k))) (f + n) (s - n) = Inr (0, a\<lparr>free_lists := g\<rparr>)"
    "shape m (a\<lparr>free_lists := g\<rparr>)" "FL g = free_chunks m 0 (jl_put f n us) t" "blocks_ok 0 (jl_put f n us) t"
    "map_of us f = None" "FL (free_lists a) - {(k, f, s)} \<subseteq> FL g" "f + s \<le> t" "k \<le> m"
proof -
  have M: "m < 32" using m by (rule shapeD)
  have km: "k \<le> m" using mem by (simp add: FL_def shapeD(3) [OF m])
  obtain us1 us2 where us: "us = us1 @ us2"
    and c: "(k, f, s) \<in> set (chunks m (blocks_end 0 us1) (next_begin us2 t - blocks_end 0 us1))"
    using mem unfolding FL by (elim free_chunks_mem)
  define b e where "b = blocks_end 0 us1" and "e = next_begin us2 t"
  note blk' = blk [unfolded us]
  have be: "b \<le> e" "e \<le> t" using blk' next_begin_le [of b us2 t] by (auto simp: blocks_ok_append b_def e_def)
  then have "e - b < W32" using t by simp
  from chunks_mem [OF M this c [folded b_def e_def]] be have fs: "b \<le> f" "f + s \<le> e" by auto
  note cut = gap_cut [OF M t blk' c order_refl le_add1, of n]
  let ?l = "jl_del f (free_lists a ! k)"
  let ?fl = "(free_lists a)[k := ?l]"
  have del: "FL ?fl = FL (free_lists a) - {(k, f, s)}" by (rule FL_del [OF m km mem])
  have sh: "shape m (a\<lparr>free_lists := ?fl\<rparr>)"
    using shape_update [OF m jl_ok_del [OF shapeD(4) [OF m km]], of k f] by (simp add: fl_set_def)
  have W: "f + n + (s - n) < W32" using fs be t n(2) by simp
  have gap: "FL ?fl = free_chunks m 0 (us1 @ us2) t - {(k, f, s)}" using del FL us by simp
  have "(k', i, s'') \<notin> FL ?fl" if "(k', i, s') \<in> set (chunks m (f + n) (s - n))" for k' i s' s''
  proof -
    have "s - n < W32" using W by simp
    from chunks_pos [OF M this that] n have "f \<le> i" "i < f + s" by auto
    then show ?thesis using cut(2) [of k' i s''] n(2) unfolding gap by auto
  qed
  then have "\<forall>k' i s' s''. (k', i, s') \<in> set (chunks m (f + n) (s - n)) \<longrightarrow> (k', i, s'') \<notin> FL ?fl" by blast
  from insert_region [OF E sh W this] obtain g where
    g: "power2_allocator_insert_one_free E (a\<lparr>free_lists := ?fl\<rparr>) (f + n) (s - n) = Inr (0, a\<lparr>free_lists := g\<rparr>)"
      "shape m (a\<lparr>free_lists := g\<rparr>)" "FL g = FL ?fl \<union> set (chunks m (f + n) (s - n))" by blast
  have "b \<le> f" "f + n \<le> e" using fs n(2) by auto
  note blk2 = block_in_gap [OF blk' this(1) [unfolded b_def] n(1) this(2) [unfolded e_def]]
  have "FL g = free_chunks m 0 (us1 @ (f, n) # us2) t"
    unfolding g(3) gap free_chunks_insert using cut(1) n(2) by simp
  then show ?thesis
    using g(1,2) g(3) del blk2(1,2,3) us fs be km
    by (intro that [of g]) (auto simp: fl_set_def)
qed

section \<open>The loops of alloc\_int\_v2\<close>

definition put_blocks :: "nat \<Rightarrow> (nat \<times> nat) list \<Rightarrow> jl \<Rightarrow> jl" where
  "put_blocks n r us = fold (\<lambda>(f, s). jl_put f n) r us"

lemma put_blocks_simps [simp]:
  "put_blocks n [] us = us"
  "put_blocks n ((f, s) # r) us = put_blocks n r (jl_put f n us)"
  by (simp_all add: put_blocks_def)

lemma put_blocks_lookup: "i \<notin> fst ` set r \<Longrightarrow> map_of (put_blocks n r us) i = map_of us i"
  by (induction r arbitrary: us) (auto simp: map_of_jl_put)

lemma v2_remove_ok:
  assumes E: "quiet E" and m: "shape m a" and t: "t < W32" and blk: "blocks_ok 0 us t"
    and FL: "FL (free_lists a) = free_chunks m 0 us t" and n: "0 < n"
    and r: "distinct (map fst r)" "\<forall>(f, s) \<in> set r. (k, f, s) \<in> FL (free_lists a) \<and> n \<le> s"
  shows "\<exists>g. v2_remove E k n r a = Inr (a\<lparr>free_lists := g\<rparr>) \<and> shape m (a\<lparr>free_lists := g\<rparr>) \<and>
    FL g = free_chunks m 0 (put_blocks n r us) t \<and> blocks_ok 0 (put_blocks n r us) t \<and>
    (\<forall>f \<in> fst ` set r. map_of us f = None)"
  using m blk FL r
proof (induction r arbitrary: a us)
  case Nil
  then show ?case by (intro exI [of _ "free_lists a"]) simp
next
  case (Cons p r)
  obtain f s where p: "p = (f, s)" by (cases p)
  have mem: "(k, f, s) \<in> FL (free_lists a)" "n \<le> s" using Cons.prems(5) p by auto
  obtain g where g: "power2_allocator_insert_one_free E (fl_set a k (jl_del f (free_lists a ! k))) (f + n) (s - n) = Inr (0, a\<lparr>free_lists := g\<rparr>)"
    "shape m (a\<lparr>free_lists := g\<rparr>)" "FL g = free_chunks m 0 (jl_put f n us) t" "blocks_ok 0 (jl_put f n us) t"
    "map_of us f = None" "FL (free_lists a) - {(k, f, s)} \<subseteq> FL g" "f + s \<le> t" "k \<le> m"
    using cut_front [OF E Cons.prems(1) t Cons.prems(2,3) mem(1) n mem(2)] by blast
  have "\<forall>(f', s') \<in> set r. (k, f', s') \<in> FL g \<and> n \<le> s'"
  proof (clarify, intro conjI)
    fix f' s' assume r: "(f', s') \<in> set r"
    then have "f' \<noteq> f" using Cons.prems(4) p by force
    then show "(k, f', s') \<in> FL g" "n \<le> s'" using g(6) Cons.prems(5) r by auto
  qed
  with g Cons.prems(4) have "\<exists>h. v2_remove E k n r (a\<lparr>free_lists := g\<rparr>) = Inr (a\<lparr>free_lists := g\<rparr>\<lparr>free_lists := h\<rparr>) \<and>
    shape m (a\<lparr>free_lists := g\<rparr>\<lparr>free_lists := h\<rparr>) \<and> FL h = free_chunks m 0 (put_blocks n r (jl_put f n us)) t \<and>
    blocks_ok 0 (put_blocks n r (jl_put f n us)) t \<and> (\<forall>f' \<in> fst ` set r. map_of (jl_put f n us) f' = None)"
    by (intro Cons.IH) simp_all
  then obtain h where h: "v2_remove E k n r (a\<lparr>free_lists := g\<rparr>) = Inr (a\<lparr>free_lists := h\<rparr>)" "shape m (a\<lparr>free_lists := h\<rparr>)"
    "FL h = free_chunks m 0 (put_blocks n r (jl_put f n us)) t" "blocks_ok 0 (put_blocks n r (jl_put f n us)) t"
    "\<forall>f' \<in> fst ` set r. map_of (jl_put f n us) f' = None" by auto
  have look: "map_of (free_lists a ! k) f = Some s"
    using FL_lookup [OF Cons.prems(1) g(8)] mem(1) by simp
  have W: "add32 f n = f + n" "sub32 s n = s - n" using g(7) mem(2) t by (simp_all add: add32_id sub32_id)
  have "v2_remove E k n (p # r) a = Inr (a\<lparr>free_lists := h\<rparr>)"
    using E g(1,8) h(1) look W p fl_get_shape [OF Cons.prems(1) g(8)]
    by (simp add: JLD_present c_assert_I)
  moreover have "map_of us f' = None" if "f' \<in> fst ` set r" for f'
    using h(5) that g(5) by (auto simp: map_of_jl_put split: if_splits)
  ultimately show ?case using h g(5) p by (intro exI [of _ h]) auto
qed

lemma v2_mark_ok:
  assumes E: "quiet E" and k: "k < 32" and r: "distinct (map fst r)" "\<forall>f \<in> fst ` set r. map_of (inuse_list a) f = None"
    and pos: "\<forall>j < length r. fst (r ! j) = f0 + (i + j) * 2 ^ k \<and> fst (r ! j) < W32" "i + length r < W32"
  shows "v2_mark E k n f0 i r a = Inr (0, a\<lparr>inuse_list := put_blocks n r (inuse_list a)\<rparr>)"
  using r pos
proof (induction r arbitrary: a i)
  case (Cons p r)
  obtain f s where p: "p = (f, s)" by (cases p)
  have f: "f = f0 + i * 2 ^ k" "f < W32" using Cons.prems(3) p by force+
  let ?a = "a\<lparr>inuse_list := jl_put f n (inuse_list a)\<rparr>"
  have "v2_mark E k n f0 (Suc i) r ?a = Inr (0, ?a\<lparr>inuse_list := put_blocks n r (inuse_list ?a)\<rparr>)"
  proof (rule Cons.IH)
    show "\<forall>j < length r. fst (r ! j) = f0 + (Suc i + j) * 2 ^ k \<and> fst (r ! j) < W32"
      using Cons.prems(3) by (metis Suc_less_eq add_Suc add_Suc_right length_Cons nth_Cons_Suc)
  qed (use Cons.prems p in \<open>auto simp: map_of_jl_put\<close>)
  moreover have "power2_allocator_mark_inuse E a f n = Inr (0, ?a)"
    using Cons.prems(2) p by (intro mark_inuse_ok [OF E]) simp
  moreover have "f = add32 f0 (mul32 i (2 ^ k))" using f by (simp add: mul32_id add32_id)
  ultimately show ?case using p k by (simp add: shl1_id c_assert_res_def)
qed simp

lemma v2_contiguous_ok:
  assumes "quiet E" "\<forall>(i, v) \<in> set l. i + v < W32" "jl_ok l" "k < 31" "(index, v) \<in> set l" "p = PV index v"
  shows "\<exists>r. v2_contiguous E l k n c p index = Inr r \<and> length r \<le> c \<and>
    (\<forall>j < length r. r ! j \<in> set l \<and> fst (r ! j) = index + j * 2 ^ k \<and> n \<le> snd (r ! j)) \<and>
    (length r < c \<longrightarrow> (\<forall>s. (index + length r * 2 ^ k, s) \<in> set l \<longrightarrow> s < n))"
  using assms(5,6)
proof (induction c arbitrary: index v p)
  case (Suc c)
  have W: "index + v < W32" using assms(2) Suc.prems(1) by auto
  then have u: "u32 index = index" "u32 v = v" by (simp_all add: u32_id)
  have uniq: "s = v" if "(index, s) \<in> set l" for s
    using that Suc.prems(1) assms(3) by (metis map_of_jl option.inject)
  show ?case
  proof (cases "v < n")
    case True
    with Suc.prems(2) uniq show ?thesis by auto
  next
    case False
    let ?i = "index + 2 ^ k"
    have k: "(2::nat) ^ k < 2 ^ 31" using assms(4) by (intro power_strict_increasing) simp_all
    then have m: "(index + sext32 (2 ^ k)) mod W64 = ?i" using W by (simp add: sext32_def W32_def W64_def)
    have step: "v2_contiguous E l k n (Suc c) p index =
      bnd (v2_contiguous E l k n c (JLG E l ?i) ?i) (\<lambda>r. Inr ((index, v) # r))"
      using False Suc.prems(2) assms(4) u m by (simp add: shl1_id Let_def)
    show ?thesis
    proof (cases "map_of l ?i")
      case None
      then have "JLG E l ?i = PNULL" using assms(1) by (simp add: JLG_def)
      then have "v2_contiguous E l k n c (JLG E l ?i) ?i = Inr []" by (cases c) simp_all
      moreover have "(?i, s) \<notin> set l" for s
        using None map_of_jl [OF assms(3)] by (metis option.distinct(1))
      ultimately show ?thesis using step Suc.prems(1) False by (intro exI [of _ "[(index, v)]"]) auto
    next
      case (Some w)
      then have "JLG E l ?i = PV ?i w" "(?i, w) \<in> set l" using assms(1) by (auto simp: JLG_def dest: map_of_SomeD)
      from Suc.IH [OF this(2,1)] obtain r where r: "v2_contiguous E l k n c (JLG E l ?i) ?i = Inr r" "length r \<le> c"
        "\<forall>j < length r. r ! j \<in> set l \<and> fst (r ! j) = ?i + j * 2 ^ k \<and> n \<le> snd (r ! j)"
        "length r < c \<longrightarrow> (\<forall>s. (?i + length r * 2 ^ k, s) \<in> set l \<longrightarrow> s < n)" by blast
      have "((index, v) # r) ! j \<in> set l \<and> fst (((index, v) # r) ! j) = index + j * 2 ^ k \<and> n \<le> snd (((index, v) # r) ! j)"
        if "j < length ((index, v) # r)" for j
        using that r(3) False Suc.prems(1) by (cases j) auto
      with r step show ?thesis by (intro exI [of _ "(index, v) # r"]) (simp add: ac_simps)
    qed
  qed
qed simp

text \<open>A run: \<open>c\<close> entries of a list at distance \<open>2 ^ k\<close>, each with room for \<open>n\<close> units.\<close>

definition run_at :: "jl \<Rightarrow> nat \<Rightarrow> nat \<Rightarrow> nat \<Rightarrow> nat \<Rightarrow> bool" where
  "run_at l k n c p \<longleftrightarrow> (\<forall>j < c. \<exists>s. (p + j * 2 ^ k, s) \<in> set l \<and> n \<le> s)"

lemma v2_search_ok:
  assumes E: "quiet E" and l: "jl_ok l" "\<forall>(i, v) \<in> set l. i < t \<and> i + v < W32" and k: "k < 31" "0 < count"
    and align: "0 < align" "t + align \<le> W32"
  shows "index < W32 \<Longrightarrow> W32 \<le> index + fuel \<Longrightarrow> align dvd index \<Longrightarrow>
    (v2_search E l k n count align fuel index = Inr None \<and>
       (\<forall>p. align dvd p \<and> index \<le> p \<longrightarrow> \<not> run_at l k n count p)) \<or>
    (\<exists>r p. v2_search E l k n count align fuel index = Inr (Some r) \<and> length r = count \<and> align dvd p \<and>
       (\<forall>j < count. r ! j \<in> set l \<and> fst (r ! j) = p + j * 2 ^ k \<and> n \<le> snd (r ! j)) \<and>
       (\<forall>q. align dvd q \<and> index \<le> q \<and> run_at l k n count q \<longrightarrow> p \<le> q))"
proof (induction fuel arbitrary: index)
  case (Suc fuel)
  show ?case
  proof (cases "jl_first l index")
    case None
    then have "\<forall>(i, v) \<in> set l. i < index" by (auto simp: jl_first_def find_None_all)
    then have "\<not> run_at l k n count p" if "index \<le> p" for p
      using that k(2) unfolding run_at_def by fastforce
    moreover have "JLF E l index = PNULL" using E None by (simp add: JLF_def)
    ultimately show ?thesis by (simp add: Let_def)
  next
    case (Some q)
    obtain i v where q: "q = (i, v)" by (cases q)
    with find_SomeD [OF Some [unfolded jl_first_def]] have mem: "(i, v) \<in> set l" "index \<le> i" by auto
    have least: "i \<le> i'" if "(i', v') \<in> set l" "index \<le> i'" for i' v'
      using find_sorted_least [OF l(1) [unfolded jl_ok_def], of "\<lambda>x. index \<le> x" i v] Some q that
      by (force simp: jl_first_def)
    have F: "JLF E l index = PV i v" using E Some q by (simp add: JLF_def)
    have "i < t" using l(2) mem(1) by auto
    then have idx: "index + align < W32" using mem(2) align(2) by linarith
    then have nx: "u32 (index + align) = index + align" by (rule u32_id)
    have "align dvd index + align" using Suc.prems(3) by simp
    moreover have "W32 \<le> index + align + fuel" using Suc.prems(2) align(1) by linarith
    ultimately have IH: "(v2_search E l k n count align fuel (index + align) = Inr None \<and>
       (\<forall>p. align dvd p \<and> index + align \<le> p \<longrightarrow> \<not> run_at l k n count p)) \<or>
      (\<exists>r p. v2_search E l k n count align fuel (index + align) = Inr (Some r) \<and> length r = count \<and> align dvd p \<and>
       (\<forall>j < count. r ! j \<in> set l \<and> fst (r ! j) = p + j * 2 ^ k \<and> n \<le> snd (r ! j)) \<and>
       (\<forall>q. align dvd q \<and> index + align \<le> q \<and> run_at l k n count q \<longrightarrow> p \<le> q))"
      using idx by (intro Suc.IH)
    have skip: ?thesis if "v2_search E l k n count align (Suc fuel) index = v2_search E l k n count align fuel (index + align)"
      and here: "\<not> run_at l k n count index"
    proof -
      have "index + align \<le> p \<or> p = index" if "align dvd p" "index \<le> p" for p
      proof (rule ccontr)
        assume c: "\<not> (index + align \<le> p \<or> p = index)"
        have "align dvd p - index" using that(1) Suc.prems(3) by (rule dvd_diff_nat)
        moreover have "0 < p - index" "p - index < align" using c that(2) by linarith+
        ultimately show False by (meson nat_dvd_not_less)
      qed
      then have "(align dvd p \<and> index \<le> p \<and> run_at l k n count p) =
          (align dvd p \<and> index + align \<le> p \<and> run_at l k n count p)" for p
        using here by (metis add_leD1)
      note eq = this
      have "(\<forall>p. align dvd p \<and> index \<le> p \<longrightarrow> \<not> run_at l k n count p) =
          (\<forall>p. align dvd p \<and> index + align \<le> p \<longrightarrow> \<not> run_at l k n count p)"
        using eq by blast
      then show ?thesis using IH unfolding that(1) eq by simp
    qed
    show ?thesis
    proof (cases "i mod align = 0")
      case False
      then have "i \<noteq> index" using Suc.prems(3) by auto
      then have "(index, s) \<notin> set l" for s using least [of index s] mem(2) by auto
      then have "\<not> run_at l k n count index" using k(2) by (auto simp: run_at_def)
      with F False nx show ?thesis by (intro skip) (simp_all add: Let_def)
    next
      case True
      have bnd: "\<forall>(i, v) \<in> set l. i + v < W32" using l(2) by auto
      from v2_contiguous_ok [OF E bnd l(1) k(1) mem(1) refl, of n count] obtain r where
        r: "v2_contiguous E l k n count (PV i v) i = Inr r" "length r \<le> count"
          "\<forall>j < length r. r ! j \<in> set l \<and> fst (r ! j) = i + j * 2 ^ k \<and> n \<le> snd (r ! j)"
          "length r < count \<longrightarrow> (\<forall>s. (i + length r * 2 ^ k, s) \<in> set l \<longrightarrow> s < n)" by blast
      show ?thesis
      proof (cases "length r = count")
        case True
        with r(1) F \<open>i mod align = 0\<close> have "v2_search E l k n count align (Suc fuel) index = Inr (Some r)"
          by (simp add: Let_def)
        moreover have "align dvd i" using \<open>i mod align = 0\<close> by (simp add: mod_eq_0_iff_dvd)
        moreover have "i \<le> q" if q: "index \<le> q" "run_at l k n count q" for q
        proof -
          obtain s where "(q, s) \<in> set l" using q(2) k(2) by (auto simp: run_at_def)
          with least q(1) show ?thesis by blast
        qed
        ultimately show ?thesis using r(3) True by blast
      next
        case False
        have "\<not> run_at l k n count index"
        proof
          assume run: "run_at l k n count index"
          then obtain s where "(index, s) \<in> set l" using k(2) by (auto simp: run_at_def)
          with least [of index s] mem(2) have "i = index" by simp
          moreover have "length r < count" using r(2) False by simp
          ultimately show False using run r(4) unfolding run_at_def by (meson not_le)
        qed
        with r(1) F True False nx show ?thesis by (intro skip) (simp_all add: Let_def)
      qed
    qed
  qed
qed simp

section \<open>alloc\_multiple\<close>

lemma chunk_region_free:
  assumes "p2_inv a" "(k, f, s) \<in> FL (free_lists a)" "0 < n" "n \<le> s"
  shows "region_free a f n"
proof -
  have ok: "blocks_ok 0 (inuse_list a) (total_size a)" using assms(1) by (elim p2_invE)
  have "x \<in> free_units a" if "x \<in> {f..<f + n}" for x
  proof -
    have "x \<in> {f..<f + s}" using that assms(4) by simp
    then show ?thesis unfolding free_units_def using assms(2) by blast
  qed
  then have "x \<notin> used a" if "x \<in> {f..<f + n}" for x using that free_units_iff [OF assms(1)] by blast
  then have "{f..<f + n} \<inter> used a = {}" by blast
  moreover have "f + n \<le> total_size a" using FL_bounds [OF assms(1,2)] assms(4) by simp
  ultimately show ?thesis by (simp add: region_free_used [OF assms(3) ok])
qed

lemma top_chunk:
  assumes "p2_inv a" "0 < n" "n \<le> max_size a" "max_size a = 2 ^ log2_uint32_ceil n" "2 ^ log2_uint32_ceil n dvd q"
    "region_free a q n"
  shows "\<exists>s. (log2_uint32_ceil n, q, s) \<in> FL (free_lists a) \<and> n \<le> s"
proof -
  let ?L = "log2_uint32_ceil n"
  obtain m where m: "shape m a" "max_size a = 2 ^ m" using assms(1) by (elim p2_invE)
  obtain k f s where c: "(k, f, s) \<in> FL (free_lists a)" "?L \<le> k" "n \<le> s" "f \<le> q" "q < f + s" "2 ^ k dvd f" "s \<le> 2 ^ k"
    using aligned_region_chunk [OF assms(1,2,3,5,6)] by blast
  have "m = ?L" using m(2) assms(4) by simp
  moreover have "k \<le> m" using c(1) by (simp add: FL_def shapeD(3) [OF m(1)])
  ultimately have k: "k = ?L" using c(2) by simp
  then have "2 ^ k dvd q - f" using assms(5) c(6) by (intro dvd_diff_nat) simp
  moreover have "q - f < 2 ^ k" using c(4,5,7) by linarith
  ultimately have "q = f" using c(4) by (metis diff_is_0_eq' nat_dvd_not_less zero_less_diff le_neq_implies_less)
  with c k show ?thesis by blast
qed

lemma set_put_blocks:
  "jl_ok us \<Longrightarrow> distinct (map fst r) \<Longrightarrow> \<forall>f \<in> fst ` set r. map_of us f = None \<Longrightarrow>
    jl_ok (put_blocks n r us) \<and> set (put_blocks n r us) = set us \<union> (\<lambda>p. (fst p, n)) ` set r"
proof (induction r arbitrary: us)
  case (Cons p r)
  obtain f s where p: "p = (f, s)" by (cases p)
  have "jl_ok (put_blocks n r (jl_put f n us)) \<and>
    set (put_blocks n r (jl_put f n us)) = set (jl_put f n us) \<union> (\<lambda>p. (fst p, n)) ` set r"
    using Cons.prems p by (intro Cons.IH) (auto simp: map_of_jl_put)
  then show ?case using Cons.prems p by (auto simp: jl_put_absent_mem)
qed simp

lemma alloc_int_v2_cases:
  fixes a :: power2_allocator and n count :: nat
  defines "k \<equiv> log2_uint32_ceil n"
  assumes E: "quiet E" and inv: "p2_inv a" and n: "0 < n" "max_size a = 2 ^ k" "n \<le> 2 ^ k" and count: "0 < count"
    "count < W32" "k < 31" and align: "0 < align" "2 ^ k dvd align" "total_size a + align \<le> W32"
  shows "(\<exists>p a'. power2_allocator_alloc_int_v2 E a k n count align = Inr (s32 p, a') \<and> p2_inv a' \<and> align dvd p \<and>
      p < M1 \<and> (\<forall>j < count. region_free a (p + j * 2 ^ k) n) \<and> max_size a' = max_size a \<and> total_size a' = total_size a \<and>
      set (inuse_list a') = set (inuse_list a) \<union> (\<lambda>j. (p + j * 2 ^ k, n)) ` {0..<count} \<and>
      (\<forall>q. align dvd q \<and> (\<forall>j < count. region_free a (q + j * 2 ^ k) n) \<longrightarrow> p \<le> q)) \<or>
    (power2_allocator_alloc_int_v2 E a k n count align = Inr (- 1, a) \<and>
      (\<forall>p. align dvd p \<longrightarrow> (\<exists>j < count. \<not> region_free a (p + j * 2 ^ k) n)))"
proof -
  let ?t = "total_size a"
  obtain m where I: "shape m a" "m < 32" "max_size a = 2 ^ m" "2 ^ m dvd ?t" "?t < W32" "blocks_ok 0 (inuse_list a) ?t"
      "FL (free_lists a) = free_chunks m 0 (inuse_list a) ?t"
    using inv by (elim p2_invE)
  have mk: "m = k" using I(3) n(2) by simp
  then have k: "k < 32" "k \<le> m" "sub32 (no_free_lists a) 1 = k"
    using I(1,2) sub32_id [of 1 "Suc m"] by (auto simp: shapeD(2) W32_def)
  let ?l = "free_lists a ! k"
  have lok: "jl_ok ?l" by (rule shapeD(4) [OF I(1) k(2)])
  have mem: "(k, i, s) \<in> FL (free_lists a) \<longleftrightarrow> (i, s) \<in> set ?l" for i s
    using k(2) by (simp add: FL_def shapeD(3) [OF I(1)])
  have lt: "i < ?t \<and> i + s < W32" if "(i, s) \<in> set ?l" for i s
  proof -
    have "(k, i, s) \<in> FL (free_lists a)" using that mem by blast
    from FL_bounds [OF inv this] I(5) show ?thesis by linarith
  qed
  have start: "power2_allocator_alloc_int_v2 E a k n count align =
      bnd (v2_search E ?l k n count align (Suc W32) 0) (\<lambda>found.
      case found of None \<Rightarrow> Inr (- 1, a)
      | Some r \<Rightarrow> bnd (v2_remove E k n r a) (\<lambda>a. bnd (v2_mark E k n (fst (hd r)) 0 r a) (\<lambda>(rc, a).
          if rc \<noteq> 0 then Inr (- 1, a) else Inr (s32 (fst (hd r)), a))))"
    using k count(1) n(3) fl_get_shape [OF I(1) k(2)]
    by (simp add: power2_allocator_alloc_int_v2_def shl1_id c_assert_res_def del: v2_search.simps)
  have run: "run_at ?l k n count p" if p: "align dvd p" "\<forall>j < count. region_free a (p + j * 2 ^ k) n" for p
  proof -
    have "\<exists>s. (p + j * 2 ^ k, s) \<in> set ?l \<and> n \<le> s" if "j < count" for j
      using top_chunk [OF inv n(1), of "p + j * 2 ^ k"] n(2,3) that p(2) dvd_trans [OF align(2) p(1)] mem
      by (simp add: k_def)
    then show ?thesis by (simp add: run_at_def)
  qed
  have z: "(0 :: nat) < W32" "W32 \<le> 0 + Suc W32" "align dvd (0 :: nat)" by simp_all
  have "\<forall>(i, v) \<in> set ?l. i < ?t \<and> i + v < W32" using lt by blast
  from v2_search_ok [OF E lok this count(3,1) align(1,3) z, of n]
  show ?thesis
  proof (elim disjE exE conjE)
    assume s: "v2_search E ?l k n count align (Suc W32) 0 = Inr None"
      and none: "\<forall>p. align dvd p \<and> 0 \<le> p \<longrightarrow> \<not> run_at ?l k n count p"
    have "\<exists>j < count. \<not> region_free a (p + j * 2 ^ k) n" if "align dvd p" for p
      using run [OF that] none that by blast
    with s show ?thesis unfolding start by (simp del: v2_search.simps)
  next
    fix r p
    assume s: "v2_search E ?l k n count align (Suc W32) 0 = Inr (Some r)" and len: "length r = count"
      and p: "align dvd p" and r: "\<forall>j < count. r ! j \<in> set ?l \<and> fst (r ! j) = p + j * 2 ^ k \<and> n \<le> snd (r ! j)"
    assume least: "\<forall>q. align dvd q \<and> 0 \<le> q \<and> run_at ?l k n count q \<longrightarrow> p \<le> q"
    have dist: "distinct (map fst r)"
      using r len by (simp add: distinct_conv_nth)
    have inl: "q \<in> set ?l \<and> n \<le> snd q" if "q \<in> set r" for q
      using that r len by (auto simp: in_set_conv_nth)
    then have "\<forall>(f, s) \<in> set r. (k, f, s) \<in> FL (free_lists a) \<and> n \<le> s" using mem by fastforce
    from v2_remove_ok [OF E I(1,5,6,7) n(1) dist this] obtain g where
      g: "v2_remove E k n r a = Inr (a\<lparr>free_lists := g\<rparr>)" "shape m (a\<lparr>free_lists := g\<rparr>)"
        "FL g = free_chunks m 0 (put_blocks n r (inuse_list a)) ?t" "blocks_ok 0 (put_blocks n r (inuse_list a)) ?t"
        "\<forall>f \<in> fst ` set r. map_of (inuse_list a) f = None" by blast
    have hd: "fst (hd r) = p" using r count(1) len by (cases r) auto
    let ?a' = "a\<lparr>free_lists := g, inuse_list := put_blocks n r (inuse_list a)\<rparr>"
    have pos: "\<forall>j < length r. fst (r ! j) = p + (0 + j) * 2 ^ k \<and> fst (r ! j) < W32"
    proof (intro allI impI)
      fix j assume j: "j < length r"
      obtain f s where fs: "r ! j = (f, s)" by (cases "r ! j")
      with r j len have "(f, s) \<in> set ?l" "f = p + j * 2 ^ k" by fastforce+
      with lt [of f s] I(5) fs show "fst (r ! j) = p + (0 + j) * 2 ^ k \<and> fst (r ! j) < W32" by simp
    qed
    have "v2_mark E k n p 0 r (a\<lparr>free_lists := g\<rparr>) = Inr (0, ?a')"
      using v2_mark_ok [OF E k(1) dist _ pos, of "a\<lparr>free_lists := g\<rparr>" n] g(5) count(2) len by simp
    then have "power2_allocator_alloc_int_v2 E a k n count align = Inr (s32 p, ?a')"
      unfolding start using s g(1) hd by (simp del: v2_search.simps)
    moreover have "p2_inv ?a'"
      using g I p2_inv_total [OF inv] by (intro p2_invI [of m]) (simp_all add: shape_def)
    moreover have rf: "region_free a (p + j * 2 ^ k) n" if "j < count" for j
    proof -
      obtain f s where fs: "r ! j = (f, s)" by (cases "r ! j")
      with r that have *: "(f, s) \<in> set ?l" "f = p + j * 2 ^ k" "n \<le> s" by fastforce+
      then have "(k, f, s) \<in> FL (free_lists a)" using mem by blast
      from chunk_region_free [OF inv this n(1) *(3)] *(2) show ?thesis by simp
    qed
    moreover have "p < M1"
      using rf [of 0] count(1) n(1) p2_inv_total [OF inv] by (simp add: region_free_def)
    moreover have "set (inuse_list ?a') = set (inuse_list a) \<union> (\<lambda>j. (p + j * 2 ^ k, n)) ` {0..<count}"
    proof -
      have "(\<lambda>q. (fst q, n)) ` set r = (\<lambda>j. (p + j * 2 ^ k, n)) ` {0..<count}"
      proof -
        have "r = map (\<lambda>j. r ! j) [0..<count]" using len by (metis map_nth)
        then have "(\<lambda>q. (fst q, n)) ` set r = (\<lambda>j. (fst (r ! j), n)) ` {0..<count}"
          by (metis (no_types, lifting) image_cong image_image set_map set_upt)
        also have "\<dots> = (\<lambda>j. (p + j * 2 ^ k, n)) ` {0..<count}" using r by (intro image_cong) auto
        finally show ?thesis .
      qed
      then show ?thesis using set_put_blocks [OF blocks_ok_jl_ok [OF I(6)] dist g(5), of n] by simp
    qed
    moreover have "\<forall>q. align dvd q \<and> (\<forall>j < count. region_free a (q + j * 2 ^ k) n) \<longrightarrow> p \<le> q"
      using least run by blast
    ultimately show ?thesis using p by (intro disjI1 exI [of _ p] exI [of _ ?a']) simp
  qed
qed

lemma alloc_multiple_cases:
  fixes a :: power2_allocator and n count :: nat
  defines "k \<equiv> log2_uint32_ceil n"
  defines "align \<equiv> 2 ^ log2_uint32_ceil (2 ^ k * count)"
  assumes E: "quiet E" and inv: "p2_inv a" and n: "0 < n" "max_size a = 2 ^ k" "n \<le> 2 ^ k" and count: "1 < count"
    "2 ^ k * count < W32" "total_size a + align \<le> W32"
  shows "(\<exists>p a'. power2_allocator_alloc_multiple E (Some a) n count = Inr (s32 p, Some a') \<and> p2_inv a' \<and> align dvd p \<and>
      (\<forall>j < count. region_free a (p + j * 2 ^ k) n) \<and> max_size a' = max_size a \<and> total_size a' = total_size a \<and>
      set (inuse_list a') = set (inuse_list a) \<union> (\<lambda>j. (p + j * 2 ^ k, n)) ` {0..<count} \<and>
      (\<forall>q. align dvd q \<and> (\<forall>j < count. region_free a (q + j * 2 ^ k) n) \<longrightarrow> p \<le> q)) \<or>
    (power2_allocator_alloc_multiple E (Some a) n count = Inr (- 1, Some a) \<and>
      (total_size a < 2 ^ k * count \<or> (\<forall>p. align dvd p \<longrightarrow> (\<exists>j < count. \<not> region_free a (p + j * 2 ^ k) n))))"
proof -
  obtain m where I: "shape m a" "m < 32" "max_size a = 2 ^ m" using inv by (elim p2_invE)
  have mk: "m = k" using I(3) n(2) by simp
  then have k: "k < 32" "sub32 (no_free_lists a) 1 = k"
    using I(1,2) sub32_id [of 1 "Suc m"] by (auto simp: shapeD(2) W32_def)
  have tot: "mul32 (2 ^ k) count = 2 ^ k * count" using count(2) by (rule mul32_id)
  show ?thesis
  proof (cases "total_size a < 2 ^ k * count")
    case True
    then have "power2_allocator_alloc_multiple E (Some a) n count = Inr (- 1, Some a)"
      using count(1) k(1) tot by (simp add: power2_allocator_alloc_multiple_def k_def [symmetric] shl1_id)
    with True show ?thesis by blast
  next
    case False
    have "2 ^ k * 1 \<le> 2 ^ k * count" using count(1) by (intro mult_le_mono2) simp
    then have k1: "2 ^ k \<le> 2 ^ k * count" by simp
    have pos: "0 < total_size a" using False count(1) by (metis gr0I mult_is_0 not_less_zero power_not_zero not_less le_zero_eq zero_neq_numeral)
    then have "(2::nat) ^ log2_uint32_ceil (2 ^ k * count) < 2 ^ 32" using count(3) by (simp add: align_def W32_pow)
    then have a32: "log2_uint32_ceil (2 ^ k * count) < 32"
      by (rule power_less_imp_less_exp [rotated]) simp
    have kle: "k \<le> log2_uint32_ceil (2 ^ k * count)" using log2_ceil_ge_exp [OF k1 count(2)] .
    then have al: "0 < align" "2 ^ k dvd align" by (simp_all add: align_def le_imp_power_dvd)
    have "1 * count \<le> 2 ^ k * count" by (intro mult_le_mono1) simp
    then have cW: "0 < count" "count < W32" using count(1,2) by linarith+
    have "2 ^ k * 2 \<le> 2 ^ k * count" using count(1) by (intro mult_le_mono2) simp
    then have "2 ^ k * 2 < (2::nat) ^ 32" using count(2) unfolding W32_pow by (rule le_less_trans)
    then have "(2::nat) ^ Suc k < 2 ^ 32" by (simp only: power_Suc2)
    then have "Suc k < 32" by (rule power_less_imp_less_exp [rotated]) simp
    then have k31: "k < 31" by simp
    have eq: "power2_allocator_alloc_multiple E (Some a) n count =
        bnd (power2_allocator_alloc_int_v2 E a k n count align) (\<lambda>(alloc_index, a).
          if u32_of_int alloc_index = M1 then Inr (- 1, Some a) else Inr (alloc_index, Some a))"
      using count(1) k tot False a32
      by (simp add: power2_allocator_alloc_multiple_def k_def [symmetric] shl1_id align_def)
    have m1: "u32_of_int (- 1) = M1" by (simp add: u32_of_int_def M1_def W32_def)
    from alloc_int_v2_cases [OF E inv n(1) n(2,3) [unfolded k_def] cW k31 [unfolded k_def] al(1) al(2) [unfolded k_def] count(3), folded k_def]
    show ?thesis
    proof (elim disjE exE conjE)
      fix p a' assume r: "power2_allocator_alloc_int_v2 E a k n count align = Inr (s32 p, a')" "p < M1"
        and rest: "p2_inv a'" "align dvd p" "\<forall>j < count. region_free a (p + j * 2 ^ k) n" "max_size a' = max_size a"
          "total_size a' = total_size a" "set (inuse_list a') = set (inuse_list a) \<union> (\<lambda>j. (p + j * 2 ^ k, n)) ` {0..<count}"
          "\<forall>q. align dvd q \<and> (\<forall>j < count. region_free a (q + j * 2 ^ k) n) \<longrightarrow> p \<le> q"
      have "power2_allocator_alloc_multiple E (Some a) n count = Inr (s32 p, Some a')"
        using r less_M1 [OF r(2)] by (simp add: eq)
      with rest show ?thesis by blast
    next
      assume "power2_allocator_alloc_int_v2 E a k n count align = Inr (- 1, a)"
        and none: "\<forall>p. align dvd p \<longrightarrow> (\<exists>j < count. \<not> region_free a (p + j * 2 ^ k) n)"
      then have "power2_allocator_alloc_multiple E (Some a) n count = Inr (- 1, Some a)" by (simp add: eq m1)
      with none show ?thesis by blast
    qed
  qed
qed

section \<open>release\_multiple\<close>

lemma release_multiple_step:
  fixes a :: power2_allocator
  assumes E: "quiet E" and inv: "p2_inv a" and mem: "(i, n) \<in> set (inuse_list a)"
    and al: "max_size a dvd i"
  obtains ni ns f1 f2 where "power2_allocator_get_next_inuse_block E a i = Inr (ni, ns)"
    "power2_allocator_remove_free_index E a (i + n) ((if ni = M1 then total_size a else ni) - (i + n)) = Inr (0, a\<lparr>free_lists := f1\<rparr>)"
    "power2_allocator_insert_one_free E (a\<lparr>free_lists := f1\<rparr>) i ((if ni = M1 then total_size a else ni) - i) = Inr (0, a\<lparr>free_lists := f2\<rparr>)"
    "i + n \<le> (if ni = M1 then total_size a else ni)" "(if ni = M1 then total_size a else ni) \<le> total_size a"
    "p2_inv (a\<lparr>free_lists := f2, inuse_list := jl_del i (inuse_list a)\<rparr>)"
proof -
  let ?t = "total_size a"
  obtain m where I: "shape m a" "m < 32" "max_size a = 2 ^ m" "2 ^ m dvd ?t" "?t < W32" "blocks_ok 0 (inuse_list a) ?t"
      "FL (free_lists a) = free_chunks m 0 (inuse_list a) ?t"
    using inv by (elim p2_invE)
  obtain us1 us2 where us: "inuse_list a = us1 @ (i, n) # us2"
    and lt: "\<forall>p \<in> set us1. fst p < i" and gt: "\<forall>p \<in> set us2. i < fst p"
    and n: "0 < n" "blocks_end 0 us1 \<le> i" "i + n \<le> next_begin us2 ?t" and blk: "blocks_ok 0 (us1 @ us2) ?t"
    using inuse_split [OF I(6) mem] by blast
  define b e where "b = blocks_end 0 us1" and "e = next_begin us2 ?t"
  have eb: "e \<le> ?t" using blk next_begin_le by (auto simp: blocks_ok_append e_def)
  have bnd: "b \<le> i" "i + n \<le> e" using n by (simp_all add: b_def e_def)
  have us': "inuse_list a = (us1 @ [(i, n)]) @ us2" "blocks_ok 0 ((us1 @ [(i, n)]) @ us2) ?t" using us I(6) by simp_all
  obtain ni ns where nxt: "power2_allocator_get_next_inuse_block E a i = Inr (ni, ns)"
    "(if ni = M1 then ?t else ni) = e"
    unfolding e_def using lt gt by (elim next_block [OF E us'(2) I(5) us'(1), rotated -1]) auto
  have W: "i + n + (e - (i + n)) < W32" "i + (e - i) < W32" "i - b + (e - i) < W32" "e - i < W32" "b + (i - b) \<le> i"
    using bnd eb I(5) by linarith+
  have FL: "FL (free_lists a) = other_chunks m 0 us1 us2 ?t \<union> set (chunks m b (i - b)) \<union> set (chunks m (i + n) (e - (i + n)))"
    by (simp add: I(7) us free_chunks_insert b_def e_def)
  then have "set (chunks m (i + n) (e - (i + n))) \<subseteq> FL (free_lists a)" by blast
  from remove_free_index_ok [OF E I(1) W(1) this] obtain f1 where
    f1: "power2_allocator_remove_free_index E a (i + n) (e - (i + n)) = Inr (0, a\<lparr>free_lists := f1\<rparr>)"
      "shape m (a\<lparr>free_lists := f1\<rparr>)" "FL f1 = FL (free_lists a) - set (chunks m (i + n) (e - (i + n)))" by blast
  have fresh: "(k, j, s') \<notin> other_chunks m 0 us1 us2 ?t \<union> set (chunks m b (i - b))"
    if "(k, j, s) \<in> set (chunks m i (e - i))" for k j s s'
    using chunks_not_other [OF I(2,5) blk, of i "e - i" k j s s'] chunks_regions_apart' [OF I(2) W(2) W(5) that] that n(2) bnd
    by (auto simp: e_def)
  then have "\<forall>k j s s'. (k, j, s) \<in> set (chunks m i (e - i)) \<longrightarrow> (k, j, s') \<notin> FL f1"
    unfolding f1(3) FL by blast
  from insert_region [OF E f1(2) W(2) this] obtain f2 where
    f2: "power2_allocator_insert_one_free E (a\<lparr>free_lists := f1\<rparr>) i (e - i) = Inr (0, a\<lparr>free_lists := f2\<rparr>)"
      "shape m (a\<lparr>free_lists := f2\<rparr>)" "FL f2 = FL f1 \<union> set (chunks m i (e - i))" by blast
  have other: "(k, j, s') \<notin> other_chunks m 0 us1 us2 ?t \<union> set (chunks m b (i - b))"
    if "(k, j, s) \<in> set (chunks m (i + n) (e - (i + n)))" for k j s s'
    using chunks_not_other [OF I(2,5) blk, of "i + n" "e - (i + n)" k j s s'] that n(2) bnd
      chunks_regions_apart' [OF I(2) W(1) _ that, of b "i - b"] by (auto simp: e_def)
  then have F1: "FL f1 = other_chunks m 0 us1 us2 ?t \<union> set (chunks m b (i - b))"
    unfolding f1(3) FL by (auto; blast)
  have "b + (i - b) = i" "i - b + (e - i) = e - b" using bnd by simp_all
  then have app: "chunks m b (e - b) = chunks m b (i - b) @ chunks m i (e - i)"
    using chunks_aligned_append [OF I(2) _ W(3), of b] al I(3) by simp
  have F2: "FL f2 = free_chunks m 0 (us1 @ us2) ?t"
    unfolding f2(3) F1 free_chunks_split b_def [symmetric] e_def [symmetric] app by auto
  have del: "jl_del i (inuse_list a) = us1 @ us2"
    using lt by (simp add: us) (intro jl_del_append; auto)
  have "p2_inv (a\<lparr>free_lists := f2, inuse_list := jl_del i (inuse_list a)\<rparr>)"
  proof (rule p2_invI [of m])
    show "shape m (a\<lparr>free_lists := f2, inuse_list := jl_del i (inuse_list a)\<rparr>)" using f2(2) by (simp add: shape_def)
  qed (use I F2 blk del p2_inv_total [OF inv] in auto)
  with nxt(1) f1(1) f2(1) bnd(2) eb show ?thesis
    by (intro that [of ni ns f1 f2]) (simp_all only: nxt(2))
qed

lemma release_multiple_loop_ok:
  fixes a :: power2_allocator
  assumes E: "quiet E" and k: "k < 32"
  shows "p2_inv a \<Longrightarrow> max_size a = 2 ^ k \<Longrightarrow> 2 ^ k dvd i \<Longrightarrow> \<forall>j < c. (i + j * 2 ^ k, n) \<in> set (inuse_list a) \<Longrightarrow>
    \<exists>a'. release_multiple_loop E k n c i a = Inr (0, a') \<and> p2_inv a' \<and> max_size a' = max_size a \<and>
      total_size a' = total_size a \<and>
      set (inuse_list a') = set (inuse_list a) - (\<lambda>j. (i + j * 2 ^ k, n)) ` {0..<c}"
proof (induction c arbitrary: i a)
  case 0
  then show ?case by simp
next
  case (Suc c)
  have mem: "(i, n) \<in> set (inuse_list a)" using Suc.prems(4) by (auto dest: spec [of _ 0])
  have ok: "blocks_ok 0 (inuse_list a) (total_size a)" and t: "total_size a < W32" using Suc.prems(1) by (auto elim: p2_invE)
  have jl: "jl_ok (inuse_list a)" using ok by (rule blocks_ok_jl_ok)
  have "max_size a dvd i" using Suc.prems(2,3) by simp
  then obtain ni ns f1 f2 where st: "power2_allocator_get_next_inuse_block E a i = Inr (ni, ns)"
    "power2_allocator_remove_free_index E a (i + n) ((if ni = M1 then total_size a else ni) - (i + n)) = Inr (0, a\<lparr>free_lists := f1\<rparr>)"
    "power2_allocator_insert_one_free E (a\<lparr>free_lists := f1\<rparr>) i ((if ni = M1 then total_size a else ni) - i) = Inr (0, a\<lparr>free_lists := f2\<rparr>)"
    "i + n \<le> (if ni = M1 then total_size a else ni)" "(if ni = M1 then total_size a else ni) \<le> total_size a"
    "p2_inv (a\<lparr>free_lists := f2, inuse_list := jl_del i (inuse_list a)\<rparr>)"
    using release_multiple_step [OF E Suc.prems(1) mem] by blast
  define e where "e = (if ni = M1 then total_size a else ni)"
  have u: "add32 i n = i + n" "sub32 e (i + n) = e - (i + n)" "add32 n (e - (i + n)) = e - i"
    using st(4,5) t unfolding e_def [symmetric] by (simp_all add: add32_id sub32_id)
  let ?a = "a\<lparr>free_lists := f2, inuse_list := jl_del i (inuse_list a)\<rparr>"
  have look: "map_of (inuse_list a) i = Some n" using mem by (simp add: map_of_jl [OF jl])
  have step: "release_multiple_loop E k n (Suc c) i a = release_multiple_loop E k n c (add32 i (2 ^ k)) ?a"
    using st(1-3) u mark_free_ok [OF E, of "a\<lparr>free_lists := f2\<rparr>" i n] look k unfolding e_def [symmetric]
    by (simp add: Let_def e_def [symmetric] shl1_id)
  have sub: "set (inuse_list ?a) = set (inuse_list a) - {(i, n)}"
    using set_jl_del_mem [OF jl mem] by simp
  have rest: "\<forall>j < c. (i + 2 ^ k + j * 2 ^ k, n) \<in> set (inuse_list ?a)"
  proof (intro allI impI)
    fix j assume "j < c"
    then have "(i + Suc j * 2 ^ k, n) \<in> set (inuse_list a)" using Suc.prems(4) by blast
    then show "(i + 2 ^ k + j * 2 ^ k, n) \<in> set (inuse_list ?a)" unfolding sub by (simp add: ac_simps)
  qed
  have img: "(\<lambda>j. (i + j * 2 ^ k, n)) ` {0..<Suc c} = insert (i, n) ((\<lambda>j. (i + 2 ^ k + j * 2 ^ k, n)) ` {0..<c})"
  proof -
    have "{0..<Suc c} = insert 0 (Suc ` {0..<c})" by (rule atLeast0_lessThan_Suc_eq_insert_0)
    then show ?thesis by (simp only: image_insert image_image) (simp add: ac_simps)
  qed
  show ?case
  proof (cases "c = 0")
    case True
    then show ?thesis using step st(6) sub img by simp
  next
    case False
    then have "(i + 2 ^ k, n) \<in> set (inuse_list ?a)" using rest by (auto dest: spec [of _ 0])
    then have "(i + 2 ^ k, n) \<in> set (inuse_list a)" using sub by blast
    from blocks_ok_mem [OF ok this] have "add32 i (2 ^ k) = i + 2 ^ k" using t by (intro add32_id) linarith
    moreover have "\<exists>a'. release_multiple_loop E k n c (i + 2 ^ k) ?a = Inr (0, a') \<and> p2_inv a' \<and> max_size a' = max_size ?a \<and>
      total_size a' = total_size ?a \<and> set (inuse_list a') = set (inuse_list ?a) - (\<lambda>j. (i + 2 ^ k + j * 2 ^ k, n)) ` {0..<c}"
      using Suc.prems(2,3) rest by (intro Suc.IH [OF st(6)]) simp_all
    ultimately show ?thesis unfolding step img using sub by auto
  qed
qed

lemma release_multiple_ok:
  fixes a :: power2_allocator
  assumes E: "quiet E" and inv: "p2_inv a" and n: "max_size a = 2 ^ log2_uint32_ceil n" and c: "1 < c"
    and i: "max_size a dvd i" "\<forall>j < c. (i + j * max_size a, n) \<in> set (inuse_list a)"
  shows "\<exists>a'. power2_allocator_release_multiple E a i c = Inr (0, a') \<and> p2_inv a' \<and> max_size a' = max_size a \<and>
      total_size a' = total_size a \<and>
      set (inuse_list a') = set (inuse_list a) - (\<lambda>j. (i + j * max_size a, n)) ` {0..<c}"
proof -
  let ?k = "log2_uint32_ceil n"
  obtain m where I: "shape m a" "m < 32" "max_size a = 2 ^ m" "blocks_ok 0 (inuse_list a) (total_size a)"
    using inv by (elim p2_invE)
  have mk: "m = ?k" using I(3) n by simp
  then have k: "?k < 32" "sub32 (no_free_lists a) 1 = ?k"
    using I(1,2) sub32_id [of 1 "Suc m"] by (auto simp: shapeD(2) W32_def)
  have mem: "(i, n) \<in> set (inuse_list a)" using i(2) c by (auto dest: spec [of _ 0])
  from blocks_ok_mem [OF I(4) mem] p2_inv_total [OF inv] have "0 < n" "n < M1" by linarith+
  moreover have "map_of (inuse_list a) i = Some n" using mem by (simp add: map_of_jl [OF blocks_ok_jl_ok [OF I(4)]])
  ultimately have "power2_allocator_get_index_size E a i = Inr n" "n \<noteq> M1"
    using get_index_size_present [OF E] less_M1 by auto
  then have "power2_allocator_release_multiple E a i c = release_multiple_loop E ?k n c i a"
    using c k(2) by (simp add: power2_allocator_release_multiple_def)
  then show ?thesis using release_multiple_loop_ok [OF E k(1) inv n, of i c n] i n by simp
qed

end
