(* ===== verification/Power2_Spec.thy ===== *)
theory Power2_Spec
  imports Power2_Multi Allocator
begin

text \<open>
  What the power2 allocator promises. First its interface: \<open>p2_alloc\<close> and \<open>p2_release\<close> are the
  calls as the \<open>block_allocator\<close> contract has them, and the interpretation proves the contract. Then the
  abstract pool (\<open>pool\<close>: a capacity and a map from index to size) and the step relations: every
  call of the C code is a step of the abstract pool. Then the properties of each operation.
\<close>

section \<open>The allocator contract\<close>

definition p2_alloc :: "env \<times> power2_allocator \<Rightarrow> nat \<Rightarrow> nat option \<times> env \<times> power2_allocator" where
  "p2_alloc s n = (case s of (E, a) \<Rightarrow>
     (case power2_allocator_alloc E (Some a) n of
        Inr (i, Some a') \<Rightarrow> (if i = - 1 then None else Some (u32_of_int i), E, a')
      | _ \<Rightarrow> (None, s)))"

definition p2_release :: "env \<times> power2_allocator \<Rightarrow> nat \<Rightarrow> bool \<times> env \<times> power2_allocator" where
  "p2_release s i = (case s of (E, a) \<Rightarrow>
     (case power2_allocator_release E a i of Inr (rc, a') \<Rightarrow> (rc = 0, E, a') | Inl _ \<Rightarrow> (False, s)))"

lemma blocks_disjoint: "blocks_ok c us t \<Longrightarrow> disjoint_blocks (set us)"
proof (induction c us t rule: blocks_ok.induct)
  case (2 c i s us t)
  then have ok: "blocks_ok (i + s) us t" by simp
  have "\<forall>(j, z) \<in> set us. i + s \<le> j \<or> j + z \<le> i" using blocks_ok_mem [OF ok] by fastforce
  with 2 show ?case by (simp add: disjoint_blocks_insert)
qed (simp add: disjoint_blocks_def)

lemma p2_inv_live:
  assumes "p2_inv a"
  shows "jl_ok (inuse_list a)" "disjoint_blocks (set (inuse_list a))"
    "\<forall>(i, n) \<in> set (inuse_list a). 0 < n \<and> i + n \<le> total_size a"
proof -
  have ok: "blocks_ok 0 (inuse_list a) (total_size a)" using assms by (elim p2_invE)
  then show "jl_ok (inuse_list a)" "disjoint_blocks (set (inuse_list a))"
    "\<forall>(i, n) \<in> set (inuse_list a). 0 < n \<and> i + n \<le> total_size a"
    using blocks_ok_jl_ok blocks_disjoint blocks_ok_mem [OF ok] by fastforce+
qed

lemma free_absent: "region_free a i n \<Longrightarrow> 0 < n \<Longrightarrow> p2_inv a \<Longrightarrow> map_of (inuse_list a) i = None"
proof (rule ccontr)
  assume a: "region_free a i n" "0 < n" "p2_inv a" "map_of (inuse_list a) i \<noteq> None"
  then obtain s where "(i, s) \<in> set (inuse_list a)" by (auto dest: map_of_SomeD)
  with a(1,2) p2_inv_live(3) [OF a(3)] show False by (fastforce simp: region_free_def)
qed

lemma s32_not_m1: "i < M1 \<Longrightarrow> s32 i \<noteq> - 1 \<and> u32_of_int (s32 i) = i"
  using less_M1 [of i] by (simp add: s32_eq_m1_iff)

lemma region_free_M1: "p2_inv a \<Longrightarrow> region_free a i n \<Longrightarrow> 0 < n \<Longrightarrow> i < M1"
  using p2_inv_total [of a] by (auto simp: region_free_def)

interpretation p2: block_allocator
  "\<lambda>(E, a). quiet E \<and> p2_inv a" "\<lambda>(E, a). (E, max_size a, total_size a)" "\<lambda>(E, m, t). t"
  "\<lambda>(E, a). set (inuse_list a)" p2_alloc p2_release
proof (unfold_locales, goal_cases)
  case (1 s)
  then show ?case using p2_inv_live [of "snd s"] by (cases s) auto
next
  case (2 s n i s')
  obtain E a where s: "s = (E, a)" by (cases s)
  obtain E' a' where s': "s' = (E', a')" by (cases s')
  from 2 s have p: "quiet E" "p2_inv a" "0 < n" by auto
  have le: "n \<le> max_size a"
    using 2(3) s p(3) by (intro leI notI) (simp add: p2_alloc_def power2_allocator_alloc_def)
  from alloc_cases [OF p le] show ?case
  proof (elim disjE exE conjE)
    fix j b assume j: "power2_allocator_alloc E (Some a) n = Inr (s32 j, Some b)" "p2_inv b" "region_free a j n"
      "inuse_list b = jl_put j n (inuse_list a)" "max_size b = max_size a" "total_size b = total_size a"
    note M = s32_not_m1 [OF region_free_M1 [OF p(2) j(3) p(3)]]
    then have "i = j" "E' = E" "a' = b" using 2(3) s s' j(1) by (simp_all add: p2_alloc_def)
    moreover have "set (inuse_list b) = insert (j, n) (set (inuse_list a))"
      using jl_put_absent_mem [OF p2_inv_live(1) [OF p(2)] free_absent [OF j(3) p(3,2)]] j(4) by simp
    ultimately show ?case using j s s' p by (simp add: region_free_def)
  next
    assume "power2_allocator_alloc E (Some a) n = Inr (- 1, Some a)"
    with 2(3) s show ?case by (simp add: p2_alloc_def)
  qed
next
  case (3 s n s')
  obtain E a where s: "s = (E, a)" by (cases s)
  from 3 s have p: "quiet E" "p2_inv a" "0 < n" by auto
  show ?case
  proof (cases "n \<le> max_size a")
    case True
    from alloc_cases [OF p True] show ?thesis
    proof (elim disjE exE conjE)
      fix j b assume j: "power2_allocator_alloc E (Some a) n = Inr (s32 j, Some b)" "region_free a j n"
      with s32_not_m1 [OF region_free_M1 [OF p(2) j(2) p(3)]] 3(3) s show ?thesis by (simp add: p2_alloc_def)
    qed (use 3(3) s in \<open>simp add: p2_alloc_def\<close>)
  next
    case False
    with 3(3) s show ?thesis by (simp add: p2_alloc_def power2_allocator_alloc_def)
  qed
next
  case (4 s i n)
  obtain E a where s: "s = (E, a)" by (cases s)
  with 4 have p: "quiet E" "p2_inv a" "(i, n) \<in> set (inuse_list a)" by auto
  from release_present [OF p] obtain a' where a': "power2_allocator_release E a i = Inr (0, a')" "p2_inv a'"
    "inuse_list a' = jl_del i (inuse_list a)" "max_size a' = max_size a" "total_size a' = total_size a" by blast
  have jl: "jl_ok (inuse_list a)" by (rule p2_inv_live(1) [OF p(2)])
  have "set (inuse_list a') = set (inuse_list a) - {(i, n)}"
    unfolding a'(3) by (rule set_jl_del_mem [OF jl p(3)])
  with a' s p(1) show ?case by (intro exI [of _ "(E, a')"]) (simp add: p2_release_def)
next
  case (5 s i)
  obtain E a where s: "s = (E, a)" by (cases s)
  with 5 have "map_of (inuse_list a) i = None" by (simp add: map_of_eq_None_iff)
  with release_absent [of E a i] 5 s show ?case by (simp add: p2_release_def)
next
  case (6 s s')
  then show ?case
    using p2_state_determined [of "snd s" "snd s'"] jl_unique p2_inv_live(1) by (cases s; cases s') auto
qed

section \<open>The abstract pool\<close>

record pool =
  capacity :: nat
  blocks :: "nat \<rightharpoonup> nat"

definition pool_of :: "power2_allocator \<Rightarrow> pool" where
  "pool_of a = \<lparr>capacity = total_size a, blocks = map_of (inuse_list a)\<rparr>"

definition fits :: "pool \<Rightarrow> nat \<Rightarrow> nat \<Rightarrow> bool" where
  "fits p i n \<longleftrightarrow> i + n \<le> capacity p \<and> (\<forall>j s. blocks p j = Some s \<longrightarrow> i + n \<le> j \<or> j + s \<le> i)"

text \<open>Blocks of one size at a fixed distance are put or dropped together; a single block is the
  case of one.\<close>

definition row :: "nat \<Rightarrow> nat \<Rightarrow> nat \<Rightarrow> nat set" where
  "row i d c = (\<lambda>j. i + j * d) ` {0..<c}"

inductive pool_step :: "pool \<Rightarrow> pool \<Rightarrow> bool" where
  stay: "pool_step p p"
| put: "0 < n \<Longrightarrow> n \<le> d \<Longrightarrow> \<forall>x \<in> row i d c. fits p x n \<Longrightarrow>
    pool_step p (p\<lparr>blocks := (\<lambda>x. if x \<in> row i d c then Some n else blocks p x)\<rparr>)"
| drop: "\<forall>x \<in> row i d c. blocks p x = Some n \<Longrightarrow>
    pool_step p (p\<lparr>blocks := (\<lambda>x. if x \<in> row i d c then None else blocks p x)\<rparr>)"

lemma row_1 [simp]: "row i d (Suc 0) = {i}"
  by (simp add: row_def)

lemma put_one: "0 < n \<Longrightarrow> fits p i n \<Longrightarrow> pool_step p (p\<lparr>blocks := (blocks p)(i \<mapsto> n)\<rparr>)"
  using pool_step.put [of n n i 1 p] by (simp add: fun_upd_def)

lemma drop_one: "blocks p i = Some n \<Longrightarrow> pool_step p (p\<lparr>blocks := (blocks p)(i := None)\<rparr>)"
  using pool_step.drop [of i n 1 p n] by (simp add: fun_upd_def)

lemma fits_pool_of: "p2_inv a \<Longrightarrow> fits (pool_of a) i n \<longleftrightarrow> region_free a i n"
  by (auto simp: fits_def pool_of_def region_free_def map_of_jl [OF p2_inv_live(1)])

lemma pool_of_eqI:
  assumes "p2_inv a" "p2_inv b" "total_size b = total_size a"
    and "\<And>x v. (x, v) \<in> set (inuse_list b) \<longleftrightarrow> f x = Some v"
  shows "pool_of b = (pool_of a)\<lparr>blocks := f\<rparr>"
proof -
  have "map_of (inuse_list b) x = f x" for x
    using assms(4) map_of_jl [OF p2_inv_live(1) [OF assms(2)], of x] by (metis not_None_eq)
  then show ?thesis using assms(3) by (simp add: pool_of_def fun_eq_iff)
qed

section \<open>Every call is a step of the pool\<close>

text \<open>A request for several blocks within the arithmetic of the code.\<close>

definition multi_request :: "power2_allocator \<Rightarrow> nat \<Rightarrow> nat \<Rightarrow> bool" where
  "multi_request a n c \<longleftrightarrow> 0 < n \<and> n < W32 \<and> 0 < c \<and> 2 ^ log2_uint32_ceil n * c < W32 \<and>
     total_size a + 2 ^ log2_uint32_ceil (2 ^ log2_uint32_ceil n * c) \<le> W32"

text \<open>The blocks \<open>power2_allocator_release_multiple\<close> may be asked to release.\<close>

definition multi_blocks :: "power2_allocator \<Rightarrow> nat \<Rightarrow> nat \<Rightarrow> nat \<Rightarrow> bool" where
  "multi_blocks a i n c \<longleftrightarrow> c = 1 \<or> 1 < c \<and> max_size a = 2 ^ log2_uint32_ceil n \<and> max_size a dvd i \<and>
     (\<forall>x \<in> row i (max_size a) c. (x, n) \<in> set (inuse_list a))"

inductive p2_step :: "env \<Rightarrow> power2_allocator \<Rightarrow> power2_allocator \<Rightarrow> bool" for E where
  alloc: "0 < n \<Longrightarrow> power2_allocator_alloc E (Some a) n = Inr (rc, Some b) \<Longrightarrow> p2_step E a b"
| release: "power2_allocator_release E a i = Inr (rc, b) \<Longrightarrow> p2_step E a b"
| reserve: "0 < n \<Longrightarrow> i + n < W32 \<Longrightarrow> power2_allocator_reserve E a i n = Inr (rc, b) \<Longrightarrow> p2_step E a b"
| alloc_multiple: "multi_request a n c \<Longrightarrow> power2_allocator_alloc_multiple E (Some a) n c = Inr (rc, Some b) \<Longrightarrow> p2_step E a b"
| release_multiple: "multi_blocks a i n c \<Longrightarrow> power2_allocator_release_multiple E a i c = Inr (rc, b) \<Longrightarrow> p2_step E a b"
| copy: "power2_allocator_make_copy E (Some a) = Inr (Some b) \<Longrightarrow> p2_step E a b"

inductive p2_reach :: "env \<Rightarrow> power2_allocator \<Rightarrow> bool" for E where
  create: "sz < W32 \<Longrightarrow> sz * count < M1 \<Longrightarrow> power2_allocator_create E sz count = Inr (Some a) \<Longrightarrow> p2_reach E a"
| step: "p2_reach E a \<Longrightarrow> p2_step E a b \<Longrightarrow> p2_reach E b"

lemma sim_put:
  assumes "p2_inv a" "p2_inv b" "total_size b = total_size a" "0 < n" "region_free a i n"
    "inuse_list b = jl_put i n (inuse_list a)"
  shows "pool_step (pool_of a) (pool_of b)"
proof -
  have "pool_of b = (pool_of a)\<lparr>blocks := (blocks (pool_of a))(i \<mapsto> n)\<rparr>"
    using assms(3,6) by (simp add: pool_of_def map_of_jl_put)
  then show ?thesis using put_one [of n "pool_of a" i] assms(1,4,5) by (simp add: fits_pool_of)
qed

lemma sim_alloc:
  assumes E: "quiet E" "p2_inv a" "0 < n"
  shows "\<exists>rc b. power2_allocator_alloc E (Some a) n = Inr (rc, Some b) \<and> p2_inv b \<and> pool_step (pool_of a) (pool_of b) \<and> max_size b = max_size a"
proof (cases "n \<le> max_size a")
  case True
  from alloc_cases [OF E True] sim_put [OF E(2) _ _ E(3)] show ?thesis by (metis E(2) pool_step.stay)
next
  case False
  with E show ?thesis by (simp add: power2_allocator_alloc_def pool_step.stay)
qed

lemma sim_release:
  assumes E: "quiet E" "p2_inv a"
  shows "\<exists>rc b. power2_allocator_release E a i = Inr (rc, b) \<and> p2_inv b \<and> pool_step (pool_of a) (pool_of b) \<and> max_size b = max_size a"
proof (cases "map_of (inuse_list a) i")
  case None
  then show ?thesis using release_absent [OF E(1)] E(2) by (auto intro: pool_step.stay)
next
  case (Some n)
  note jl = p2_inv_live(1) [OF E(2)]
  have "(i, n) \<in> set (inuse_list a)" using Some by (rule map_of_SomeD)
  from release_present [OF E this] obtain b where b: "power2_allocator_release E a i = Inr (0, b)" "p2_inv b"
    "inuse_list b = jl_del i (inuse_list a)" "total_size b = total_size a" "max_size b = max_size a" by blast
  have "pool_of b = (pool_of a)\<lparr>blocks := (blocks (pool_of a))(i := None)\<rparr>"
    using b(3,4) map_of_jl_del [OF jl] by (simp add: pool_of_def)
  with b drop_one [of "pool_of a" i n] Some show ?thesis by (auto simp: pool_of_def)
qed

lemma pool_put_row:
  assumes "p2_inv a" "p2_inv b" "total_size b = total_size a" "0 < n" "\<forall>x \<in> row p d c. region_free a x n"
    "set (inuse_list b) = set (inuse_list a) \<union> (\<lambda>x. (x, n)) ` row p d c"
  shows "pool_of b = (pool_of a)\<lparr>blocks := (\<lambda>x. if x \<in> row p d c then Some n else blocks (pool_of a) x)\<rparr>"
proof (rule pool_of_eqI [OF assms(1-3)])
  fix x v
  have "(x, v) \<notin> set (inuse_list a)" if "x \<in> row p d c"
    using free_absent [OF bspec [OF assms(5) that] assms(4,1)] by (force simp: map_of_eq_None_iff)
  then show "(x, v) \<in> set (inuse_list b) \<longleftrightarrow> (if x \<in> row p d c then Some n else blocks (pool_of a) x) = Some v"
    unfolding assms(6) by (auto simp: pool_of_def map_of_jl [OF p2_inv_live(1) [OF assms(1)]])
qed

lemma sim_put_row:
  assumes "p2_inv a" "p2_inv b" "total_size b = total_size a" "0 < n" "n \<le> d" "\<forall>x \<in> row p d c. region_free a x n"
    "set (inuse_list b) = set (inuse_list a) \<union> (\<lambda>x. (x, n)) ` row p d c"
  shows "pool_step (pool_of a) (pool_of b)"
  unfolding pool_put_row [OF assms(1-4,6,7)]
  using pool_step.put [OF assms(4,5), of p c "pool_of a"] assms(1,6) by (simp add: fits_pool_of)

lemma pool_drop_row:
  assumes "p2_inv a" "p2_inv b" "total_size b = total_size a" "\<forall>x \<in> row i d c. (x, n) \<in> set (inuse_list a)"
    "set (inuse_list b) = set (inuse_list a) - (\<lambda>x. (x, n)) ` row i d c"
  shows "pool_of b = (pool_of a)\<lparr>blocks := (\<lambda>x. if x \<in> row i d c then None else blocks (pool_of a) x)\<rparr>"
proof (rule pool_of_eqI [OF assms(1-3)])
  note jl = p2_inv_live(1) [OF assms(1)]
  fix x v
  have "v = n" if "x \<in> row i d c" "(x, v) \<in> set (inuse_list a)"
    using jl_mem_unique [OF jl that(2)] assms(4) that(1) by blast
  then show "(x, v) \<in> set (inuse_list b) \<longleftrightarrow> (if x \<in> row i d c then None else blocks (pool_of a) x) = Some v"
    unfolding assms(5) by (auto simp: pool_of_def map_of_jl [OF jl])
qed

lemma alloc_multiple_other_size:
  assumes "p2_inv a" "multi_request a n c" "c \<noteq> 1" "max_size a \<noteq> 2 ^ log2_uint32_ceil n"
  shows "power2_allocator_alloc_multiple E (Some a) n c = Inr (- 1, Some a)"
proof -
  let ?k = "log2_uint32_ceil n"
  have c: "0 < c" and W: "2 ^ ?k * c < W32" "total_size a + 2 ^ log2_uint32_ceil (2 ^ ?k * c) \<le> W32"
    using assms(2) by (auto simp: multi_request_def)
  obtain m where I: "shape m a" "m < 32" "max_size a = 2 ^ m" using assms(1) by (elim p2_invE)
  have "sub32 (no_free_lists a) 1 = m"
    using I(1,2) sub32_id [of 1 "Suc m"] by (auto simp: shapeD(2) W32_def)
  moreover have "m \<noteq> ?k" using assms(4) I(3) by auto
  moreover have "?k < 32"
  proof -
    have "2 ^ ?k * 1 \<le> 2 ^ ?k * c" using c by (intro mult_le_mono2) simp
    then have "(2::nat) ^ ?k < 2 ^ 32" using W(1) unfolding W32_pow by linarith
    then show ?thesis by (rule power_less_imp_less_exp [rotated]) simp
  qed
  moreover have "log2_uint32_ceil (2 ^ ?k * c) < 32" if "\<not> total_size a < 2 ^ ?k * c"
  proof -
    have "0 < 2 ^ ?k * c" using c by simp
    then have "(2::nat) ^ log2_uint32_ceil (2 ^ ?k * c) < 2 ^ 32" using W(2) that unfolding W32_pow by linarith
    then show ?thesis by (rule power_less_imp_less_exp [rotated]) simp
  qed
  ultimately show ?thesis
    using assms(3) W(1) by (auto simp: power2_allocator_alloc_multiple_def shl1_id mul32_id Let_def)
qed

lemma row_image: "(\<lambda>j. (p + j * d, n)) ` {0..<c} = (\<lambda>x. (x, n)) ` row p d c"
  by (simp add: row_def image_image)

lemma ball_row: "(\<forall>x \<in> row p d c. P x) \<longleftrightarrow> (\<forall>j < c. P (p + j * d))"
  by (auto simp: row_def)

lemma sim_alloc_multiple:
  assumes E: "quiet E" "p2_inv a" and req: "multi_request a n c"
  shows "\<exists>rc b. power2_allocator_alloc_multiple E (Some a) n c = Inr (rc, Some b) \<and> p2_inv b \<and> pool_step (pool_of a) (pool_of b) \<and> max_size b = max_size a"
proof -
  let ?k = "log2_uint32_ceil n"
  have n: "0 < n" "n < W32" and c: "0 < c" and W: "2 ^ ?k * c < W32" "total_size a + 2 ^ log2_uint32_ceil (2 ^ ?k * c) \<le> W32"
    using req by (auto simp: multi_request_def)
  have le: "n \<le> 2 ^ ?k" using n(2) by (rule log2_ceil_ge)
  consider "c = 1" | "1 < c" "max_size a = 2 ^ ?k" | "c \<noteq> 1" "max_size a \<noteq> 2 ^ ?k" using c by linarith
  then show ?thesis
  proof cases
    case 1
    then show ?thesis using sim_alloc [OF E n(1)] by (simp add: power2_allocator_alloc_multiple_def)
  next
    case 2
    from alloc_multiple_cases [OF E n(1) 2(2) le 2(1) W]
    show ?thesis
    proof (elim disjE exE conjE)
      fix p b assume b: "power2_allocator_alloc_multiple E (Some a) n c = Inr (s32 p, Some b)" "p2_inv b"
        "\<forall>j < c. region_free a (p + j * 2 ^ ?k) n" "total_size b = total_size a" "max_size b = max_size a"
        "set (inuse_list b) = set (inuse_list a) \<union> (\<lambda>j. (p + j * 2 ^ ?k, n)) ` {0..<c}"
      have "\<forall>x \<in> row p (2 ^ ?k) c. region_free a x n" using b(3) by (simp add: ball_row)
      from sim_put_row [OF E(2) b(2,4) n(1) le this b(6) [unfolded row_image]] b(1,2,5)
      show ?thesis by blast
    qed (use E(2) in \<open>auto intro: pool_step.stay\<close>)
  next
    case 3
    from alloc_multiple_other_size [OF E(2) req 3] E(2) show ?thesis by (auto intro: pool_step.stay)
  qed
qed

lemma sim_release_multiple:
  assumes E: "quiet E" "p2_inv a" and req: "multi_blocks a i n c"
  shows "\<exists>rc b. power2_allocator_release_multiple E a i c = Inr (rc, b) \<and> p2_inv b \<and> pool_step (pool_of a) (pool_of b) \<and> max_size b = max_size a"
proof (cases "c = 1")
  case True
  then show ?thesis using sim_release [OF E] by (simp add: power2_allocator_release_multiple_def)
next
  case False
  let ?d = "max_size a"
  have r: "max_size a = 2 ^ log2_uint32_ceil n" "1 < c" "max_size a dvd i" "\<forall>j < c. (i + j * ?d, n) \<in> set (inuse_list a)"
    using req False by (auto simp: multi_blocks_def ball_row)
  from release_multiple_ok [OF E r] obtain b where b: "power2_allocator_release_multiple E a i c = Inr (0, b)" "p2_inv b"
    "total_size b = total_size a" "set (inuse_list b) = set (inuse_list a) - (\<lambda>x. (x, n)) ` row i ?d c"
    "max_size b = max_size a"
    unfolding row_image by blast
  note jl = p2_inv_live(1) [OF E(2)]
  have mem: "\<forall>x \<in> row i ?d c. (x, n) \<in> set (inuse_list a)" using r(4) by (simp add: ball_row)
  have "pool_of b = (pool_of a)\<lparr>blocks := (\<lambda>x. if x \<in> row i ?d c then None else blocks (pool_of a) x)\<rparr>"
    by (rule pool_drop_row [OF E(2) b(2,3) mem b(4)])
  moreover have "\<forall>x \<in> row i ?d c. blocks (pool_of a) x = Some n" using mem by (simp add: pool_of_def map_of_jl [OF jl])
  ultimately show ?thesis using b(1,2,5) pool_step.drop by force
qed

lemma sim_step:
  assumes "p2_step E a b" "quiet E" "p2_inv a"
  shows "p2_inv b \<and> pool_step (pool_of a) (pool_of b) \<and> max_size b = max_size a"
  using assms
proof cases
  case (alloc n rc)
  with sim_alloc [OF assms(2,3) alloc(1)] show ?thesis by auto
next
  case (release i rc)
  with sim_release [OF assms(2,3), of i] show ?thesis by auto
next
  case (reserve n i rc)
  from reserve_cases [OF assms(2,3) reserve(1,2)] reserve(3) show ?thesis
    using sim_put [OF assms(3) _ _ reserve(1)] assms(3) by (auto intro: pool_step.stay)
next
  case (alloc_multiple n c rc)
  with sim_alloc_multiple [OF assms(2,3) alloc_multiple(1)] show ?thesis by auto
next
  case (release_multiple i n c rc)
  with sim_release_multiple [OF assms(2,3) release_multiple(1)] show ?thesis by auto
next
  case copy
  with make_copy_ok [OF assms(2,3)] assms(3) show ?thesis by (auto intro: pool_step.stay)
qed

lemma create_empty:
  assumes "quiet E" "sz < W32" "sz * count < M1" "power2_allocator_create E sz count = Inr (Some a)"
  shows "p2_inv a \<and> inuse_list a = [] \<and> max_size a = sz \<and> total_size a = sz * count"
proof -
  obtain k where k: "sz = 2 ^ k"
    using assms(4) by (auto simp: power2_allocator_create_def is_uint32_power2_iff split: if_splits)
  with assms(2) have "(2::nat) ^ k < 2 ^ 32" by (simp add: W32_pow)
  then have "k < 32" by (rule power_less_imp_less_exp [rotated]) simp
  from create_ok [OF assms(1) this, of count] assms(3,4) k show ?thesis by auto
qed

lemma reach_inv: "p2_reach E a \<Longrightarrow> quiet E \<Longrightarrow> p2_inv a"
proof (induction rule: p2_reach.induct)
  case (create sz count a)
  with create_empty [OF create(4,1,2,3)] show ?case by blast
next
  case (step a b)
  then show ?case using sim_step by blast
qed

end
