(* ===== verification/Power2_Props.thy ===== *)
theory Power2_Props
  imports Power2_Spec
begin

text \<open>
  The properties of the power2 allocator, each with a witness on a small pool:
  \<open>pool0\<close> is what \<open>power2_allocator_create(4, 2)\<close> returns, \<open>pool1\<close> the same pool after an
  allocation of three units.
\<close>

definition pool0 :: power2_allocator where
  "pool0 = \<lparr>max_size = 4, total_size = 8, no_free_lists = 3, free_lists = [[], [], [(0, 4), (4, 4)]], inuse_list = []\<rparr>"

definition pool1 :: power2_allocator where
  "pool1 = \<lparr>max_size = 4, total_size = 8, no_free_lists = 3, free_lists = [[(3, 1)], [], [(4, 4)]], inuse_list = [(0, 3)]\<rparr>"

lemma create_pool0: "power2_allocator_create env0 4 2 = Inr (Some pool0)"
  by code_simp

lemma alloc_pool0: "power2_allocator_alloc env0 (Some pool0) 3 = Inr (0, Some pool1)"
  by code_simp

lemma pool0_reach: "p2_reach env0 pool0"
  using create_pool0 by (intro p2_reach.create [of 4 2]) (simp_all add: W32_def M1_def)

lemma pool1_step: "p2_step env0 pool0 pool1"
  using alloc_pool0 by (intro p2_step.alloc [of 3]) simp_all

lemma pool_inv [simp]: "p2_inv pool0" "p2_inv pool1"
  using reach_inv [OF pool0_reach] reach_inv [OF p2_reach.step [OF pool0_reach pool1_step]] by simp_all

section \<open>Single blocks\<close>

text \<open>C1: \<open>power2_allocator_alloc\<close> on a pool that satisfies the invariant, for a positive size. A size
  above \<open>max_size\<close> (and a NULL allocator) gives -1 with nothing changed. Otherwise either it takes
  the first free chunk that is large enough, searching the lists from the power of two at or above
  the size upwards and each list by ascending index, returns the greatest multiple of this power of
  two at which the block still fits into the chunk, a region in the pool that meets no block in use,
  and adds exactly this block to the blocks in use, keeping the invariant; or it returns -1 with the
  state unchanged, and then no aligned free region of this size exists. No assertion of the code
  fails.\<close>

theorem power2_alloc_spec:
  assumes "quiet E" "p2_inv a" "0 < n"
  shows "power2_allocator_alloc E None n = Inr (- 1, None) \<and>
    (if max_size a < n then power2_allocator_alloc E (Some a) n = Inr (- 1, Some a) else
    (\<exists>k f s i a'. first_chunk a n k f s \<and> last_in n f s i \<and>
      power2_allocator_alloc E (Some a) n = Inr (s32 i, Some a') \<and> p2_inv a' \<and>
      2 ^ log2_uint32_ceil n dvd i \<and> i + n \<le> total_size a \<and> {i..<i + n} \<inter> used a = {} \<and>
      inuse_list a' = jl_put i n (inuse_list a) \<and> max_size a' = max_size a \<and> total_size a' = total_size a) \<or>
    (power2_allocator_alloc E (Some a) n = Inr (- 1, Some a) \<and>
      (\<forall>i. 2 ^ log2_uint32_ceil n dvd i \<and> i + n \<le> total_size a \<longrightarrow> {i..<i + n} \<inter> used a \<noteq> {})))"
proof -
  have ok: "blocks_ok 0 (inuse_list a) (total_size a)" using assms(2) by (elim p2_invE)
  have null: "power2_allocator_alloc E None n = Inr (- 1, None)" by (simp add: power2_allocator_alloc_def)
  show ?thesis
  proof (cases "max_size a < n")
    case True
    then show ?thesis using null by (simp add: power2_allocator_alloc_def)
  next
    case False
    then have "n \<le> max_size a" by simp
    from alloc_which [OF assms this, unfolded region_free_used [OF assms(3) ok]] null False
    show ?thesis by simp blast
  qed
qed

lemma power2_alloc_spec_witness:
  "power2_allocator_alloc env0 None 2 = Inr (- 1, None) \<and>
    (if max_size pool1 < 2 then power2_allocator_alloc env0 (Some pool1) 2 = Inr (- 1, Some pool1) else
    (\<exists>k f s i a'. first_chunk pool1 2 k f s \<and> last_in 2 f s i \<and>
      power2_allocator_alloc env0 (Some pool1) 2 = Inr (s32 i, Some a') \<and> p2_inv a' \<and>
      2 ^ log2_uint32_ceil 2 dvd i \<and> i + 2 \<le> total_size pool1 \<and> {i..<i + 2} \<inter> used pool1 = {} \<and>
      inuse_list a' = jl_put i 2 (inuse_list pool1) \<and> max_size a' = max_size pool1 \<and> total_size a' = total_size pool1) \<or>
    (power2_allocator_alloc env0 (Some pool1) 2 = Inr (- 1, Some pool1) \<and>
      (\<forall>i. 2 ^ log2_uint32_ceil 2 dvd i \<and> i + 2 \<le> total_size pool1 \<longrightarrow> {i..<i + 2} \<inter> used pool1 \<noteq> {})))"
  by (rule power2_alloc_spec) simp_all

text \<open>C2: \<open>power2_allocator_release\<close>: an index that starts a block in use is released with
  return code 0; exactly this block leaves the blocks in use, the pool keeps the invariant (the
  freed space is joined with the free space on both sides), and no assertion fails. For any other
  index the call returns -1 and changes nothing.\<close>

theorem power2_release_spec:
  assumes "quiet E" "p2_inv a"
  shows "case map_of (inuse_list a) i of
      Some n \<Rightarrow> (\<exists>a'. power2_allocator_release E a i = Inr (0, a') \<and> p2_inv a' \<and>
        inuse_list a' = jl_del i (inuse_list a) \<and> max_size a' = max_size a \<and> total_size a' = total_size a)
    | None \<Rightarrow> power2_allocator_release E a i = Inr (- 1, a)"
proof (cases "map_of (inuse_list a) i")
  case None
  with release_absent [OF assms(1)] show ?thesis by simp
next
  case (Some n)
  from release_present [OF assms map_of_SomeD [OF Some]] obtain a' where
    "power2_allocator_release E a i = Inr (0, a')" "p2_inv a'" "inuse_list a' = jl_del i (inuse_list a)"
    "max_size a' = max_size a" "total_size a' = total_size a" by blast
  with Some show ?thesis by simp
qed

lemma power2_release_spec_witness:
  "case map_of (inuse_list pool1) 0 of
      Some n \<Rightarrow> (\<exists>a'. power2_allocator_release env0 pool1 0 = Inr (0, a') \<and> p2_inv a' \<and>
        inuse_list a' = jl_del 0 (inuse_list pool1) \<and> max_size a' = max_size pool1 \<and> total_size a' = total_size pool1)
    | None \<Rightarrow> power2_allocator_release env0 pool1 0 = Inr (- 1, pool1)"
  by (rule power2_release_spec) simp_all

text \<open>C3: \<open>power2_allocator_reserve\<close> of a non-empty region whose end does not wrap around in 32
  bits: when the region meets a block in use it returns 1 and changes nothing; when it meets none
  but leaves the pool it returns 1 as well and changes nothing (where the header promises -1, since
  no index of it is in use); when it lies in the pool and is free it returns 0, adds exactly this
  block and keeps the invariant. No assertion fails.\<close>

theorem power2_reserve_spec:
  assumes "quiet E" "p2_inv a" "0 < n" "i + n < W32"
  shows "if {i..<i + n} \<inter> used a \<noteq> {} then power2_allocator_reserve E a i n = Inr (1, a)
    else if total_size a < i + n then power2_allocator_reserve E a i n = Inr (1, a)
    else \<exists>a'. power2_allocator_reserve E a i n = Inr (0, a') \<and> p2_inv a' \<and>
      inuse_list a' = jl_put i n (inuse_list a) \<and> max_size a' = max_size a \<and> total_size a' = total_size a"
proof -
  have ok: "blocks_ok 0 (inuse_list a) (total_size a)" using assms(2) by (elim p2_invE)
  from reserve_cases [OF assms] show ?thesis unfolding region_free_used [OF assms(3) ok] by auto
qed

lemma power2_reserve_spec_witness:
  "if {5..<5 + 2} \<inter> used pool1 \<noteq> {} then power2_allocator_reserve env0 pool1 5 2 = Inr (1, pool1)
    else if total_size pool1 < 5 + 2 then power2_allocator_reserve env0 pool1 5 2 = Inr (1, pool1)
    else \<exists>a'. power2_allocator_reserve env0 pool1 5 2 = Inr (0, a') \<and> p2_inv a' \<and>
      inuse_list a' = jl_put 5 2 (inuse_list pool1) \<and> max_size a' = max_size pool1 \<and> total_size a' = total_size pool1"
  by (rule power2_reserve_spec) (simp_all add: W32_def)

text \<open>C15: \<open>power2_allocator_create\<close>. A block size that is not a power of two gives NULL, and so does
  a failure of either of the two \<open>calloc\<close>s, whatever else the environment does. When no insertion
  fails and the product of a power of two with \<open>count\<close> is below \<open>(uint32_t)-1\<close>, it returns a pool of
  that size with nothing in use that satisfies the invariant.\<close>

theorem power2_create_spec:
  assumes "sz < W32"
  shows "if (\<exists>k. sz = 2 ^ k) \<and> mem E 0 \<and> mem E 1
    then quiet E \<and> sz * count < M1 \<longrightarrow>
      (\<exists>a. power2_allocator_create E sz count = Inr (Some a) \<and> p2_inv a \<and> inuse_list a = [] \<and>
        max_size a = sz \<and> total_size a = sz * count)
    else power2_allocator_create E sz count = Inr None"
proof (cases "\<exists>k. sz = 2 ^ k")
  case True
  then obtain k where k: "sz = 2 ^ k" by blast
  with assms have "(2::nat) ^ k < 2 ^ 32" by (simp add: W32_pow)
  then have "k < 32" by (rule power_less_imp_less_exp [rotated]) simp
  note ok = create_ok [OF _ this, of E count]
  have "power2_allocator_create E sz count = Inr None" if "\<not> (mem E 0 \<and> mem E 1)"
    using that by (auto simp: power2_allocator_create_def Let_def)
  with ok k True show ?thesis by simp
next
  case False
  then show ?thesis by (simp add: power2_allocator_create_def is_uint32_power2_iff)
qed

lemma power2_create_spec_witness:
  "(\<exists>a. power2_allocator_create env0 8 3 = Inr (Some a) \<and> p2_inv a \<and> inuse_list a = [] \<and>
      max_size a = 8 \<and> total_size a = 8 * 3) \<and>
    power2_allocator_create (env0\<lparr>mem := (\<lambda>n. n = 0)\<rparr>) 8 3 = Inr None"
proof
  have p: "\<exists>k. (8 :: nat) = 2 ^ k" by (intro exI [of _ 3]) simp
  have W: "8 < W32" "8 * 3 < M1" by (simp_all add: W32_def M1_def)
  have m: "mem env0 0" "mem env0 1" by simp_all
  show "\<exists>a. power2_allocator_create env0 8 3 = Inr (Some a) \<and> p2_inv a \<and> inuse_list a = [] \<and>
      max_size a = 8 \<and> total_size a = 8 * 3"
    using power2_create_spec [OF W(1), of env0 3] p m W(2) quiet_env0 by simp
  show "power2_allocator_create (env0\<lparr>mem := (\<lambda>n. n = 0)\<rparr>) 8 3 = Inr None"
    using power2_create_spec [OF W(1), of "env0\<lparr>mem := (\<lambda>n. n = 0)\<rparr>" 3] by simp
qed

text \<open>The sizes are multiplied in 32 bits: with four chunks of \<open>2 ^ 30\<close> units the size of the pool is 0,
  and an allocation is granted a block outside it.\<close>

lemma power2_create_wraps:
  "case power2_allocator_create env0 1073741824 4 of
    Inr (Some a) \<Rightarrow> total_size a = 0 \<and> (case power2_allocator_alloc env0 (Some a) 1 of
      Inr (i, Some b) \<Rightarrow> i = 1073741823 \<and> inuse_list b = [(1073741823, 1)] | _ \<Rightarrow> False)
  | _ \<Rightarrow> False"
  by code_simp

text \<open>C12: Releasing what \<open>power2_allocator_alloc\<close> has just returned restores the allocator,
  free lists included.\<close>

theorem power2_alloc_release_restores:
  assumes "quiet E" "p2_inv a" "0 < n" "power2_allocator_alloc E (Some a) n = Inr (rc, Some b)" "rc \<noteq> - 1"
  shows "power2_allocator_release E b (u32_of_int rc) = Inr (0, a)"
proof -
  have "p2_alloc (E, a) n = (Some (u32_of_int rc), E, b)" using assms(4,5) by (simp add: p2_alloc_def)
  with p2.alloc_release [of "(E, a)" n] assms(1-3) have "p2_release (E, b) (u32_of_int rc) = (True, E, a)" by simp
  then show ?thesis by (auto simp: p2_release_def split: sum.splits if_splits)
qed

lemma power2_alloc_release_restores_witness:
  "power2_allocator_release env0 pool1 (u32_of_int 0) = Inr (0, pool0)"
  by (rule power2_alloc_release_restores [OF quiet_env0 _ _ alloc_pool0]) simp_all

section \<open>Several blocks\<close>

text \<open>The refusals of \<open>power2_allocator_alloc_multiple\<close>.\<close>

lemma log2_lt_32: "n \<le> 2 ^ 31 \<Longrightarrow> log2_uint32_ceil n < 32"
  using log2_ceil_le_iff [of n 31] by (simp add: W32_def)

lemma alloc_multiple_null:
  "n \<le> 2 ^ 31 \<Longrightarrow> power2_allocator_alloc_multiple E None n count = Inr (- 1, None)"
  using log2_lt_32 [of n] by (simp add: power2_allocator_alloc_multiple_def power2_allocator_alloc_def shl1_id)

lemma alloc_multiple_none:
  "n \<le> 2 ^ 31 \<Longrightarrow> power2_allocator_alloc_multiple E (Some a) n 0 = Inr (- 1, Some a)"
proof -
  assume "n \<le> 2 ^ 31"
  moreover have "log2_uint32_ceil 0 = 0" "mul32 (2 ^ log2_uint32_ceil n) 0 = 0" "u32_of_int (- 1) = M1" by code_simp+
  ultimately show ?thesis using log2_lt_32 [of n]
    by (simp add: power2_allocator_alloc_multiple_def power2_allocator_alloc_int_v2_def shl1_id Let_def)
qed

lemma alloc_multiple_too_large:
  "n \<le> 2 ^ 31 \<Longrightarrow> count \<noteq> 1 \<Longrightarrow> 2 ^ log2_uint32_ceil n * count < W32 \<Longrightarrow>
    total_size a < 2 ^ log2_uint32_ceil n * count \<Longrightarrow> power2_allocator_alloc_multiple E (Some a) n count = Inr (- 1, Some a)"
  using log2_lt_32 [of n] by (simp add: power2_allocator_alloc_multiple_def shl1_id mul32_id)

text \<open>C13: \<open>power2_allocator_alloc_multiple\<close> of \<open>count\<close> blocks of a size from 1 to \<open>2 ^ 31\<close>, rounded to
  the power of two \<open>2 ^ k\<close>, for requests whose rounded total stays below \<open>2 ^ 32\<close> and whose alignment
  added to \<open>total_size\<close> does not exceed \<open>2 ^ 32\<close> (beyond this the search can go on for ever, see
  \<open>power2_alloc_multiple_diverges\<close>). A NULL allocator gives -1; one block is left to
  \<open>power2_allocator_alloc\<close>; no block, a power of two other than \<open>max_size\<close> and a total above the pool
  give -1 with the state unchanged. In the remaining case it returns the least multiple of the
  alignment (the power of two at or above the total) from which all blocks at distance \<open>max_size\<close> are
  free, adds exactly these blocks to the blocks in use and keeps the invariant; or, when there is no
  such position, it returns -1 with the state unchanged. The search loop ends and no assertion fails.\<close>

theorem power2_alloc_multiple_spec:
  fixes a :: power2_allocator and n count :: nat
  defines "k \<equiv> log2_uint32_ceil n"
  defines "align \<equiv> 2 ^ log2_uint32_ceil (2 ^ k * count)"
  assumes "quiet E" "p2_inv a" "0 < n" "n \<le> 2 ^ 31" "2 ^ k * count < W32" "total_size a + align \<le> W32"
  shows "power2_allocator_alloc_multiple E None n count = Inr (- 1, None) \<and>
    (if count = 1 then power2_allocator_alloc_multiple E (Some a) n count = power2_allocator_alloc E (Some a) n
    else if count = 0 \<or> max_size a \<noteq> 2 ^ k \<or> total_size a < 2 ^ k * count
      then power2_allocator_alloc_multiple E (Some a) n count = Inr (- 1, Some a)
    else (\<exists>p a'. power2_allocator_alloc_multiple E (Some a) n count = Inr (s32 p, Some a') \<and> p2_inv a' \<and> align dvd p \<and>
      (\<forall>j < count. region_free a (p + j * 2 ^ k) n) \<and> max_size a' = max_size a \<and> total_size a' = total_size a \<and>
      set (inuse_list a') = set (inuse_list a) \<union> (\<lambda>j. (p + j * 2 ^ k, n)) ` {0..<count} \<and>
      (\<forall>q. align dvd q \<and> (\<forall>j < count. region_free a (q + j * 2 ^ k) n) \<longrightarrow> p \<le> q)) \<or>
    (power2_allocator_alloc_multiple E (Some a) n count = Inr (- 1, Some a) \<and>
      (\<forall>p. align dvd p \<longrightarrow> (\<exists>j < count. \<not> region_free a (p + j * 2 ^ k) n))))"
proof -
  note E = assms(3,4) and n = assms(5,6) and W = assms(7,8) [unfolded align_def k_def]
  have nW: "n < W32" using n(2) by (simp add: W32_def)
  have null: "power2_allocator_alloc_multiple E None n count = Inr (- 1, None)" by (rule alloc_multiple_null [OF n(2)])
  consider "count = 1" | "count = 0" | "1 < count" "max_size a \<noteq> 2 ^ k" | "1 < count" "max_size a = 2 ^ k" by linarith
  then show ?thesis
  proof cases
    case 1
    then show ?thesis using null by (simp add: power2_allocator_alloc_multiple_def)
  next
    case 2
    then show ?thesis using null alloc_multiple_none [OF n(2)] by simp
  next
    case 3
    then have "multi_request a n count" using n(1) nW W by (simp add: multi_request_def)
    from alloc_multiple_other_size [OF E(2) this] 3 null show ?thesis by (simp add: k_def)
  next
    case 4
    note cases4 = alloc_multiple_cases [OF E n(1) 4(2) [unfolded k_def] log2_ceil_ge [OF nW] 4(1) W, folded k_def, folded align_def]
    have c: "count \<noteq> 1" "count \<noteq> 0" using 4(1) by simp_all
    have large: "total_size a < 2 ^ k * count \<Longrightarrow> power2_allocator_alloc_multiple E (Some a) n count = Inr (- 1, Some a)"
      using alloc_multiple_too_large [OF n(2) c(1)] assms(7) by (simp add: k_def)
    show ?thesis
    proof (cases "total_size a < 2 ^ k * count")
      case True
      with null c large [OF True] show ?thesis by (simp only: if_True if_False simp_thms)
    next
      case False
      with null c 4(2) cases4 show ?thesis by (simp only: if_True if_False simp_thms)
    qed
  qed
qed

lemma power2_alloc_multiple_spec_witness:
  "(\<exists>p a'. power2_allocator_alloc_multiple env0 (Some pool0) 3 2 = Inr (s32 p, Some a') \<and> p2_inv a' \<and> 8 dvd p \<and>
      (\<forall>j < 2. region_free pool0 (p + j * 4) 3) \<and> max_size a' = max_size pool0 \<and> total_size a' = total_size pool0 \<and>
      set (inuse_list a') = set (inuse_list pool0) \<union> (\<lambda>j. (p + j * 4, 3)) ` {0..<2} \<and>
      (\<forall>q. 8 dvd q \<and> (\<forall>j < 2. region_free pool0 (q + j * 4) 3) \<longrightarrow> p \<le> q)) \<or>
    (power2_allocator_alloc_multiple env0 (Some pool0) 3 2 = Inr (- 1, Some pool0) \<and>
      (\<forall>p. 8 dvd p \<longrightarrow> (\<exists>j < 2. \<not> region_free pool0 (p + j * 4) 3)))"
proof -
  have l: "log2_uint32_ceil 3 = 2" "log2_uint32_ceil 8 = 3" by code_simp+
  have "total_size pool0 = 8" "max_size pool0 = 4" by (simp_all add: pool0_def)
  with power2_alloc_multiple_spec [of env0 pool0 3 2] show ?thesis by (simp add: l W32_def)
qed

text \<open>C14: \<open>power2_allocator_release_multiple\<close> with the index and the count of a successful
  \<open>power2_allocator_alloc_multiple\<close> of more than one block returns 0 and restores the allocator,
  free lists included.\<close>

theorem power2_release_multiple_restores:
  assumes E: "quiet E" "p2_inv a" and req: "multi_request a n c" "1 < c"
    and call: "power2_allocator_alloc_multiple E (Some a) n c = Inr (rc, Some b)" "rc \<noteq> - 1"
  shows "power2_allocator_release_multiple E b (u32_of_int rc) c = Inr (0, a)"
proof -
  let ?k = "log2_uint32_ceil n"
  have n: "0 < n" "n < W32" and W: "2 ^ ?k * c < W32" "total_size a + 2 ^ log2_uint32_ceil (2 ^ ?k * c) \<le> W32"
    using req by (auto simp: multi_request_def)
  have m: "max_size a = 2 ^ ?k"
    using alloc_multiple_other_size [OF E(2) req(1)] req(2) call by fastforce
  from alloc_multiple_cases [OF E n(1) m log2_ceil_ge [OF n(2)] req(2) W] call(1,2)
  obtain p where p: "rc = s32 p" "p2_inv b" "2 ^ log2_uint32_ceil (2 ^ ?k * c) dvd p"
    "\<forall>j < c. region_free a (p + j * 2 ^ ?k) n" "max_size b = max_size a" "total_size b = total_size a"
    "set (inuse_list b) = set (inuse_list a) \<union> (\<lambda>j. (p + j * 2 ^ ?k, n)) ` {0..<c}" by auto
  have "2 ^ ?k * 1 \<le> 2 ^ ?k * c" using req(2) by (intro mult_le_mono2) simp
  then have "?k \<le> log2_uint32_ceil (2 ^ ?k * c)" using log2_ceil_ge_exp [OF _ W(1)] by simp
  then have dvd: "max_size b dvd p" using p(3,5) m by (metis dvd_trans le_imp_power_dvd)
  have mb: "max_size b = 2 ^ ?k" using p(5) m by simp
  have mem: "\<forall>j < c. (p + j * max_size b, n) \<in> set (inuse_list b)" using p(7) mb by auto
  from release_multiple_ok [OF E(1) p(2) mb req(2) dvd mem] obtain d where
    d: "power2_allocator_release_multiple E b p c = Inr (0, d)" "p2_inv d" "max_size d = max_size b"
      "total_size d = total_size b" "set (inuse_list d) = set (inuse_list b) - (\<lambda>j. (p + j * max_size b, n)) ` {0..<c}"
    by blast
  have "(p + j * 2 ^ ?k, n) \<notin> set (inuse_list a)" if "j < c" for j
    using free_absent [of a "p + j * 2 ^ ?k" n] p(4) that n(1) E(2) by (force simp: map_of_eq_None_iff)
  then have "set (inuse_list d) = set (inuse_list a)" unfolding d(5) p(7) mb by auto
  then have "inuse_list d = inuse_list a" using p2_inv_live(1) [OF d(2)] p2_inv_live(1) [OF E(2)] by (intro jl_unique)
  then have "d = a" using p2_state_determined [OF d(2) E(2)] d(3,4) p(5,6) by simp
  moreover have "p < M1" using region_free_M1 [OF E(2) _ n(1), of p] p(4) req(2) by (auto dest: spec [of _ 0])
  ultimately show ?thesis using d(1) p(1) less_M1 by simp
qed

definition pool2 :: power2_allocator where
  "pool2 = \<lparr>max_size = 4, total_size = 8, no_free_lists = 3, free_lists = [[(3, 1), (7, 1)], [], []], inuse_list = [(0, 3), (4, 3)]\<rparr>"

lemma power2_release_multiple_restores_witness:
  "power2_allocator_release_multiple env0 pool2 (u32_of_int 0) 2 = Inr (0, pool0)"
proof (rule power2_release_multiple_restores)
  have l: "log2_uint32_ceil 3 = 2" "log2_uint32_ceil 8 = 3" by code_simp+
  show "multi_request pool0 3 2" by (simp add: multi_request_def l W32_def pool0_def)
  have "v2_search env0 [(0, 4), (4, 4)] 2 3 2 8 (Suc f) 0 = Inr (Some [(0, 4), (4, 4)])" for f
  proof -
    have "JLF env0 [(0, 4), (4, 4)] 0 = PV 0 4" by code_simp
    moreover have "v2_contiguous env0 [(0, 4), (4, 4)] 2 3 2 (PV 0 4) 0 = Inr [(0, 4), (4, 4)]" by code_simp
    ultimately show ?thesis by simp
  qed
  moreover have "v2_remove env0 2 3 [(0, 4), (4, 4)] pool0 =
      Inr (pool0\<lparr>free_lists := [[(3, 1), (7, 1)], [], []]\<rparr>)" by code_simp
  moreover have "v2_mark env0 2 3 0 0 [(0, 4), (4, 4)] (pool0\<lparr>free_lists := [[(3, 1), (7, 1)], [], []]\<rparr>) = Inr (0, pool2)"
    by code_simp
  moreover have "fl_get pool0 2 = Inr [(0, 4), (4, 4)]" "sub32 (no_free_lists pool0) 1 = 2" "mul32 4 2 = 8"
    "total_size pool0 = 8" "s32 0 = 0" "u32_of_int 0 = 0" "0 \<noteq> M1" by code_simp+
  ultimately show "power2_allocator_alloc_multiple env0 (Some pool0) 3 2 = Inr (0, Some pool2)"
    by (simp add: power2_allocator_alloc_multiple_def power2_allocator_alloc_int_v2_def l shl1_id c_assert_res_def
        del: v2_search.simps)
qed simp_all

section \<open>The whole allocator\<close>

text \<open>Refinement: every call (allocation, release, reservation, allocation and release of
  several blocks, copy) on a pool that satisfies the invariant keeps it and is one step of the
  abstract pool, which only knows its capacity and a map from index to size: it puts blocks where
  they fit, or drops blocks that are there, or does nothing.\<close>

lemma power2_step_refines:
  assumes "p2_step E a b" "quiet E" "p2_inv a"
  shows "p2_inv b \<and> pool_step (pool_of a) (pool_of b)"
  using sim_step [OF assms] by blast

lemma power2_step_refines_witness: "p2_inv pool1 \<and> pool_step (pool_of pool0) (pool_of pool1)"
  by (rule power2_step_refines [OF pool1_step]) simp_all

text \<open>C5: In every state reachable from creation by any sequence of calls, the run-time check
  \<open>power2_allocator_assert\<close> passes, the blocks in use are pairwise disjoint and inside the pool,
  and the next allocation, release, reservation or copy, also of several blocks, runs without a failed
  assertion, an access out of bounds, an undefined shift or a loop that does not end.\<close>

theorem power2_reachable_safe:
  assumes "p2_reach E a" "quiet E"
  shows "power2_allocator_assert E (Some a) = Inr () \<and> disjoint_blocks (set (inuse_list a)) \<and>
    used a \<subseteq> {0..<total_size a} \<and>
    (0 < n \<longrightarrow> (\<exists>r. power2_allocator_alloc E (Some a) n = Inr r)) \<and> (\<exists>r. power2_allocator_release E a i = Inr r) \<and>
    (0 < n \<and> i + n < W32 \<longrightarrow> (\<exists>r. power2_allocator_reserve E a i n = Inr r)) \<and>
    (multi_request a n c \<longrightarrow> (\<exists>r. power2_allocator_alloc_multiple E (Some a) n c = Inr r)) \<and>
    (multi_blocks a i n c \<longrightarrow> (\<exists>r. power2_allocator_release_multiple E a i c = Inr r)) \<and>
    power2_allocator_make_copy E (Some a) = Inr (Some a)"
proof -
  note inv = reach_inv [OF assms]
  have "used a \<subseteq> {0..<total_size a}" using p2_inv_live(3) [OF inv] by (fastforce simp: used_def)
  moreover have "0 < n \<and> i + n < W32 \<longrightarrow> (\<exists>r. power2_allocator_reserve E a i n = Inr r)"
    using reserve_cases [OF assms(2) inv] by blast
  ultimately show ?thesis
    using run_time_check_passes [OF assms(2) inv] p2_inv_live(2) [OF inv] make_copy_ok [OF assms(2) inv]
      sim_alloc [OF assms(2) inv] sim_release [OF assms(2) inv, of i]
      sim_alloc_multiple [OF assms(2) inv, of n c] sim_release_multiple [OF assms(2) inv, of i n c] by blast
qed

lemma power2_reachable_safe_witness:
  "power2_allocator_assert env0 (Some pool1) = Inr () \<and> disjoint_blocks (set (inuse_list pool1)) \<and>
    used pool1 \<subseteq> {0..<total_size pool1} \<and>
    (\<exists>r. power2_allocator_alloc env0 (Some pool1) 2 = Inr r) \<and> (\<exists>r. power2_allocator_release env0 pool1 5 = Inr r) \<and>
    (\<exists>r. power2_allocator_reserve env0 pool1 5 2 = Inr r) \<and>
    power2_allocator_make_copy env0 (Some pool1) = Inr (Some pool1)"
proof -
  have "5 + 2 < W32" by (simp add: W32_def)
  with power2_reachable_safe [OF p2_reach.step [OF pool0_reach pool1_step] quiet_env0, of 2 5] show ?thesis by simp
qed

section \<open>Inspection\<close>

lemma usage_fold:
  "jl_fold (\<lambda>Index v count. Inr (Inr (add32 count v) :: unit + nat)) l c =
     Inr (Inr (if l = [] then c else u32 (c + sum_list (map snd l))))"
proof (induction l arbitrary: c)
  case (Cons p l)
  show ?case
  proof (cases p)
    case (Pair i n)
    with Cons [of "add32 c n"] show ?thesis
      by (auto simp: add32_def u32_def mod_simps ac_simps)
  qed
qed simp

lemma count_fold:
  "0 \<le> c \<Longrightarrow> c + int (length l) < 2147483648 \<Longrightarrow>
    jl_fold (\<lambda>Index v count. if v = n then bnd (inc_int count) (\<lambda>c. Inr (Inr c)) else Inr (Inr count)) l c =
    Inr (Inr (c + int (length (filter (\<lambda>p. snd p = n) l))) :: unit + int)"
proof (induction l arbitrary: c)
  case (Cons p l)
  show ?case
  proof (cases p)
    case (Pair i v)
    with Cons.prems Cons.IH [of c] Cons.IH [of "c + 1"] show ?thesis by (simp add: inc_int_def)
  qed
qed simp

lemma used_card: "p2_inv a \<Longrightarrow> quiet E \<Longrightarrow> card (used a) = sum_list (map snd (inuse_list a)) \<and> card (used a) \<le> total_size a"
proof -
  assume a: "p2_inv a" "quiet E"
  have "block_units (set (inuse_list a)) = used a" by (simp add: block_units_def used_def)
  moreover have "(\<Sum>(i, n) \<in> set (inuse_list a). n) = sum_list (map snd (inuse_list a))"
    using jl_ok_distinct [OF p2_inv_live(1) [OF a(1)]]
    by (simp add: sum_list_distinct_conv_sum_set distinct_map case_prod_unfold)
  ultimately show ?thesis using p2.units_card [of "(E, a)"] a by simp
qed

lemma blocks_length: "blocks_ok c us t \<Longrightarrow> c + length us \<le> t"
  by (induction c us t rule: blocks_ok.induct) auto

text \<open>The inspection functions agree with the pool: \<open>power2_allocator_usage\<close> is the number
  of units in use, \<open>power2_allocator_alloc_count\<close> the number of blocks in use, and
  \<open>power2_allocator_alloc_count_by_size\<close> the number of blocks of one size up to \<open>max_size\<close>
  (pools of less than \<open>2 ^ 31\<close> units, where the \<open>int\<close> results do not overflow).\<close>

lemma power2_counts:
  assumes "quiet E" "p2_inv a" "total_size a < 2147483648" "n \<le> max_size a"
  shows "power2_allocator_usage E a = Inr (int (card (used a))) \<and>
    power2_allocator_alloc_count (Some a) = card (set (inuse_list a)) \<and>
    power2_allocator_alloc_count_by_size E a n = Inr (int (card {i. (i, n) \<in> set (inuse_list a)}))"
proof -
  let ?l = "inuse_list a"
  have ok: "blocks_ok 0 ?l (total_size a)" using assms(2) by (elim p2_invE)
  have len: "length ?l \<le> total_size a" using blocks_length [OF ok] by simp
  note jl = p2_inv_live(1) [OF assms(2)]
  have d: "distinct ?l" "distinct (map fst ?l)" using jl_ok_distinct [OF jl] by (simp_all add: distinct_map)
  have c: "card (used a) = sum_list (map snd ?l)" "card (used a) < 2147483648"
    using used_card [OF assms(2,1)] assms(3) by auto
  then have "power2_allocator_usage E a = Inr (int (card (used a)))"
    by (auto simp: power2_allocator_usage_def jl_while_fold [OF assms(1) jl] usage_fold s32_id u32_id W32_def)
  moreover have "power2_allocator_alloc_count (Some a) = card (set ?l)"
  proof -
    have "filter (\<lambda>p. fst p \<le> W64 - Suc 0) ?l = ?l"
      using p2_inv_live(3) [OF assms(2)] assms(3) by (intro filter_True) (auto simp: W64_def)
    then show ?thesis using d(1) len assms(3)
      by (simp add: power2_allocator_alloc_count_def JLC_def distinct_card u32_id W32_def)
  qed
  moreover have "power2_allocator_alloc_count_by_size E a n = Inr (int (card {i. (i, n) \<in> set ?l}))"
  proof -
    have "{i. (i, n) \<in> set ?l} = fst ` set (filter (\<lambda>p. snd p = n) ?l)" by (force simp: image_iff)
    moreover have "inj_on fst (set (filter (\<lambda>p. snd p = n) ?l))"
      using d(2) by (auto simp: distinct_map intro: inj_on_subset)
    ultimately have "card {i. (i, n) \<in> set ?l} = length (filter (\<lambda>p. snd p = n) ?l)"
      using d(1) by (metis card_image distinct_card distinct_filter)
    then show ?thesis using assms(3,4) len
      by (simp add: power2_allocator_alloc_count_by_size_def jl_while_fold [OF assms(1) jl] count_fold)
  qed
  ultimately show ?thesis by blast
qed

text \<open>\<open>power2_allocator_first_alloc\<close> and \<open>power2_allocator_next_alloc\<close> enumerate the blocks in
  use in ascending order of index and end with -1, in pools of at most \<open>2 ^ 31\<close> units.\<close>

lemma power2_iteration:
  assumes "quiet E" "p2_inv a" "total_size a \<le> 2147483648"
  shows "power2_allocator_first_alloc E (Some a) =
      (if inuse_list a = [] then - 1 else int (fst (inuse_list a ! 0))) \<and>
    (\<forall>k < length (inuse_list a). power2_allocator_next_alloc E (Some a) (int (fst (inuse_list a ! k))) =
      (if Suc k < length (inuse_list a) then int (fst (inuse_list a ! Suc k)) else - 1)) \<and>
    sorted_wrt (<) (map fst (inuse_list a))"
proof -
  let ?l = "inuse_list a"
  note jl = p2_inv_live(1) [OF assms(2)]
  have bound: "fst (?l ! k) < 2147483648" if "k < length ?l" for k
    using p2_inv_live(3) [OF assms(2)] nth_mem [OF that] assms(3) by fastforce
  have "power2_allocator_first_alloc E (Some a) = (if ?l = [] then - 1 else int (fst (?l ! 0)))"
  proof (cases ?l)
    case (Cons p l)
    then show ?thesis using assms(1) bound [of 0]
      by (cases p) (simp add: power2_allocator_first_alloc_def JLF_def jl_first_0 s32_id)
  qed (use assms(1) in \<open>simp add: power2_allocator_first_alloc_def JLF_def jl_first_0\<close>)
  moreover have "power2_allocator_next_alloc E (Some a) (int (fst (?l ! k))) =
      (if Suc k < length ?l then int (fst (?l ! Suc k)) else - 1)" if k: "k < length ?l" for k
  proof -
    let ?i = "fst (?l ! k)"
    have w: "word_of_int (int ?i) = ?i" using bound [OF k] by (simp add: word_of_int_def W64_def)
    have l: "?l = take (Suc k) ?l @ drop (Suc k) ?l" by simp
    have "jl_ok (take k ?l @ ?l ! k # drop (Suc k) ?l)" using jl id_take_nth_drop [OF k] by simp
    then have "\<forall>p \<in> set (take k ?l). fst p < ?i" "\<forall>p \<in> set (drop (Suc k) ?l). ?i < fst p"
      by (auto simp: jl_ok_append jl_ok_Cons [of "fst (?l ! k)" "snd (?l ! k)", simplified])
    then have "jl_next (take (Suc k) ?l @ drop (Suc k) ?l) ?i = (case drop (Suc k) ?l of [] \<Rightarrow> None | p # _ \<Rightarrow> Some p)"
      by (intro jl_next_split) (auto simp: take_Suc_conv_app_nth [OF k])
    then have nx: "jl_next ?l ?i = (if Suc k < length ?l then Some (?l ! Suc k) else None)"
      by (simp add: Cons_nth_drop_Suc [symmetric])
    show ?thesis
    proof (cases "Suc k < length ?l")
      case True
      then show ?thesis using nx w assms(1) bound [OF True]
        by (cases "?l ! Suc k") (simp add: power2_allocator_next_alloc_def JLN_def s32_id)
    qed (use nx w assms(1) in \<open>simp add: power2_allocator_next_alloc_def JLN_def\<close>)
  qed
  ultimately show ?thesis using jl by (simp add: jl_ok_def)
qed

text \<open>What \<open>power2_allocator_print\<close> prints for a list of indexes and sizes.\<close>

definition printed_blocks :: "jl \<Rightarrow> printed list" where
  "printed_blocks l = map (\<lambda>(i, n). Block (int i) (int n)) l"

lemma print_fold:
  "\<forall>(i, n) \<in> set l. i < 2147483648 \<and> n < 2147483648 \<Longrightarrow>
    jl_fold (\<lambda>index v out. Inr (Inr (out @ [Block (s32 index) (s32 v)]))) l out =
      Inr (Inr (out @ printed_blocks l) :: unit + printed list)"
  by (induction l arbitrary: out) (auto simp: printed_blocks_def s32_id)

lemma print_list_ok:
  "quiet E \<Longrightarrow> jl_ok l \<Longrightarrow> \<forall>(i, n) \<in> set l. i < 2147483648 \<and> n < 2147483648 \<Longrightarrow> print_list E l = Inr (printed_blocks l)"
  by (simp add: print_list_def jl_while_fold print_fold)

lemma print_free_lists_ok:
  assumes "quiet E" "\<forall>k \<in> set ks. k < length (free_lists a) \<and> jl_ok (free_lists a ! k) \<and>
    (\<forall>(i, n) \<in> set (free_lists a ! k). i < 2147483648 \<and> n < 2147483648)"
  shows "print_free_lists E a ks = Inr (concat (map (\<lambda>k. Log2 k # printed_blocks (free_lists a ! k)) ks))"
  using assms(2) by (induction ks) (simp_all add: fl_get_def print_list_ok [OF assms(1)])

lemma power2_print:
  assumes "quiet E" "p2_inv a" "total_size a < 2147483648"
  shows "power2_allocator_print E (Some a) =
    Inr (FREE # concat (map (\<lambda>k. Log2 k # printed_blocks (free_lists a ! k)) [0..<no_free_lists a]) @
         USED # printed_blocks (inuse_list a))"
proof -
  obtain m where I: "shape m a" using assms(2) by (elim p2_invE)
  have "k < length (free_lists a) \<and> jl_ok (free_lists a ! k) \<and>
    (\<forall>(i, n) \<in> set (free_lists a ! k). i < 2147483648 \<and> n < 2147483648)" if "k < Suc m" for k
  proof -
    have "(k, i, n) \<in> FL (free_lists a)" if "(i, n) \<in> set (free_lists a ! k)" for i n
      using that \<open>k < Suc m\<close> by (simp add: FL_def shapeD(3) [OF I])
    with FL_bounds [OF assms(2)] shapeD(4) [OF I, of k] assms(3) that show ?thesis
      by (fastforce simp: shapeD(3) [OF I])
  qed
  moreover have "\<forall>(i, n) \<in> set (inuse_list a). i < 2147483648 \<and> n < 2147483648"
    using p2_inv_live(3) [OF assms(2)] assms(3) by fastforce
  ultimately show ?thesis
    using print_free_lists_ok [OF assms(1), of "[0..<Suc m]" a] print_list_ok [OF assms(1) p2_inv_live(1) [OF assms(2)]]
    by (simp add: power2_allocator_print_def shapeD(2) [OF I] del: upt_Suc)
qed

text \<open>C23: The functions that inspect a pool of less than \<open>2 ^ 31\<close> units (where the \<open>int\<close> results do
  not overflow). \<open>power2_allocator_usage\<close> is the number of units in use,
  \<open>power2_allocator_alloc_count\<close> the number of blocks in use, \<open>power2_allocator_alloc_count_by_size\<close>
  the number of blocks of one size up to \<open>max_size\<close>; \<open>power2_allocator_first_alloc\<close> and
  \<open>power2_allocator_next_alloc\<close> enumerate the blocks in use in ascending order of index and end with
  -1; \<open>power2_allocator_print\<close> prints every free chunk, list by list, and every block in use.\<close>

theorem power2_inspection:
  assumes "quiet E" "p2_inv a" "total_size a < 2147483648" "n \<le> max_size a"
  shows "power2_allocator_usage E a = Inr (int (card (used a))) \<and>
    power2_allocator_alloc_count (Some a) = card (set (inuse_list a)) \<and>
    power2_allocator_alloc_count_by_size E a n = Inr (int (card {i. (i, n) \<in> set (inuse_list a)})) \<and>
    power2_allocator_first_alloc E (Some a) = (if inuse_list a = [] then - 1 else int (fst (inuse_list a ! 0))) \<and>
    (\<forall>k < length (inuse_list a). power2_allocator_next_alloc E (Some a) (int (fst (inuse_list a ! k))) =
      (if Suc k < length (inuse_list a) then int (fst (inuse_list a ! Suc k)) else - 1)) \<and>
    sorted_wrt (<) (map fst (inuse_list a)) \<and>
    power2_allocator_print E (Some a) =
      Inr (FREE # concat (map (\<lambda>k. Log2 k # printed_blocks (free_lists a ! k)) [0..<no_free_lists a]) @
         USED # printed_blocks (inuse_list a))"
  using power2_counts [OF assms] power2_iteration [OF assms(1,2)] power2_print [OF assms(1-3)] assms(3) by simp

lemma power2_inspection_witness:
  "power2_allocator_usage env0 pool1 = Inr (int (card (used pool1))) \<and>
    power2_allocator_alloc_count (Some pool1) = card (set (inuse_list pool1)) \<and>
    power2_allocator_alloc_count_by_size env0 pool1 3 = Inr (int (card {i. (i, 3) \<in> set (inuse_list pool1)})) \<and>
    power2_allocator_first_alloc env0 (Some pool1) = 0 \<and> power2_allocator_next_alloc env0 (Some pool1) 0 = - 1 \<and>
    power2_allocator_print env0 (Some pool1) = Inr [FREE, Log2 0, Block 3 1, Log2 1, Log2 2, Block 4 4, USED, Block 0 3]"
proof -
  have "total_size pool1 < 2147483648" "3 \<le> max_size pool1" by (simp_all add: pool1_def)
  from power2_inspection [OF quiet_env0 pool_inv(2) this] show ?thesis
    by (simp add: pool1_def printed_blocks_def upt_rec)
qed

section \<open>Calls outside the contract\<close>

text \<open>A request of size 0 is not rejected: \<open>power2_allocator_alloc\<close> records a block of size 0 in
  use and returns its index; after that \<open>power2_allocator_release\<close> of this index and
  \<open>power2_allocator_reserve\<close> at this index fail the assertion in
  \<open>power2_allocator_get_index_size\<close>.\<close>

lemma power2_alloc_zero:
  "\<exists>b. power2_allocator_alloc env0 (Some pool0) 0 = Inr (3, Some b) \<and> map_of (inuse_list b) 3 = Some 0 \<and>
    power2_allocator_release env0 b 3 = Inl Assert_failed \<and> power2_allocator_reserve env0 b 3 1 = Inl Assert_failed"
proof -
  let ?b = "\<lparr>max_size = 4, total_size = 8, no_free_lists = 3, free_lists = [[(3, 1)], [], [(0, 3), (4, 4)]],
    inuse_list = [(3, 0)]\<rparr>"
  have "power2_allocator_alloc env0 (Some pool0) 0 = Inr (3, Some ?b)" by code_simp
  moreover have "power2_allocator_release env0 ?b 3 = Inl Assert_failed" by code_simp
  moreover have "power2_allocator_reserve env0 ?b 3 1 = Inl Assert_failed" by code_simp
  ultimately show ?thesis by simp
qed

text \<open>\<open>power2_allocator_reserve\<close> adds index and size in 32 bits: a region whose end wraps around is
  accepted on an empty pool of 8 units (return code 0), the state no longer passes the run-time
  check, and two later allocations return blocks that overlap.\<close>

lemma power2_reserve_wraps:
  "\<exists>b c d. power2_allocator_reserve env0 pool0 6 4294967292 = Inr (0, b) \<and>
    power2_allocator_assert env0 (Some b) = Inl Assert_failed \<and>
    power2_allocator_alloc env0 (Some b) 4 = Inr (0, Some c) \<and>
    power2_allocator_alloc env0 (Some c) 2 = Inr (2, Some d) \<and> (0, 4) \<in> set (inuse_list d) \<and> (2, 2) \<in> set (inuse_list d)"
proof -
  let ?b = "\<lparr>max_size = 4, total_size = 8, no_free_lists = 3, free_lists = [[], [(2, 2), (4, 2)], [(0, 4), (4, 4)]],
    inuse_list = [(6, 4294967292)]\<rparr>"
  let ?c = "?b\<lparr>free_lists := [[], [(2, 2), (4, 2)], [(4, 4)]], inuse_list := [(0, 4), (6, 4294967292)]\<rparr>"
  let ?d = "?b\<lparr>free_lists := [[], [(4, 2)], [(4, 4)]], inuse_list := [(0, 4), (2, 2), (6, 4294967292)]\<rparr>"
  have "power2_allocator_reserve env0 pool0 6 4294967292 = Inr (0, ?b)" by code_simp
  moreover have "power2_allocator_assert env0 (Some ?b) = Inl Assert_failed" by code_simp
  moreover have "power2_allocator_alloc env0 (Some ?b) 4 = Inr (0, Some ?c)" by code_simp
  moreover have "power2_allocator_alloc env0 (Some ?c) 2 = Inr (2, Some ?d)" by code_simp
  ultimately show ?thesis by (intro exI [of _ ?b] exI [of _ ?c] exI [of _ ?d]) simp
qed

definition pool_big :: power2_allocator where
  "pool_big = \<lparr>max_size = 1073741824, total_size = 3221225472, no_free_lists = 31,
     free_lists = replicate 30 [] @ [[(1073741824, 1073741824), (2147483648, 1073741824)]],
     inuse_list = [(0, 1073741824)]\<rparr>"

text \<open>C40: In a pool of \<open>3 * 2 ^ 30\<close> units with its first third in use, a state reachable by
  creation and one reservation, the search loop of \<open>power2_allocator_alloc_multiple\<close> for two
  blocks of \<open>2 ^ 30\<close> never ends: \<open>next_index\<close> wraps from \<open>2 ^ 31\<close> to 0.\<close>

theorem power2_alloc_multiple_diverges:
  "p2_reach env0 pool_big \<and> power2_allocator_alloc_multiple env0 (Some pool_big) 1073741824 2 = Inl Diverges"
proof
  let ?p = "pool_big\<lparr>free_lists := replicate 30 [] @ [[(0, 1073741824), (1073741824, 1073741824), (2147483648, 1073741824)]],
    inuse_list := []\<rparr>"
  have "power2_allocator_create env0 1073741824 3 = Inr (Some ?p)" by code_simp
  then have "p2_reach env0 ?p" by (rule p2_reach.create [rotated 2]) (simp_all add: W32_def M1_def)
  moreover have "power2_allocator_reserve env0 ?p 0 1073741824 = Inr (0, pool_big)" by code_simp
  then have "p2_step env0 ?p pool_big" by (rule p2_step.reserve [rotated 2]) (simp_all add: W32_def)
  ultimately show "p2_reach env0 pool_big" by (rule p2_reach.step)
  let ?l = "[(1073741824, 1073741824), (2147483648, 1073741824)]"
  have f: "JLF env0 ?l 0 = PV 1073741824 1073741824" "JLF env0 ?l 2147483648 = PV 2147483648 1073741824"
    "v2_contiguous env0 ?l 30 1073741824 2 (PV 2147483648 1073741824) 2147483648 = Inr [(2147483648, 1073741824)]"
    by code_simp+
  have u: "u32 2147483648 = 2147483648" "u32 4294967296 = 0" by code_simp+
  have "v2_search env0 ?l 30 1073741824 2 2147483648 fuel 0 = Inl Diverges \<and>
      v2_search env0 ?l 30 1073741824 2 2147483648 fuel 2147483648 = Inl Diverges" for fuel
    by (induction fuel) (simp_all add: f u)
  then have "v2_search env0 ?l 30 1073741824 2 2147483648 (Suc W32) 0 = Inl Diverges" by blast
  moreover have "log2_uint32_ceil 1073741824 = 30" "log2_uint32_ceil 2147483648 = 31" "mul32 1073741824 2 = 2147483648"
    "total_size pool_big = 3221225472" "sub32 (no_free_lists pool_big) 1 = 30" "shl1 30 = Inr 1073741824" "shl1 31 = Inr 2147483648"
    "fl_get pool_big 30 = Inr ?l"
    by code_simp+
  ultimately show "power2_allocator_alloc_multiple env0 (Some pool_big) 1073741824 2 = Inl Diverges"
    by (simp add: power2_allocator_alloc_multiple_def power2_allocator_alloc_int_v2_def c_assert_res_def del: v2_search.simps)
qed

end
