(* ===== verification/Power2_Client.thy ===== *)
theory Power2_Client
  imports Power2_Props
begin

text \<open>
  Programs over a pool: any sequence of the calls of power2\_allocator.c with their return values.
  \<open>pool_reply\<close> is the abstract pool, a capacity and a map from the index of a block in use to its
  size, with the size class \<open>msz\<close> it was created for: it says of every call which results are
  allowed and what becomes of the blocks. A call of the code is one of its steps; an allocation
  may choose any aligned place where the block fits, every other result is determined.
\<close>

section \<open>Calls and results\<close>

datatype pool_call =
    P_alloc nat
  | P_release nat
  | P_reserve nat nat
  | P_alloc_multiple nat nat
  | P_release_multiple nat nat
  | P_copy
  | P_assert
  | P_usage
  | P_alloc_count
  | P_count_by_size nat
  | P_first
  | P_next nat

text \<open>\<open>P_copy\<close> goes on with the copy; its result is 1, that of \<open>P_assert\<close> 0.\<close>

definition with_pool :: "'r \<times> power2_allocator option \<Rightarrow> ('r \<times> power2_allocator) res" where
  "with_pool r = (case snd r of None \<Rightarrow> Inl Bad_access | Some a \<Rightarrow> Inr (fst r, a))"

fun pool_do :: "env \<Rightarrow> pool_call \<Rightarrow> power2_allocator \<Rightarrow> (int \<times> power2_allocator) res" where
  "pool_do E (P_alloc n) a = bnd (power2_allocator_alloc E (Some a) n) with_pool"
| "pool_do E (P_release i) a = power2_allocator_release E a i"
| "pool_do E (P_reserve i n) a = power2_allocator_reserve E a i n"
| "pool_do E (P_alloc_multiple n c) a = bnd (power2_allocator_alloc_multiple E (Some a) n c) with_pool"
| "pool_do E (P_release_multiple i c) a = power2_allocator_release_multiple E a i c"
| "pool_do E P_copy a = bnd (power2_allocator_make_copy E (Some a)) (\<lambda>b. with_pool (1, b))"
| "pool_do E P_assert a = bnd (power2_allocator_assert E (Some a)) (\<lambda>_. Inr (0, a))"
| "pool_do E P_usage a = bnd (power2_allocator_usage E a) (\<lambda>r. Inr (r, a))"
| "pool_do E P_alloc_count a = Inr (int (power2_allocator_alloc_count (Some a)), a)"
| "pool_do E (P_count_by_size n) a = bnd (power2_allocator_alloc_count_by_size E a n) (\<lambda>r. Inr (r, a))"
| "pool_do E P_first a = Inr (power2_allocator_first_alloc E (Some a), a)"
| "pool_do E (P_next i) a = Inr (power2_allocator_next_alloc E (Some a) (int i), a)"

fun pool_run :: "env \<Rightarrow> pool_call list \<Rightarrow> power2_allocator \<Rightarrow> (int list \<times> power2_allocator) res" where
  "pool_run E [] a = Inr ([], a)"
| "pool_run E (c # cs) a = bnd (pool_do E c a) (\<lambda>(r, a). bnd (pool_run E cs a) (\<lambda>(rs, a). Inr (r # rs, a)))"

section \<open>The abstract pool\<close>

definition aligned :: "nat \<Rightarrow> nat \<Rightarrow> bool" where
  "aligned n i \<longleftrightarrow> 2 ^ log2_uint32_ceil n dvd i"

definition row_fits :: "pool \<Rightarrow> nat \<Rightarrow> nat \<Rightarrow> nat \<Rightarrow> nat \<Rightarrow> bool" where
  "row_fits P i d c n \<longleftrightarrow> (\<forall>x \<in> row i d c. fits P x n)"

definition units :: "pool \<Rightarrow> nat set" where
  "units P = {x. \<exists>i n. blocks P i = Some n \<and> i \<le> x \<and> x < i + n}"

inductive pool_reply :: "nat \<Rightarrow> pool_call \<Rightarrow> int \<Rightarrow> pool \<Rightarrow> pool \<Rightarrow> bool" for msz where
  alloc: "n \<le> msz \<Longrightarrow> aligned n i \<Longrightarrow> fits P i n \<Longrightarrow>
    pool_reply msz (P_alloc n) (s32 i) P (P\<lparr>blocks := (blocks P)(i \<mapsto> n)\<rparr>)"
| alloc_none: "n \<le> msz \<longrightarrow> (\<forall>i. aligned n i \<longrightarrow> \<not> fits P i n) \<Longrightarrow> pool_reply msz (P_alloc n) (- 1) P P"
| release: "blocks P i = Some n \<Longrightarrow> pool_reply msz (P_release i) 0 P (P\<lparr>blocks := (blocks P)(i := None)\<rparr>)"
| release_none: "blocks P i = None \<Longrightarrow> pool_reply msz (P_release i) (- 1) P P"
| reserve: "fits P i n \<Longrightarrow> pool_reply msz (P_reserve i n) 0 P (P\<lparr>blocks := (blocks P)(i \<mapsto> n)\<rparr>)"
| reserve_taken: "\<not> fits P i n \<Longrightarrow> i + n \<le> capacity P \<Longrightarrow> pool_reply msz (P_reserve i n) 1 P P"
| reserve_outside: "capacity P < i + n \<Longrightarrow> pool_reply msz (P_reserve i n) 1 P P"
| one: "pool_reply msz (P_alloc n) r P Q \<Longrightarrow> pool_reply msz (P_alloc_multiple n 1) r P Q"
| several: "1 < c \<Longrightarrow> msz = 2 ^ log2_uint32_ceil n \<Longrightarrow> aligned (msz * c) i \<Longrightarrow> row_fits P i msz c n \<Longrightarrow>
    pool_reply msz (P_alloc_multiple n c) (s32 i) P (P\<lparr>blocks := (\<lambda>x. if x \<in> row i msz c then Some n else blocks P x)\<rparr>)"
| several_none: "1 < c \<Longrightarrow> msz = 2 ^ log2_uint32_ceil n \<and> msz * c \<le> capacity P \<longrightarrow> (\<forall>i. aligned (msz * c) i \<longrightarrow> \<not> row_fits P i msz c n) \<Longrightarrow>
    pool_reply msz (P_alloc_multiple n c) (- 1) P P"
| release_one: "pool_reply msz (P_release i) r P Q \<Longrightarrow> pool_reply msz (P_release_multiple i 1) r P Q"
| release_row: "1 < c \<Longrightarrow> \<forall>x \<in> row i msz c. blocks P x = Some n \<Longrightarrow>
    pool_reply msz (P_release_multiple i c) 0 P (P\<lparr>blocks := (\<lambda>x. if x \<in> row i msz c then None else blocks P x)\<rparr>)"
| copy: "pool_reply msz P_copy 1 P P"
| check: "pool_reply msz P_assert 0 P P"
| usage: "pool_reply msz P_usage (int (card (units P))) P P"
| alloc_count: "pool_reply msz P_alloc_count (int (card (dom (blocks P)))) P P"
| count_by_size: "pool_reply msz (P_count_by_size n) (if msz < n then 0 else int (card {i. blocks P i = Some n})) P P"
| first: "least_from (blocks P) 0 i n \<Longrightarrow> pool_reply msz P_first (int i) P P"
| first_none: "none_from (blocks P) 0 \<Longrightarrow> pool_reply msz P_first (- 1) P P"
| "next": "least_from (blocks P) (Suc k) i n \<Longrightarrow> pool_reply msz (P_next k) (int i) P P"
| next_none: "none_from (blocks P) (Suc k) \<Longrightarrow> pool_reply msz (P_next k) (- 1) P P"

inductive pool_replies :: "nat \<Rightarrow> pool_call list \<Rightarrow> int list \<Rightarrow> pool \<Rightarrow> pool \<Rightarrow> bool" for msz where
  Nil: "pool_replies msz [] [] P P"
| Cons: "pool_reply msz c r P Q \<Longrightarrow> pool_replies msz cs rs Q R \<Longrightarrow> pool_replies msz (c # cs) (r # rs) P R"

section \<open>The contract of the calls\<close>

text \<open>Sizes are positive, a reserved range does not wrap, a request for several blocks stays within the
  arithmetic (\<open>multi_request\<close>), several blocks are released where they are in use, and the
  counting functions are for pools whose counts are an \<open>int\<close>.\<close>

definition pool_call_ok :: "power2_allocator \<Rightarrow> pool_call \<Rightarrow> bool" where
  "pool_call_ok a c \<longleftrightarrow> (case c of
     P_alloc n \<Rightarrow> 0 < n
   | P_release i \<Rightarrow> True
   | P_reserve i n \<Rightarrow> 0 < n \<and> i + n < W32
   | P_alloc_multiple n c \<Rightarrow> multi_request a n c
   | P_release_multiple i c \<Rightarrow> c = 1 \<or> (case map_of (inuse_list a) i of None \<Rightarrow> False | Some n \<Rightarrow> multi_blocks a i n c)
   | P_copy \<Rightarrow> True
   | P_assert \<Rightarrow> True
   | P_next i \<Rightarrow> total_size a < 2147483648 \<and> i < 2147483648
   | _ \<Rightarrow> total_size a < 2147483648)"

fun pool_calls_ok :: "env \<Rightarrow> pool_call list \<Rightarrow> power2_allocator \<Rightarrow> bool" where
  "pool_calls_ok E [] a = True"
| "pool_calls_ok E (c # cs) a \<longleftrightarrow> pool_call_ok a c \<and>
     (case pool_do E c a of Inl _ \<Rightarrow> True | Inr (r, a) \<Rightarrow> pool_calls_ok E cs a)"

section \<open>Every call is a step\<close>

definition pool_done :: "env \<Rightarrow> pool_call \<Rightarrow> power2_allocator \<Rightarrow> bool" where
  "pool_done E c a \<longleftrightarrow> (\<exists>r b. pool_do E c a = Inr (r, b) \<and> pool_reply (max_size a) c r (pool_of a) (pool_of b) \<and>
     p2_inv b \<and> max_size b = max_size a)"

lemma pool_doneI:
  "pool_do E c a = Inr (r, b) \<Longrightarrow> pool_reply (max_size a) c r (pool_of a) (pool_of b) \<Longrightarrow> p2_inv b \<Longrightarrow>
    max_size b = max_size a \<Longrightarrow> pool_done E c a"
  unfolding pool_done_def by blast

lemma with_pool_simps [simp]: "with_pool (r, Some a) = Inr (r, a)" "with_pool (r, None) = Inl Bad_access"
  by (simp_all add: with_pool_def)

lemma pool_put: "total_size b = total_size a \<Longrightarrow> inuse_list b = jl_put i n (inuse_list a) \<Longrightarrow>
    pool_of b = (pool_of a)\<lparr>blocks := (blocks (pool_of a))(i \<mapsto> n)\<rparr>"
  by (simp add: pool_of_def map_of_jl_put)

lemma done_alloc:
  assumes E: "quiet E" "p2_inv a" and n: "0 < n"
  shows "pool_done E (P_alloc n) a"
proof (cases "n \<le> max_size a")
  case True
  from alloc_cases [OF E n True] show ?thesis
  proof (elim disjE exE conjE)
    fix i b assume b: "power2_allocator_alloc E (Some a) n = Inr (s32 i, Some b)" "p2_inv b" "2 ^ log2_uint32_ceil n dvd i"
      "region_free a i n" "inuse_list b = jl_put i n (inuse_list a)" "max_size b = max_size a" "total_size b = total_size a"
    have "pool_reply (max_size a) (P_alloc n) (s32 i) (pool_of a) (pool_of b)"
      unfolding pool_put [OF b(7,5)] using True b(3,4) E(2)
      by (intro pool_reply.alloc) (simp_all add: aligned_def fits_pool_of)
    with b show ?thesis by (intro pool_doneI [of _ _ _ "s32 i" b]) simp_all
  next
    assume b: "power2_allocator_alloc E (Some a) n = Inr (- 1, Some a)" "\<forall>i. 2 ^ log2_uint32_ceil n dvd i \<longrightarrow> \<not> region_free a i n"
    then have "pool_reply (max_size a) (P_alloc n) (- 1) (pool_of a) (pool_of a)"
      using E(2) by (intro pool_reply.alloc_none) (simp add: aligned_def fits_pool_of)
    with b(1) E(2) show ?thesis by (intro pool_doneI [of _ _ _ "- 1" a]) simp_all
  qed
next
  case False
  then have "power2_allocator_alloc E (Some a) n = Inr (- 1, Some a)" by (simp add: power2_allocator_alloc_def)
  with False E(2) pool_reply.alloc_none [of n "max_size a" "pool_of a"] show ?thesis
    by (intro pool_doneI [of _ _ _ "- 1" a]) simp_all
qed

lemma done_release:
  assumes E: "quiet E" "p2_inv a"
  shows "pool_done E (P_release i) a"
proof (cases "map_of (inuse_list a) i")
  case None
  then have "pool_reply (max_size a) (P_release i) (- 1) (pool_of a) (pool_of a)"
    by (intro pool_reply.release_none) (simp add: pool_of_def)
  with release_absent [OF E(1) None] E(2) show ?thesis by (intro pool_doneI [of _ _ _ "- 1" a]) simp_all
next
  case (Some n)
  from release_present [OF E map_of_SomeD [OF Some]] obtain b where b: "power2_allocator_release E a i = Inr (0, b)"
    "p2_inv b" "inuse_list b = jl_del i (inuse_list a)" "total_size b = total_size a" "max_size b = max_size a" by blast
  have "pool_of b = (pool_of a)\<lparr>blocks := (blocks (pool_of a))(i := None)\<rparr>"
    using b(3,4) map_of_jl_del [OF p2_inv_live(1) [OF E(2)]] by (simp add: pool_of_def)
  moreover have "blocks (pool_of a) i = Some n" using Some by (simp add: pool_of_def)
  ultimately have "pool_reply (max_size a) (P_release i) 0 (pool_of a) (pool_of b)"
    using pool_reply.release [of "pool_of a" i n "max_size a"] by simp
  with b show ?thesis by (intro pool_doneI [of _ _ _ 0 b]) simp_all
qed

lemma done_reserve:
  assumes E: "quiet E" "p2_inv a" and n: "0 < n" "i + n < W32"
  shows "pool_done E (P_reserve i n) a"
proof -
  from reserve_cases [OF E n] show ?thesis
  proof (elim disjE exE conjE)
    fix b assume b: "region_free a i n" "power2_allocator_reserve E a i n = Inr (0, b)" "p2_inv b"
      "inuse_list b = jl_put i n (inuse_list a)" "max_size b = max_size a" "total_size b = total_size a"
    have "pool_reply (max_size a) (P_reserve i n) 0 (pool_of a) (pool_of b)"
      unfolding pool_put [OF b(6,4)] using b(1) E(2) by (intro pool_reply.reserve) (simp add: fits_pool_of)
    with b show ?thesis by (intro pool_doneI [of _ _ _ 0 b]) simp_all
  next
    assume b: "\<not> region_free a i n" "power2_allocator_reserve E a i n = Inr (1, a)"
    then have "pool_reply (max_size a) (P_reserve i n) 1 (pool_of a) (pool_of a)"
      using pool_reply.reserve_taken [of "pool_of a" i n] pool_reply.reserve_outside [of "pool_of a" i n]
      by (cases "i + n \<le> capacity (pool_of a)") (simp_all add: fits_pool_of [OF E(2)])
    with b E(2) show ?thesis by (intro pool_doneI [of _ _ _ 1 a]) simp_all
  qed
qed

lemma done_alloc_multiple:
  assumes E: "quiet E" "p2_inv a" and req: "multi_request a n c"
  shows "pool_done E (P_alloc_multiple n c) a"
proof -
  let ?k = "log2_uint32_ceil n"
  have n: "0 < n" "n < W32" and c: "0 < c" and W: "2 ^ ?k * c < W32" "total_size a + 2 ^ log2_uint32_ceil (2 ^ ?k * c) \<le> W32"
    using req by (auto simp: multi_request_def)
  have le: "n \<le> 2 ^ ?k" using n(2) by (rule log2_ceil_ge)
  have cap: "capacity (pool_of a) = total_size a" by (simp add: pool_of_def)
  have row: "row_fits (pool_of a) p d c n \<longleftrightarrow> (\<forall>j < c. region_free a (p + j * d) n)" for p d
    by (simp add: row_fits_def ball_row fits_pool_of [OF E(2)])
  consider "c = 1" | "1 < c" "max_size a = 2 ^ ?k" | "1 < c" "max_size a \<noteq> 2 ^ ?k" using c by linarith
  then show ?thesis
  proof cases
    case 1
    from done_alloc [OF E n(1)] obtain r b where "pool_do E (P_alloc n) a = Inr (r, b)"
      "pool_reply (max_size a) (P_alloc n) r (pool_of a) (pool_of b)" "p2_inv b" "max_size b = max_size a"
      by (auto simp: pool_done_def)
    with 1 pool_reply.one show ?thesis
      by (intro pool_doneI [of _ _ _ r b]) (simp_all add: power2_allocator_alloc_multiple_def)
  next
    case 2
    from alloc_multiple_cases [OF E n(1) 2(2) le 2(1) W] show ?thesis
    proof (elim disjE exE conjE)
      fix p b assume b: "power2_allocator_alloc_multiple E (Some a) n c = Inr (s32 p, Some b)" "p2_inv b"
        "2 ^ log2_uint32_ceil (2 ^ ?k * c) dvd p" "\<forall>j < c. region_free a (p + j * 2 ^ ?k) n" "max_size b = max_size a"
        "total_size b = total_size a" "set (inuse_list b) = set (inuse_list a) \<union> (\<lambda>j. (p + j * 2 ^ ?k, n)) ` {0..<c}"
      have "\<forall>x \<in> row p (max_size a) c. region_free a x n" using b(4) 2(2) by (simp add: ball_row)
      from pool_put_row [OF E(2) b(2,6) n(1) this] b(7)
      have "pool_of b = (pool_of a)\<lparr>blocks := (\<lambda>x. if x \<in> row p (max_size a) c then Some n else blocks (pool_of a) x)\<rparr>"
        unfolding row_image 2(2) by blast
      moreover have "aligned (max_size a * c) p" "row_fits (pool_of a) p (max_size a) c n"
        using b(3,4) 2(2) by (simp_all add: aligned_def row)
      ultimately have "pool_reply (max_size a) (P_alloc_multiple n c) (s32 p) (pool_of a) (pool_of b)"
        using pool_reply.several [OF 2] by simp
      with b show ?thesis by (intro pool_doneI [of _ _ _ "s32 p" b]) simp_all
    next
      assume b: "power2_allocator_alloc_multiple E (Some a) n c = Inr (- 1, Some a)" "total_size a < 2 ^ ?k * c"
      with 2 have "pool_reply (max_size a) (P_alloc_multiple n c) (- 1) (pool_of a) (pool_of a)"
        by (intro pool_reply.several_none) (simp_all add: cap)
      with b(1) E(2) show ?thesis by (intro pool_doneI [of _ _ _ "- 1" a]) simp_all
    next
      assume b: "power2_allocator_alloc_multiple E (Some a) n c = Inr (- 1, Some a)"
        "\<forall>p. 2 ^ log2_uint32_ceil (2 ^ ?k * c) dvd p \<longrightarrow> (\<exists>j < c. \<not> region_free a (p + j * 2 ^ ?k) n)"
      with 2 have "pool_reply (max_size a) (P_alloc_multiple n c) (- 1) (pool_of a) (pool_of a)"
        by (intro pool_reply.several_none) (auto simp: aligned_def row)
      with b(1) E(2) show ?thesis by (intro pool_doneI [of _ _ _ "- 1" a]) simp_all
    qed
  next
    case 3
    then have "pool_reply (max_size a) (P_alloc_multiple n c) (- 1) (pool_of a) (pool_of a)"
      by (intro pool_reply.several_none) simp_all
    with alloc_multiple_other_size [OF E(2) req] 3 E(2) show ?thesis by (intro pool_doneI [of _ _ _ "- 1" a]) simp_all
  qed
qed

lemma done_release_multiple:
  assumes E: "quiet E" "p2_inv a" and req: "c = 1 \<or> multi_blocks a i n c"
  shows "pool_done E (P_release_multiple i c) a"
proof (cases "c = 1")
  case True
  from done_release [OF E, of i] obtain r b where "pool_do E (P_release i) a = Inr (r, b)"
    "pool_reply (max_size a) (P_release i) r (pool_of a) (pool_of b)" "p2_inv b" "max_size b = max_size a"
    by (auto simp: pool_done_def)
  with True pool_reply.release_one show ?thesis
    by (intro pool_doneI [of _ _ _ r b]) (simp_all add: power2_allocator_release_multiple_def)
next
  case False
  let ?d = "max_size a"
  have r: "max_size a = 2 ^ log2_uint32_ceil n" "1 < c" "max_size a dvd i" "\<forall>j < c. (i + j * ?d, n) \<in> set (inuse_list a)"
    using req False by (auto simp: multi_blocks_def ball_row)
  from release_multiple_ok [OF E r] obtain b where b: "power2_allocator_release_multiple E a i c = Inr (0, b)" "p2_inv b"
    "total_size b = total_size a" "set (inuse_list b) = set (inuse_list a) - (\<lambda>x. (x, n)) ` row i ?d c"
    "max_size b = max_size a"
    unfolding row_image by blast
  have mem: "\<forall>x \<in> row i ?d c. (x, n) \<in> set (inuse_list a)" using r(4) by (simp add: ball_row)
  then have "\<forall>x \<in> row i ?d c. blocks (pool_of a) x = Some n"
    by (simp add: pool_of_def map_of_jl [OF p2_inv_live(1) [OF E(2)]])
  from pool_reply.release_row [OF r(2) this] pool_drop_row [OF E(2) b(2,3) mem b(4)]
  have "pool_reply (max_size a) (P_release_multiple i c) 0 (pool_of a) (pool_of b)" by simp
  with b show ?thesis by (intro pool_doneI [of _ _ _ 0 b]) simp_all
qed

section \<open>Inspection\<close>

lemma blocks_mem: "p2_inv a \<Longrightarrow> blocks (pool_of a) i = Some n \<longleftrightarrow> (i, n) \<in> set (inuse_list a)"
  by (simp add: pool_of_def map_of_jl [OF p2_inv_live(1)])

lemma units_used: "p2_inv a \<Longrightarrow> units (pool_of a) = used a"
  by (fastforce simp: units_def used_def blocks_mem)

lemma dom_blocks: "p2_inv a \<Longrightarrow> card (dom (blocks (pool_of a))) = card (set (inuse_list a))"
  using jl_ok_distinct [OF p2_inv_live(1), of a]
  by (auto simp: pool_of_def dom_map_of_conv_image_fst distinct_map intro: card_image)

text \<open>A call that only reads.\<close>

lemma done_same:
  "pool_do E c a = Inr (r, a) \<Longrightarrow> pool_reply (max_size a) c r (pool_of a) (pool_of a) \<Longrightarrow> p2_inv a \<Longrightarrow> pool_done E c a"
  by (intro pool_doneI [of _ _ _ r a]) simp_all

lemma done_counts:
  assumes E: "quiet E" "p2_inv a" and t: "total_size a < 2147483648"
  shows "pool_done E P_usage a" "pool_done E P_alloc_count a" "pool_done E (P_count_by_size n) a"
proof -
  note c = power2_counts [OF E t]
  show "pool_done E P_usage a"
    using c [of 0] pool_reply.usage [of "max_size a" "pool_of a"] units_used [OF E(2)]
    by (intro done_same [of _ _ _ "int (card (units (pool_of a)))"] E(2)) simp_all
  show "pool_done E P_alloc_count a"
    using c [of 0] pool_reply.alloc_count [of "max_size a" "pool_of a"] dom_blocks [OF E(2)]
    by (intro done_same [of _ _ _ "int (card (dom (blocks (pool_of a))))"] E(2)) simp_all
  show "pool_done E (P_count_by_size n) a"
  proof (rule done_same [OF _ pool_reply.count_by_size E(2)])
    show "pool_do E (P_count_by_size n) a =
        Inr (if max_size a < n then 0 else int (card {i. blocks (pool_of a) i = Some n}), a)"
      using c [of n] by (simp add: blocks_mem [OF E(2)] power2_allocator_alloc_count_by_size_def)
  qed
qed

lemma block_start:
  assumes "p2_inv a" "total_size a < 2147483648" "least_from (map_of (inuse_list a)) j i n"
  shows "i < 2147483648"
proof -
  have "(i, n) \<in> set (inuse_list a)" using assms(3) map_of_SomeD by (force simp: least_from_def)
  with p2_inv_live(3) [OF assms(1)] assms(2) show ?thesis by fastforce
qed

lemma done_first:
  assumes E: "quiet E" "p2_inv a" and t: "total_size a < 2147483648"
  shows "pool_done E P_first a"
proof (cases "jl_first (inuse_list a) 0")
  case None
  then have "none_from (blocks (pool_of a)) 0"
    using jl_first_map [OF p2_inv_live(1) [OF E(2)]] by (simp add: pool_of_def)
  from pool_reply.first_none [OF this] None E show ?thesis
    by (intro done_same [of _ _ _ "- 1"]) (simp_all add: power2_allocator_first_alloc_def JLF_def)
next
  case (Some p)
  obtain i n where p: "p = (i, n)" by (cases p)
  have l: "least_from (map_of (inuse_list a)) 0 i n"
    using Some p jl_first_map [OF p2_inv_live(1) [OF E(2)]] by simp
  then have "pool_reply (max_size a) P_first (int i) (pool_of a) (pool_of a)"
    by (intro pool_reply.first) (simp add: pool_of_def)
  with Some p E s32_id [OF block_start [OF E(2) t l]] show ?thesis
    by (intro done_same [of _ _ _ "int i"]) (simp_all add: power2_allocator_first_alloc_def JLF_def)
qed

lemma done_next:
  assumes E: "quiet E" "p2_inv a" and t: "total_size a < 2147483648" and k: "k < 2147483648"
  shows "pool_done E (P_next k) a"
proof -
  have w: "word_of_int (int k) = k" using k by (simp add: word_of_int_def W64_def)
  note nx = jl_next_map [OF p2_inv_live(1) [OF E(2)], of k]
  show ?thesis
  proof (cases "jl_next (inuse_list a) k")
    case None
    then have "none_from (blocks (pool_of a)) (Suc k)" using nx by (simp add: pool_of_def)
    from pool_reply.next_none [OF this] None w E show ?thesis
      by (intro done_same [of _ _ _ "- 1"]) (simp_all add: power2_allocator_next_alloc_def JLN_def)
  next
    case (Some p)
    obtain i n where p: "p = (i, n)" by (cases p)
    have l: "least_from (map_of (inuse_list a)) (Suc k) i n" using Some p nx by simp
    then have "pool_reply (max_size a) (P_next k) (int i) (pool_of a) (pool_of a)"
      by (intro pool_reply.next) (simp add: pool_of_def)
    with Some p w E s32_id [OF block_start [OF E(2) t l]] show ?thesis
      by (intro done_same [of _ _ _ "int i"]) (simp_all add: power2_allocator_next_alloc_def JLN_def)
  qed
qed

section \<open>Sequences of calls\<close>

lemma pool_do_done:
  assumes E: "quiet E" "p2_inv a" and c: "pool_call_ok a c"
  shows "pool_done E c a"
proof (cases c)
  case (P_alloc n)
  with done_alloc [OF E] c show ?thesis by (simp add: pool_call_ok_def)
next
  case (P_release i)
  with done_release [OF E] show ?thesis by simp
next
  case (P_reserve i n)
  with done_reserve [OF E] c show ?thesis by (simp add: pool_call_ok_def)
next
  case (P_alloc_multiple n k)
  with done_alloc_multiple [OF E] c show ?thesis by (simp add: pool_call_ok_def)
next
  case (P_release_multiple i k)
  with done_release_multiple [OF E, of k i] c show ?thesis by (auto simp: pool_call_ok_def split: option.splits)
next
  case P_copy
  with make_copy_ok [OF E] pool_reply.copy E(2) show ?thesis by (intro done_same [of _ _ _ 1]) simp_all
next
  case P_assert
  with run_time_check_passes [OF E] pool_reply.check E(2) show ?thesis by (intro done_same [of _ _ _ 0]) simp_all
next
  case P_usage
  with done_counts(1) [OF E] c show ?thesis by (simp add: pool_call_ok_def)
next
  case P_alloc_count
  with done_counts(2) [OF E] c show ?thesis by (simp add: pool_call_ok_def)
next
  case (P_count_by_size n)
  with done_counts(3) [OF E] c show ?thesis by (simp add: pool_call_ok_def)
next
  case P_first
  with done_first [OF E] c show ?thesis by (simp add: pool_call_ok_def)
next
  case (P_next k)
  with done_next [OF E] c show ?thesis by (simp add: pool_call_ok_def)
qed

lemma pool_run_replies:
  "quiet E \<Longrightarrow> p2_inv a \<Longrightarrow> pool_calls_ok E cs a \<Longrightarrow>
    \<exists>rs b. pool_run E cs a = Inr (rs, b) \<and> pool_replies (max_size a) cs rs (pool_of a) (pool_of b) \<and> p2_inv b"
proof (induction cs arbitrary: a)
  case (Cons c cs)
  from Cons.prems(3) have "pool_call_ok a c" by simp
  from pool_do_done [OF Cons.prems(1,2) this] obtain r d where
    d: "pool_do E c a = Inr (r, d)" "pool_reply (max_size a) c r (pool_of a) (pool_of d)" "p2_inv d" "max_size d = max_size a"
    by (auto simp: pool_done_def)
  from Cons.IH [OF Cons.prems(1) d(3)] Cons.prems(3) d(1) obtain rs b where
    "pool_run E cs d = Inr (rs, b)" "pool_replies (max_size d) cs rs (pool_of d) (pool_of b)" "p2_inv b" by auto
  with d show ?case by (auto intro: pool_replies.Cons)
qed (auto intro: pool_replies.Nil)

section \<open>Properties\<close>

text \<open>C4: any sequence of calls on a new pool (allocation, release, reservation, several blocks, copy, the
  run-time check, the counting and enumerating functions), within the contract of the calls, returns and
  leaves what the abstract pool allows: an allocation gives an aligned place where the block fits,
  and fails exactly when there is none; a release succeeds exactly at the index of a block in use; a
  reservation succeeds exactly when the range is free, and replies 1 both when it meets a block in use
  and when it leaves the pool (where the header promises -1); the counts are those of the blocks in
  use; no call changes anything else, and the invariant holds at the end.\<close>

theorem power2_client_refines:
  assumes "quiet E" "sz < W32" "sz * count < M1" "power2_allocator_create E sz count = Inr (Some a)" "pool_calls_ok E cs a"
  shows "\<exists>rs b. pool_run E cs a = Inr (rs, b) \<and>
    pool_replies sz cs rs \<lparr>capacity = sz * count, blocks = Map.empty\<rparr> (pool_of b) \<and> p2_inv b"
proof -
  from create_empty [OF assms(1-4)] have a: "p2_inv a" "inuse_list a = []" "max_size a = sz" "total_size a = sz * count" by simp_all
  have "pool_of a = \<lparr>capacity = sz * count, blocks = Map.empty\<rparr>" using a(2,4) by (simp add: pool_of_def)
  with pool_run_replies [OF assms(1) a(1) assms(5)] a(3) show ?thesis by simp
qed

definition calls0 :: "pool_call list" where
  "calls0 = [P_alloc 3, P_reserve 4 1, P_alloc 4, P_usage, P_next 0, P_release 0, P_alloc_multiple 3 2, P_release 4, P_alloc_multiple 3 2,
     P_count_by_size 3, P_release_multiple 0 2, P_copy, P_assert, P_first]"

text \<open>The results of these calls on two chunks of four units.\<close>

lemma calls0_run:
  "pool_run env0 calls0 pool0 = Inr ([0, 0, - 1, 4, 4, 0, - 1, 0, 0, 2, 0, 1, 0, - 1], pool0)"
  by code_simp

lemma calls0_ok: "pool_calls_ok env0 calls0 pool0"
  by code_simp

theorem power2_client_refines_witness:
  "pool_replies 4 calls0 [0, 0, - 1, 4, 4, 0, - 1, 0, 0, 2, 0, 1, 0, - 1] \<lparr>capacity = 4 * 2, blocks = Map.empty\<rparr> (pool_of pool0)"
proof -
  have "(4 :: nat) < W32" "(4 :: nat) * 2 < M1" by (simp_all add: W32_def M1_def)
  from power2_client_refines [OF quiet_env0 this create_pool0 calls0_ok] calls0_run show ?thesis by simp
qed

end
