(* ===== verification/Power2_Utest.thy ===== *)
theory Power2_Utest
  imports Power2_Spec
begin

text \<open>
  \<open>power2_alloc_utest\<close>, the unit test at the end of power2\_allocator.c. The function is
  straight-line code over two allocators; each group of statements (a call, the assertions on
  its result, \<open>power2_allocator_assert\<close>) is a \<open>ut_op\<close>, and the function is the two lists of groups
  run between the creations and the destructions. \<open>chk\<close> is the run-time check; the code's is
  \<open>power2_allocator_assert\<close>. The test passes: by evaluation without the run-time check, and
  because the check passes in every state the test goes through.
\<close>

datatype ut_op =
    UT_alloc nat nat
  | UT_reserve nat nat bool
  | UT_release nat
  | UT_alloc_multiple nat nat nat
  | UT_release_multiple nat nat

definition ut_index :: "env \<Rightarrow> nat \<Rightarrow> nat \<Rightarrow> int \<Rightarrow> unit res" where
  "ut_index E expected r rc =
     (let index = u32_of_int rc in
      bnd (c_assert E (index = expected)) (\<lambda>_. c_assert E (ctz index \<ge> log2_uint32_ceil r)))"

definition ut_step :: "env \<Rightarrow> (power2_allocator option \<Rightarrow> unit res) \<Rightarrow> ut_op \<Rightarrow> power2_allocator \<Rightarrow> power2_allocator res" where
  "ut_step E chk op a = bnd (case op of
       UT_alloc r expected \<Rightarrow>
         bnd (power2_allocator_alloc E (Some a) r) (\<lambda>(rc, b). bnd (ut_index E expected r rc) (\<lambda>_. Inr b))
     | UT_reserve i n fails \<Rightarrow>
         bnd (power2_allocator_reserve E a i n) (\<lambda>(rc, b). bnd (c_assert E ((rc \<noteq> 0) = fails)) (\<lambda>_. Inr (Some b)))
     | UT_release i \<Rightarrow> bnd (power2_allocator_release E a i) (\<lambda>(rc, b). Inr (Some b))
     | UT_alloc_multiple c s expected \<Rightarrow>
         bnd (power2_allocator_alloc_multiple E (Some a) s c) (\<lambda>(rc, b).
         bnd (ut_index E expected (mul32 s c) rc) (\<lambda>_. Inr b))
     | UT_release_multiple i c \<Rightarrow> bnd (power2_allocator_release_multiple E a i c) (\<lambda>(rc, b). Inr (Some b)))
     (\<lambda>b. bnd (chk b) (\<lambda>_. case b of None \<Rightarrow> Inl Bad_access | Some b \<Rightarrow> Inr b))"

fun ut_run :: "env \<Rightarrow> (power2_allocator option \<Rightarrow> unit res) \<Rightarrow> ut_op list \<Rightarrow> power2_allocator \<Rightarrow> power2_allocator res" where
  "ut_run E chk [] a = Inr a"
| "ut_run E chk (op # ops) a = bnd (ut_step E chk op a) (\<lambda>b. ut_run E chk ops b)"

definition ut_script1 :: "ut_op list" where
  "ut_script1 = [UT_alloc 1 1023, UT_alloc 3 1020, UT_alloc 50 960, UT_reserve 980 20 True, UT_reserve 946 10 False,
     UT_alloc 50 896, UT_reserve 850 5 False, UT_alloc 50 768, UT_release 960, UT_release 896, UT_release 946, UT_alloc 100 896]"

definition ut_script2 :: "ut_op list" where
  "ut_script2 = [UT_alloc_multiple 1 1 127, UT_alloc_multiple 2 127 0, UT_alloc_multiple 1 70 256, UT_release_multiple 0 2,
     UT_alloc_multiple 1 50 64, UT_alloc_multiple 1 63 0, UT_release_multiple 64 1, UT_release_multiple 0 1,
     UT_alloc_multiple 2 65 0]"

text \<open>The result, and what \<open>power2_allocator_destroy\<close> leaves of the two allocators.\<close>

definition ut_with ::
  "env \<Rightarrow> (power2_allocator option \<Rightarrow> unit res) \<Rightarrow> (int \<times> power2_allocator option \<times> power2_allocator option) res" where
  "ut_with E chk =
     bnd (power2_allocator_create E 1024 2) (\<lambda>a1.
     bnd (c_assert E (a1 \<noteq> None)) (\<lambda>_.
     case a1 of None \<Rightarrow> Inl Bad_access | Some a1 \<Rightarrow>
     bnd (ut_run E chk ut_script1 a1) (\<lambda>a1.
     bnd (power2_allocator_create E 128 16) (\<lambda>a2.
     bnd (c_assert E (a2 \<noteq> None)) (\<lambda>_.
     case a2 of None \<Rightarrow> Inl Bad_access | Some a2 \<Rightarrow>
     bnd (ut_run E chk ut_script2 a2) (\<lambda>a2.
     Inr (0, power2_allocator_destroy (Some a1), power2_allocator_destroy (Some a2))))))))"

definition power2_alloc_utest :: "env \<Rightarrow> int res" where
  "power2_alloc_utest E = bnd (ut_with E (power2_allocator_assert E)) (\<lambda>(rc, a1, a2). Inr rc)"

section \<open>The run-time check never fails on the way\<close>

text \<open>Steps whose contract depends on the pool size only.\<close>

fun ut_simple :: "nat \<Rightarrow> ut_op \<Rightarrow> bool" where
  "ut_simple t (UT_alloc r e) \<longleftrightarrow> 0 < r"
| "ut_simple t (UT_reserve i n f) \<longleftrightarrow> 0 < n \<and> i + n < W32"
| "ut_simple t (UT_release i) \<longleftrightarrow> True"
| "ut_simple t (UT_alloc_multiple c n e) \<longleftrightarrow> 0 < n \<and> n < W32 \<and> 0 < c \<and> 2 ^ log2_uint32_ceil n * c < W32 \<and>
     t + 2 ^ log2_uint32_ceil (2 ^ log2_uint32_ceil n * c) \<le> W32"
| "ut_simple t (UT_release_multiple i c) \<longleftrightarrow> c = 1"

lemma ut_index_cases: "ut_index E e r rc = Inr () \<or> (\<exists>f. ut_index E e r rc = Inl f)"
  by (cases "ut_index E e r rc") auto

lemma step_total: "p2_step E a b \<Longrightarrow> quiet E \<Longrightarrow> p2_inv a \<Longrightarrow> total_size b = total_size a"
  using sim_step [of E a b] by (auto elim!: pool_step.cases simp: pool_of_def)

lemma ut_step_is_step:
  assumes "quiet E" "p2_inv a" "ut_step E (\<lambda>_. Inr ()) op a = Inr b"
    "ut_simple (total_size a) op \<or> (\<exists>i n c. op = UT_release_multiple i c \<and> multi_blocks a i n c)"
  shows "p2_step E a b"
  using assms(3,4)
proof (cases op)
  case (UT_alloc r e)
  with assms(3,4) show ?thesis
    by (auto simp: ut_step_def bnd_eq_Inr_iff split: option.splits intro: p2_step.alloc)
next
  case (UT_reserve i n f)
  with assms(3,4) show ?thesis
    by (auto simp: ut_step_def bnd_eq_Inr_iff intro: p2_step.reserve)
next
  case (UT_release i)
  with assms(3) show ?thesis by (auto simp: ut_step_def bnd_eq_Inr_iff intro: p2_step.release)
next
  case (UT_alloc_multiple c n e)
  with assms(4) have "multi_request a n c" by (simp add: multi_request_def)
  with UT_alloc_multiple assms(3) show ?thesis
    by (auto simp: ut_step_def bnd_eq_Inr_iff split: option.splits intro: p2_step.alloc_multiple)
next
  case (UT_release_multiple i c)
  with assms(4) obtain n where "multi_blocks a i n c" by (auto simp: multi_blocks_def)
  with UT_release_multiple assms(3) show ?thesis
    by (auto simp: ut_step_def bnd_eq_Inr_iff intro: p2_step.release_multiple)
qed

lemma ut_step_checked:
  assumes "quiet E" "p2_inv a" "ut_step E (\<lambda>_. Inr ()) op a = Inr b"
    "ut_simple (total_size a) op \<or> (\<exists>i n c. op = UT_release_multiple i c \<and> multi_blocks a i n c)"
  shows "ut_step E (power2_allocator_assert E) op a = Inr b \<and> p2_inv b \<and> total_size b = total_size a"
proof -
  have st: "p2_step E a b" by (rule ut_step_is_step [OF assms])
  have inv: "p2_inv b" using sim_step [OF st assms(1,2)] by simp
  have "power2_allocator_assert E (Some b) = Inr ()" by (rule run_time_check_passes [OF assms(1) inv])
  with assms(3) have "ut_step E (power2_allocator_assert E) op a = Inr b"
    by (auto simp: ut_step_def bnd_eq_Inr_iff split: option.splits)
  with inv step_total [OF st assms(1,2)] show ?thesis by simp
qed

lemma ut_run_checked:
  "quiet E \<Longrightarrow> p2_inv a \<Longrightarrow> \<forall>op \<in> set ops. ut_simple (total_size a) op \<Longrightarrow> ut_run E (\<lambda>_. Inr ()) ops a = Inr b \<Longrightarrow>
    ut_run E (power2_allocator_assert E) ops a = Inr b \<and> p2_inv b \<and> total_size b = total_size a"
proof (induction ops arbitrary: a)
  case (Cons op ops)
  from Cons.prems(4) obtain d where d: "ut_step E (\<lambda>_. Inr ()) op a = Inr d" "ut_run E (\<lambda>_. Inr ()) ops d = Inr b"
    by (auto simp: bnd_eq_Inr_iff)
  have "ut_simple (total_size a) op" using Cons.prems(3) by simp
  with ut_step_checked [OF Cons.prems(1,2) d(1)] have
    s: "ut_step E (power2_allocator_assert E) op a = Inr d" "p2_inv d" "total_size d = total_size a" by blast+
  with Cons.IH [OF Cons.prems(1) s(2) _ d(2)] Cons.prems(3) show ?case by simp
qed simp

lemma ut_run_append: "ut_run E chk (ops @ ops') a = bnd (ut_run E chk ops a) (ut_run E chk ops')"
  by (induction ops arbitrary: a) (simp_all add: bnd_def split: sum.splits)

section \<open>Evaluation\<close>

text \<open>The state before \<open>power2_allocator_release_multiple(a2, 0, 2)\<close>.\<close>

definition ut_mid :: power2_allocator where
  "ut_mid = \<lparr>max_size = 128, total_size = 2048, no_free_lists = 8,
     free_lists = [[(255, 1)], [(326, 2)], [], [(328, 8)], [(336, 16)], [(352, 32)], [],
       [(384, 128), (512, 128), (640, 128), (768, 128), (896, 128), (1024, 128), (1152, 128),
        (1280, 128), (1408, 128), (1536, 128), (1664, 128), (1792, 128), (1920, 128)]],
     inuse_list = [(0, 127), (127, 1), (128, 127), (256, 70)]\<rparr>"

lemma ut_eval1: "(case power2_allocator_create env0 1024 2 of
     Inr (Some a) \<Rightarrow> \<not> isl (ut_run env0 (\<lambda>_. Inr ()) ut_script1 a) | _ \<Rightarrow> False)"
  by code_simp

lemma ut_eval2: "bnd (power2_allocator_create env0 128 16) (\<lambda>a. case a of None \<Rightarrow> Inl Bad_access
     | Some a \<Rightarrow> ut_run env0 (\<lambda>_. Inr ()) (take 3 ut_script2) a) = Inr ut_mid"
  by code_simp

lemma ut_eval3: "\<not> isl (ut_run env0 (\<lambda>_. Inr ()) (drop 3 ut_script2) ut_mid)"
  by code_simp

lemma ut_scripts_simple: "\<forall>op \<in> set ut_script1. ut_simple 2048 op" "\<forall>op \<in> set (take 3 ut_script2). ut_simple 2048 op"
  "\<forall>op \<in> set (drop 4 ut_script2). ut_simple 2048 op"
  by code_simp+

lemma ut_mid_blocks: "multi_blocks ut_mid 0 127 2"
proof -
  have "log2_uint32_ceil 127 = 7" by code_simp
  moreover have "row 0 128 2 = {0, 128}" by (simp add: row_def atLeast0_lessThan_Suc numeral_2_eq_2 insert_commute)
  ultimately show ?thesis by (simp add: multi_blocks_def ut_mid_def)
qed

text \<open>The unit test \<open>power2_alloc_utest\<close> of power2\_allocator.c, run with assertions on and
  with the complete run-time check after each call, returns 0: every expected index comes out
  and no check fails.\<close>

lemma power2_utest_passes: "power2_alloc_utest env0 = Inr 0"
proof -
  have E: "quiet env0" by simp
  have c1: "\<exists>a. power2_allocator_create env0 1024 2 = Inr (Some a) \<and> p2_inv a \<and> total_size a = 2048"
    using create_ok [OF E, of 10 2] by (auto simp: M1_def)
  have c2: "\<exists>a. power2_allocator_create env0 128 16 = Inr (Some a) \<and> p2_inv a \<and> total_size a = 2048"
    using create_ok [OF E, of 7 16] by (auto simp: M1_def)
  obtain a1 where a1: "power2_allocator_create env0 1024 2 = Inr (Some a1)" "p2_inv a1" "total_size a1 = 2048" using c1 by blast
  obtain a2 where a2: "power2_allocator_create env0 128 16 = Inr (Some a2)" "p2_inv a2" "total_size a2 = 2048" using c2 by blast
  let ?chk = "power2_allocator_assert env0"
  obtain b1 where "ut_run env0 (\<lambda>_. Inr ()) ut_script1 a1 = Inr b1" using ut_eval1 a1(1) 
    by (cases "ut_run env0 (\<lambda>_. Inr ()) ut_script1 a1") auto
  with ut_run_checked [OF E a1(2)] a1(3) ut_scripts_simple(1) have r1: "ut_run env0 ?chk ut_script1 a1 = Inr b1" by simp
  have "ut_run env0 (\<lambda>_. Inr ()) (take 3 ut_script2) a2 = Inr ut_mid" using ut_eval2 a2(1) by simp
  with ut_run_checked [OF E a2(2)] a2(3) ut_scripts_simple(2) have
    r2: "ut_run env0 ?chk (take 3 ut_script2) a2 = Inr ut_mid" "p2_inv ut_mid" "total_size ut_mid = 2048" by simp_all
  have split: "drop 3 ut_script2 = UT_release_multiple 0 2 # drop 4 ut_script2" by (simp add: ut_script2_def)
  obtain b2 where "ut_run env0 (\<lambda>_. Inr ()) (drop 3 ut_script2) ut_mid = Inr b2" using ut_eval3
    by (cases "ut_run env0 (\<lambda>_. Inr ()) (drop 3 ut_script2) ut_mid") auto
  then obtain d where d: "ut_step env0 (\<lambda>_. Inr ()) (UT_release_multiple 0 2) ut_mid = Inr d"
    "ut_run env0 (\<lambda>_. Inr ()) (drop 4 ut_script2) d = Inr b2" unfolding split by (auto simp: bnd_eq_Inr_iff)
  have "\<exists>i n c. UT_release_multiple 0 2 = UT_release_multiple i c \<and> multi_blocks ut_mid i n c"
    using ut_mid_blocks by blast
  from ut_step_checked [OF E r2(2) d(1) disjI2 [OF this]] r2(3) have
    s: "ut_step env0 ?chk (UT_release_multiple 0 2) ut_mid = Inr d" "p2_inv d" "total_size d = 2048" by simp_all
  from ut_run_checked [OF E s(2) _ d(2)] ut_scripts_simple(3) s(3)
  have "ut_run env0 ?chk (drop 4 ut_script2) d = Inr b2" by simp
  with s(1) r2(1) have "ut_run env0 ?chk (take 3 ut_script2 @ drop 3 ut_script2) a2 = Inr b2"
    unfolding ut_run_append split by simp
  with a1(1) a2(1) r1 show ?thesis by (simp add: power2_alloc_utest_def ut_with_def c_assert_I)
qed

end
