(* ===== verification/Failures.thy ===== *)
theory Failures
  imports Judy1
begin

text \<open>
  Environments in which allocations fail. \<open>only_inserts E\<close> says that of the Judy calls only
  insertions fail, any of them; \<open>calm E\<close> is the same environment with memory for everything.
  \<open>starved E\<close> is the extreme case: every insertion and every \<open>bf_sys_malloc\<close>/\<open>bf_sys_calloc\<close> fails.

  \<open>short_of E P m m'\<close> relates the result \<open>m\<close> of a call in \<open>E\<close> to its result \<open>m'\<close> in \<open>calm E\<close>: they
  agree, or an insertion has failed, which stops the program when assertions are compiled in and
  returns a value with \<open>P\<close> otherwise.
\<close>

section \<open>Environments\<close>

definition only_inserts :: "env \<Rightarrow> bool" where
  "only_inserts E \<longleftrightarrow> (\<forall>op a i. op \<noteq> JIns \<longrightarrow> \<not> jl_err E op a i) \<and> (\<forall>op a i. op \<noteq> JIns \<longrightarrow> \<not> j1_err E op a i)"

definition calm :: "env \<Rightarrow> env" where
  "calm E = E\<lparr>jl_err := (\<lambda>_ _ _. False), j1_err := (\<lambda>_ _ _. False), mem := (\<lambda>_. True)\<rparr>"

definition starved :: "env \<Rightarrow> bool" where
  "starved E \<longleftrightarrow> only_inserts E \<and> (\<forall>a i. jl_err E JIns a i) \<and> (\<forall>a i. j1_err E JIns a i) \<and> (\<forall>n. \<not> mem E n)"

lemma calm_simps [simp]:
  "quiet (calm E)" "asserts (calm E) = asserts E" "dbgchk (calm E) = dbgchk E" "lost (calm E) = lost E"
  by (simp_all add: calm_def quiet_def)

lemma calm_err [simp]: "\<not> jl_err (calm E) op a i" "\<not> j1_err (calm E) op b i" "mem (calm E) n"
  by (simp_all add: calm_def)

lemma only_insertsD [simp]:
  "only_inserts E \<Longrightarrow> op \<noteq> JIns \<Longrightarrow> \<not> jl_err E op a i"
  "only_inserts E \<Longrightarrow> op \<noteq> JIns \<Longrightarrow> \<not> j1_err E op b i"
  by (simp_all add: only_inserts_def)

lemma starvedD [simp]:
  "starved E \<Longrightarrow> jl_err E JIns a i" "starved E \<Longrightarrow> j1_err E JIns b i" "starved E \<Longrightarrow> \<not> mem E n"
  "starved E \<Longrightarrow> only_inserts E"
  by (simp_all add: starved_def)

lemma quiet_only_inserts: "quiet E \<Longrightarrow> only_inserts E"
  by (simp add: only_inserts_def)

lemma calm_quiet: "quiet E \<Longrightarrow> calm E = E"
  by (cases E) (auto simp: calm_def quiet_def fun_eq_iff)

text \<open>The environment of the witnesses: no memory, assertions off.\<close>

definition env_dry :: env where
  "env_dry = \<lparr>asserts = False, dbgchk = False, jl_err = (\<lambda>op _ _. op = JIns), j1_err = (\<lambda>op _ _. op = JIns),
     lost = (\<lambda>_ i. Suc i), mem = (\<lambda>_. False)\<rparr>"

lemma env_dry [simp]: "starved env_dry" "only_inserts env_dry" "\<not> asserts env_dry" "\<not> dbgchk env_dry"
  by (simp_all add: starved_def only_inserts_def env_dry_def)

text \<open>Whatever is not an insertion does the same in both environments.\<close>

lemma calm_asserts [simp]: "c_assert (calm E) = c_assert E" "c_dbgchk (calm E) = c_dbgchk E"
  by (simp_all add: fun_eq_iff c_assert_def c_dbgchk_def)

lemma calm_judy:
  assumes "only_inserts E"
  shows "JLG (calm E) = JLG E" "JLD (calm E) = JLD E" "JLF (calm E) = JLF E" "JLN (calm E) = JLN E" "JLP (calm E) = JLP E"
  using assms by (simp_all add: fun_eq_iff JLG_def JLD_def JLF_def JLN_def JLP_def)

lemma calm_judy1:
  assumes "only_inserts E"
  shows "J1U (calm E) = J1U E"
  using assms by (simp add: fun_eq_iff J1U_def)

lemma calm_search1 [simp]:
  "J1F (calm E) = J1F E" "J1N (calm E) = J1N E" "J1P (calm E) = J1P E" "J1FE (calm E) = J1FE E"
  "J1NE (calm E) = J1NE E" "J1LE (calm E) = J1LE E" "J1PE (calm E) = J1PE E"
proof -
  have "j1_ret (calm E) = j1_ret E" by (simp add: fun_eq_iff j1_ret_def split: option.splits)
  then show "J1F (calm E) = J1F E" "J1N (calm E) = J1N E" "J1P (calm E) = J1P E" "J1FE (calm E) = J1FE E"
    "J1NE (calm E) = J1NE E" "J1LE (calm E) = J1LE E" "J1PE (calm E) = J1PE E"
    by (simp_all add: fun_eq_iff J1F_def J1N_def J1P_def J1FE_def J1NE_def J1LE_def J1PE_def)
qed

lemma calm_jl_while_from:
  "only_inserts E \<Longrightarrow> jl_while_from (calm E) a p body s = jl_while_from E a p body s"
proof (induction E a p body s rule: jl_while_from.induct)
  case (1 E a p body s)
  show ?case
  proof (cases p)
    case (PV k v)
    have "(case c of Inl r \<Rightarrow> Inr (Inl r) | Inr s' \<Rightarrow> jl_while_from (calm E) a (JLN (calm E) a k) body s') =
        (case c of Inl r \<Rightarrow> Inr (Inl r) | Inr s' \<Rightarrow> jl_while_from E a (JLN E a k) body s')"
      if "body k v s = Inr c" for c
      using 1(1) [OF PV that _ 1(2)] 1(2) by (cases c) (simp_all add: calm_judy)
    then show ?thesis using PV by (auto simp: jl_while_from.simps [of _ _ "PV k v"] intro: bnd_cong)
  qed (simp_all add: jl_while_from.simps [of _ _ PNULL] jl_while_from.simps [of _ _ PJERR])
qed

lemma calm_jl_while: "only_inserts E \<Longrightarrow> jl_while (calm E) a i body s = jl_while E a i body s"
  by (simp add: jl_while_def calm_judy calm_jl_while_from)

section \<open>Falling short\<close>

definition gives_up :: "env \<Rightarrow> ('a \<Rightarrow> bool) \<Rightarrow> 'a res \<Rightarrow> bool" where
  "gives_up E P m \<longleftrightarrow> (if asserts E then m = Inl Assert_failed else \<exists>x. m = Inr x \<and> P x)"

definition short_of :: "env \<Rightarrow> ('a \<Rightarrow> bool) \<Rightarrow> 'a res \<Rightarrow> 'a res \<Rightarrow> bool" where
  "short_of E P m m' \<longleftrightarrow> m = m' \<or> gives_up E P m"

lemma short_of_refl [simp]: "short_of E P m m"
  by (simp add: short_of_def)

lemma gives_up_mono: "gives_up E P m \<Longrightarrow> (\<And>x. P x \<Longrightarrow> Q x) \<Longrightarrow> gives_up E Q m"
  by (auto simp: gives_up_def split: if_splits)

lemma short_of_mono: "short_of E P m m' \<Longrightarrow> (\<And>x. P x \<Longrightarrow> Q x) \<Longrightarrow> short_of E Q m m'"
  unfolding short_of_def using gives_up_mono by blast

lemma gives_up_bnd: "gives_up E P m \<Longrightarrow> (\<And>x. \<not> asserts E \<Longrightarrow> P x \<Longrightarrow> gives_up E Q (f x)) \<Longrightarrow> gives_up E Q (bnd m f)"
  by (auto simp: gives_up_def split: if_splits)

lemma gives_up_assert: "P x \<Longrightarrow> gives_up E P (bnd (c_assert E False) (\<lambda>_. Inr x))"
  by (simp add: gives_up_def c_assert_def)

lemma short_of_bnd:
  assumes "short_of E P m m'" "\<And>x. \<not> asserts E \<Longrightarrow> P x \<Longrightarrow> gives_up E Q (f x)" "\<And>x. m' = Inr x \<Longrightarrow> short_of E Q (f x) (g x)"
  shows "short_of E Q (bnd m f) (bnd m' g)"
proof (cases "m = m'")
  case True
  with assms(3) show ?thesis by (cases m') simp_all
next
  case False
  with assms(1) have "gives_up E P m" by (simp add: short_of_def)
  from gives_up_bnd [OF this, of Q f] assms(2) show ?thesis by (simp add: short_of_def)
qed

text \<open>A call that does the same in both environments.\<close>

lemma short_of_same: "(\<And>x. m = Inr x \<Longrightarrow> short_of E Q (f x) (g x)) \<Longrightarrow> short_of E Q (bnd m f) (bnd m g)"
  by (cases m) simp_all

lemma short_of_if:
  "(c \<Longrightarrow> short_of E P m m') \<Longrightarrow> (\<not> c \<Longrightarrow> short_of E P k k') \<Longrightarrow>
    short_of E P (if c then m else k) (if c then m' else k')"
  by simp

lemma short_of_pair:
  "(\<And>x y. p = (x, y) \<Longrightarrow> short_of E P (f x y) (g x y)) \<Longrightarrow>
    short_of E P (case p of (x, y) \<Rightarrow> f x y) (case p of (x, y) \<Rightarrow> g x y)"
  by (cases p) simp

lemmas short_of_steps = short_of_same short_of_pair short_of_if

lemma short_ofD: "short_of E P m m' \<Longrightarrow> m = m' \<or> asserts E \<and> m = Inl Assert_failed \<or> \<not> asserts E \<and> (\<exists>x. m = Inr x \<and> P x)"
  by (auto simp: short_of_def gives_up_def split: if_splits)

end
