(* ===== verification/Power2_Failures.thy ===== *)
theory Power2_Failures
  imports Power2_Props Failures
begin

text \<open>
  The power2 allocator when insertions into its Judy arrays fail. A failed insertion stops the
  program when assertions are compiled in. Otherwise the call returns -1, and whatever the free
  lists have become, the blocks in use are those of before: no block is handed out twice. The units
  that the call had taken out of the free lists are lost.
\<close>

section \<open>What changes\<close>

text \<open>Only the free lists differ.\<close>

definition same_blocks :: "power2_allocator \<Rightarrow> power2_allocator \<Rightarrow> bool" where
  "same_blocks a b \<longleftrightarrow> b = a\<lparr>free_lists := free_lists b\<rparr>"

lemma same_blocks_refl [simp]: "same_blocks a a"
  by (simp add: same_blocks_def)

lemma same_blocks_iff:
  "same_blocks a b \<longleftrightarrow> max_size b = max_size a \<and> total_size b = total_size a \<and>
    no_free_lists b = no_free_lists a \<and> inuse_list b = inuse_list a"
  by (cases a; cases b) (auto simp: same_blocks_def)

lemma same_blocks_trans: "same_blocks a b \<Longrightarrow> same_blocks b c \<Longrightarrow> same_blocks a c"
  by (simp add: same_blocks_iff)

lemma same_blocks_set [simp]: "same_blocks a (fl_set b k l) \<longleftrightarrow> same_blocks a b"
  by (simp add: same_blocks_iff fl_set_def)

definition refused :: "power2_allocator \<Rightarrow> int \<times> power2_allocator \<Rightarrow> bool" where
  "refused a r \<longleftrightarrow> fst r = - 1 \<and> same_blocks a (snd r)"

lemma refused_trans: "same_blocks a b \<Longrightarrow> refused b r \<Longrightarrow> refused a r"
  by (auto simp: refused_def intro: same_blocks_trans)

lemma same_blocks_set' [simp]: "same_blocks (fl_set a k l) b \<longleftrightarrow> same_blocks a b"
  by (simp add: same_blocks_iff fl_set_def)

lemma remove_free_index_same:
  "power2_allocator_remove_free_index E a c r = Inr (rc, b) \<Longrightarrow> same_blocks a b"
proof (induction r arbitrary: a c rule: less_induct)
  case (less r)
  note step = less.prems [unfolded power2_allocator_remove_free_index.simps [of E a c r]]
  show ?case
  proof (cases "r = 0")
    case True
    with step show ?thesis by simp
  next
    case False
    with step show ?thesis
      by (auto simp: Let_def bnd_eq_Inr_iff case_prod_unfold shl1_def split: if_splits dest!: less.IH [rotated])
  qed
qed

lemma insert_one_free_same:
  "power2_allocator_insert_one_free E a c r = Inr (rc, b) \<Longrightarrow> same_blocks a b"
proof (induction r arbitrary: a c rule: less_induct)
  case (less r)
  note step = less.prems [unfolded power2_allocator_insert_one_free.simps [of E a c r]]
  show ?case
  proof (cases "r = 0")
    case True
    with step show ?thesis by simp
  next
    case False
    with step show ?thesis
      by (auto simp: Let_def bnd_eq_Inr_iff case_prod_unfold shl1_def split: if_splits dest!: less.IH [rotated])
  qed
qed

lemma remove_one_free_same:
  assumes "power2_allocator_remove_one_free E a k n z = Inr (i, s, b)"
  shows "same_blocks a b"
proof (cases "no_free_lists a \<le> k")
  case False
  with assms obtain l and r :: "nat \<times> nat + unit" where
    "(case r of Inr _ \<Rightarrow> Inr (M1, z, a)
      | Inl (index, v) \<Rightarrow> (case JLD E l index of (Rc_int, l') \<Rightarrow>
          bnd (c_assert E (Rc_int \<noteq> 0)) (\<lambda>_. Inr (u32 index, u32 v, fl_set a k l')))) = Inr (i, s, b)"
    by (auto simp: power2_allocator_remove_one_free_def bnd_eq_Inr_iff)
  then show ?thesis by (cases r) (auto simp: Let_def bnd_eq_Inr_iff case_prod_unfold)
qed (use assms in \<open>simp add: power2_allocator_remove_one_free_def\<close>)

lemma alloc_search_same:
  "alloc_search E n ks z a = Inr (i, s, b) \<Longrightarrow> same_blocks a b"
proof (induction ks arbitrary: z a)
  case (Cons k ks)
  then show ?case
    by (auto simp: bnd_eq_Inr_iff split: if_splits dest!: remove_one_free_same intro: same_blocks_trans)
qed simp

section \<open>Calls that insert nothing\<close>

lemma calm_checks [simp]: "c_assert_res (calm E) = c_assert_res E" "chunk_asserts (calm E) = chunk_asserts E"
  by (simp_all add: fun_eq_iff c_assert_res_def chunk_asserts_def)

lemma calm_remove_free_index:
  "only_inserts E \<Longrightarrow> power2_allocator_remove_free_index (calm E) a c r = power2_allocator_remove_free_index E a c r"
proof (induction r arbitrary: a c rule: less_induct)
  case (less r)
  show ?case
    by (subst (1 2) power2_allocator_remove_free_index.simps)
      (auto simp: Let_def calm_judy [OF less.prems] shl1_def less.IH [OF _ less.prems] case_prod_unfold
        intro!: bnd_cong)
qed

lemma calm_remove_one_free:
  "only_inserts E \<Longrightarrow> power2_allocator_remove_one_free (calm E) = power2_allocator_remove_one_free E"
  by (simp add: fun_eq_iff power2_allocator_remove_one_free_def calm_jl_while calm_judy)

lemma calm_alloc_search:
  "only_inserts E \<Longrightarrow> alloc_search (calm E) n ks z a = alloc_search E n ks z a"
  by (induction ks arbitrary: z a) (auto simp: calm_remove_one_free intro!: bnd_cong)

lemma calm_inuse:
  assumes "only_inserts E"
  shows "power2_allocator_get_index_size (calm E) = power2_allocator_get_index_size E"
    "power2_allocator_get_prev_inuse_block (calm E) = power2_allocator_get_prev_inuse_block E"
    "power2_allocator_get_next_inuse_block (calm E) = power2_allocator_get_next_inuse_block E"
    "power2_allocator_mark_free (calm E) = power2_allocator_mark_free E"
  using assms
  by (simp_all add: fun_eq_iff power2_allocator_get_index_size_def power2_allocator_get_prev_inuse_block_def
      power2_allocator_get_next_inuse_block_def power2_allocator_mark_free_def calm_judy Let_def cong: if_cong)

section \<open>Calls that insert\<close>

lemma insert_one_free_short:
  "only_inserts E \<Longrightarrow>
    short_of E (refused a) (power2_allocator_insert_one_free E a c r) (power2_allocator_insert_one_free (calm E) a c r)"
proof (induction r arbitrary: a c rule: less_induct)
  case (less r)
  have IH: "short_of E (refused a) (power2_allocator_insert_one_free E (fl_set a k l) d y)
    (power2_allocator_insert_one_free (calm E) (fl_set a k l) d y)" if "y < r" for y k l d
    by (rule short_of_mono [OF less.IH [OF that less.prems] refused_trans]) simp_all
  show ?case
  proof (cases "r = 0")
    case False
    let ?k = "chunk_log2 a c r"
    have body: "short_of E (refused a)
        (let (Pfree, l') = JLI E l c in
          if Pfree = PJERR then bnd (c_assert E False) (\<lambda>_. Inr (- 1, a)) else
          bnd (deref Pfree) (\<lambda>v. bnd (c_assert E (v = 0)) (\<lambda>_. bnd (shl1 ?k) (\<lambda>w. f E w l'))))
        (let (Pfree, l') = JLI (calm E) l c in
          if Pfree = PJERR then bnd (c_assert (calm E) False) (\<lambda>_. Inr (- 1, a)) else
          bnd (deref Pfree) (\<lambda>v. bnd (c_assert (calm E) (v = 0)) (\<lambda>_. bnd (shl1 ?k) (\<lambda>w. f (calm E) w l'))))"
      if "\<And>w l'. shl1 ?k = Inr w \<Longrightarrow> short_of E (refused a) (f E w l') (f (calm E) w l')" for f l
    proof (cases "jl_err E JIns l c")
      case True
      then show ?thesis
        by (simp add: JLI_def) (auto simp: short_of_def refused_def intro: gives_up_assert)
    next
      case False
      then have "JLI (calm E) l c = JLI E l c" by (simp add: JLI_def)
      then show ?thesis by (auto simp: case_prod_unfold Let_def intro!: short_of_same that)
    qed
    let ?f = "\<lambda>E w l'. if r < w
      then bnd (c_assert E (w div 2 < r)) (\<lambda>_. power2_allocator_insert_one_free E (fl_set a ?k (jl_put c r l')) (add32 c r) 0)
      else power2_allocator_insert_one_free E (fl_set a ?k (jl_put c w l')) (add32 c w) (r - w)"
    have f: "short_of E (refused a) (?f E w l') (?f (calm E) w l')" if "shl1 ?k = Inr w" for w l'
      using False that by (auto intro!: short_of_same IH simp: shl1_def split: if_splits)
    show ?thesis
      unfolding power2_allocator_insert_one_free.simps [of E a c r] power2_allocator_insert_one_free.simps [of "calm E" a c r]
      unfolding Let_def calm_checks if_not_P [OF False]
      by (intro short_of_same body [where f = ?f, unfolded Let_def] f)
  qed (simp add: power2_allocator_insert_one_free.simps)
qed

lemma mark_inuse_short:
  assumes "only_inserts E"
  shows "short_of E (refused a) (power2_allocator_mark_inuse E a i n) (power2_allocator_mark_inuse (calm E) a i n)"
proof (cases "jl_err E JIns (inuse_list a) i")
  case True
  then show ?thesis
    by (simp add: power2_allocator_mark_inuse_def JLI_def) (auto simp: short_of_def refused_def intro: gives_up_assert)
next
  case False
  then have "JLI (calm E) (inuse_list a) i = JLI E (inuse_list a) i" by (simp add: JLI_def)
  then show ?thesis by (simp add: power2_allocator_mark_inuse_def case_prod_unfold cong: if_cong)
qed

text \<open>A call followed by the test of its return code.\<close>

lemma guard_short:
  assumes "short_of E (refused a) m m'" "\<And>b. same_blocks a b \<Longrightarrow> P (- 1, g b)"
    and "\<And>rc b. m' = Inr (rc, b) \<Longrightarrow> short_of E P (f b) (f' b)"
  shows "short_of E P (bnd m (\<lambda>(rc, b). if rc \<noteq> 0 then bnd (c_assert E False) (\<lambda>_. Inr (- 1, g b)) else f b))
      (bnd m' (\<lambda>(rc, b). if rc \<noteq> 0 then bnd (c_assert E False) (\<lambda>_. Inr (- 1, g b)) else f' b))"
    and "short_of E P (bnd m (\<lambda>(rc, b). if rc \<noteq> 0 then Inr (- 1, g b) else f b))
      (bnd m' (\<lambda>(rc, b). if rc \<noteq> 0 then Inr (- 1, g b) else f' b))"
  by (rule short_of_bnd [OF assms(1)]; use assms(2,3) in \<open>fastforce simp: refused_def gives_up_def c_assert_def\<close>)+

lemma refused_insert:
  "only_inserts E \<Longrightarrow> same_blocks a b \<Longrightarrow>
    short_of E (refused a) (power2_allocator_insert_one_free E b c r) (power2_allocator_insert_one_free (calm E) b c r)"
  by (rule short_of_mono [OF insert_one_free_short refused_trans])

lemma refused_mark_inuse:
  "only_inserts E \<Longrightarrow> same_blocks a b \<Longrightarrow>
    short_of E (refused a) (power2_allocator_mark_inuse E b i n) (power2_allocator_mark_inuse (calm E) b i n)"
  by (rule short_of_mono [OF mark_inuse_short refused_trans])

section \<open>The three calls on single blocks\<close>

definition refused_opt :: "power2_allocator \<Rightarrow> int \<times> power2_allocator option \<Rightarrow> bool" where
  "refused_opt a r \<longleftrightarrow> fst r = - 1 \<and> (\<exists>b. snd r = Some b \<and> same_blocks a b)"

lemma alloc_short:
  assumes E: "only_inserts E"
  shows "short_of E (refused_opt a) (power2_allocator_alloc E (Some a) n) (power2_allocator_alloc (calm E) (Some a) n)"
  unfolding power2_allocator_alloc_def option.case Let_def calm_alloc_search [OF E] calm_asserts
  by (intro short_of_steps short_of_refl guard_short [where a = a] refused_insert [OF E] refused_mark_inuse [OF E])
    (auto simp: refused_opt_def same_blocks_iff dest!: alloc_search_same insert_one_free_same)

lemma release_short:
  assumes E: "only_inserts E"
  shows "short_of E (refused a) (power2_allocator_release E a i) (power2_allocator_release (calm E) a i)"
  unfolding power2_allocator_release_def Let_def calm_inuse [OF E] calm_remove_free_index [OF E] calm_asserts
  by (intro short_of_steps short_of_refl guard_short [where a = a] refused_insert [OF E] refused_mark_inuse [OF E])
    (auto simp: refused_def same_blocks_iff dest!: remove_free_index_same insert_one_free_same)

lemma reserve_short:
  assumes E: "only_inserts E"
  shows "short_of E (refused a) (power2_allocator_reserve E a i n) (power2_allocator_reserve (calm E) a i n)"
  unfolding power2_allocator_reserve_def Let_def calm_inuse [OF E] calm_remove_free_index [OF E] calm_asserts
  by (intro short_of_steps short_of_refl guard_short [where a = a] refused_insert [OF E] refused_mark_inuse [OF E])
    (auto simp: refused_def same_blocks_iff dest!: remove_free_index_same insert_one_free_same)

section \<open>No memory at all\<close>

lemma starved_insert:
  assumes "starved E" "power2_allocator_insert_one_free (calm E) a c r = Inr x"
  shows "power2_allocator_insert_one_free E a c r = (if r = 0 then Inr (0, a) else bnd (c_assert E False) (\<lambda>_. Inr (- 1, a)))"
proof (cases "r = 0")
  case False
  with assms(2) obtain l where "chunk_asserts E c (chunk_log2 a c r) = Inr ()" "fl_get a (chunk_log2 a c r) = Inr l"
    by (subst (asm) power2_allocator_insert_one_free.simps) (auto simp: Let_def bnd_eq_Inr_iff)
  with assms(1) False show ?thesis
    by (subst power2_allocator_insert_one_free.simps) (simp add: Let_def JLI_def)
qed (simp add: power2_allocator_insert_one_free.simps)

lemma starved_mark_inuse: "starved E \<Longrightarrow> power2_allocator_mark_inuse E a i n = bnd (c_assert E False) (\<lambda>_. Inr (- 1, a))"
  by (simp add: power2_allocator_mark_inuse_def JLI_def)

lemma give_up_again:
  "bnd (bnd (c_assert E False) (\<lambda>_. Inr (- 1 :: int, a))) (\<lambda>(rc, b). if rc \<noteq> 0 then bnd (c_assert E False) (\<lambda>_. Inr (- 1, g b)) else f b) =
    bnd (c_assert E False) (\<lambda>_. Inr (- 1, g a))"
  "bnd (bnd (c_assert E False) (\<lambda>_. Inr (- 1 :: int, a))) (\<lambda>(rc, b). if rc \<noteq> 0 then Inr (- 1, g b) else f b) =
    bnd (c_assert E False) (\<lambda>_. Inr (- 1, g a))"
  by (simp_all add: c_assert_def)

lemma starved_alloc:
  assumes E: "starved E" and ok: "power2_allocator_alloc (calm E) (Some a) n = Inr (rc, Some b)" "rc \<noteq> - 1"
  obtains f s c where "alloc_search E n [log2_uint32_ceil n..<no_free_lists a] 0 a = Inr (f, s, c)" "f \<noteq> M1"
    "power2_allocator_alloc E (Some a) n = bnd (c_assert E False) (\<lambda>_. Inr (- 1, Some c))"
proof -
  note only = starvedD(4) [OF E]
  have le: "\<not> max_size a < n" using ok by (auto simp: power2_allocator_alloc_def)
  obtain f s c where sr: "alloc_search E n [log2_uint32_ceil n..<no_free_lists a] 0 a = Inr (f, s, c)"
    using ok(1) le by (auto simp: power2_allocator_alloc_def Let_def calm_alloc_search [OF only] bnd_eq_Inr_iff)
  have f: "f \<noteq> M1" using ok le sr by (auto simp: power2_allocator_alloc_def Let_def calm_alloc_search [OF only])
  let ?L = "log2_uint32_ceil n" and ?e = "add32 f s"
  let ?x = "clear_low ?L (sub32 ?e 1)" and ?ins = "power2_allocator_insert_one_free (calm E) c"
  let ?last = "\<lambda>i. \<lambda>(rc, c). if rc \<noteq> 0 then bnd (c_assert E False) (\<lambda>_. Inr (- 1, Some c)) else
      bnd (power2_allocator_mark_inuse (calm E) c i n) (\<lambda>(rc, c). if rc \<noteq> 0 then Inr (- 1, Some c) else Inr (s32 i, Some c))"
  obtain i rc1 d where i: "(if ?e < add32 ?x n then bnd (shl1 ?L) (\<lambda>w. Inr (sub32 ?x w)) else Inr ?x) = Inr i"
    "c_assert E (f \<le> i) = Inr ()" "c_assert E (add32 i n \<le> ?e) = Inr ()" "?ins f (sub32 i f) = Inr (rc1, d)"
    and rest: "(if rc1 \<noteq> 0 then bnd (c_assert E False) (\<lambda>_. Inr (- 1, Some d)) else
      bnd (power2_allocator_insert_one_free (calm E) d (add32 i n) (sub32 ?e (add32 i n))) (?last i)) = Inr (rc, Some b)"
    using ok(1) le sr f unfolding power2_allocator_alloc_def calm_asserts
    by (auto simp: Let_def calm_alloc_search [OF only] bnd_eq_Inr_iff simp del: One_nat_def split del: if_split)
  have "rc1 = 0" using rest ok(2) by (auto simp: c_assert_def split: if_splits)
  then obtain y where "power2_allocator_insert_one_free (calm E) d (add32 i n) (sub32 ?e (add32 i n)) = Inr y"
    using rest by (auto simp: bnd_eq_Inr_iff)
  moreover have "d = c" if "sub32 i f = 0" using i(4) that by (simp add: power2_allocator_insert_one_free.simps)
  ultimately have "power2_allocator_alloc E (Some a) n = bnd (c_assert E False) (\<lambda>_. Inr (- 1, Some c))"
    using le sr f i starved_insert [OF E, of c] starved_mark_inuse [OF E]
    unfolding power2_allocator_alloc_def
    by (cases "sub32 i f = 0"; cases "sub32 ?e (add32 i n) = 0")
      (auto simp: Let_def give_up_again simp del: One_nat_def split del: if_split)
  with sr f show ?thesis by (rule that)
qed

section \<open>Properties\<close>

text \<open>C7: The power2 allocator when insertions into its Judy arrays fail, any of them at any time.
  An allocation, release or reservation on a pool that satisfies the invariant either stops at an
  assertion, when those are compiled in; or succeeds as it does with memory, with the invariant
  and exactly the block in question added or dropped; or returns an error code with the blocks in use as they
  were. So no block is handed out twice or lost to its owner.\<close>

theorem power2_failed_insertions:
  assumes "only_inserts E" "p2_inv a" "0 < n" "i + n < W32"
  shows "(case power2_allocator_alloc E (Some a) n of Inl e \<Rightarrow> asserts E \<and> e = Assert_failed
      | Inr (rc, r) \<Rightarrow> (\<exists>b. r = Some b \<and> (if rc = - 1 then same_blocks a b
          else region_free a (u32_of_int rc) n \<and> p2_inv b \<and> inuse_list b = jl_put (u32_of_int rc) n (inuse_list a)))) \<and>
    (case power2_allocator_release E a i of Inl e \<Rightarrow> asserts E \<and> e = Assert_failed
      | Inr (rc, b) \<Rightarrow> (if rc = 0 then map_of (inuse_list a) i \<noteq> None \<and> p2_inv b \<and> inuse_list b = jl_del i (inuse_list a)
          else rc = - 1 \<and> same_blocks a b)) \<and>
    (case power2_allocator_reserve E a i n of Inl e \<Rightarrow> asserts E \<and> e = Assert_failed
      | Inr (rc, b) \<Rightarrow> (if rc = 0 then region_free a i n \<and> p2_inv b \<and> inuse_list b = jl_put i n (inuse_list a)
          else same_blocks a b))"
proof (intro conjI)
  note Q = calm_simps(1) [of E]
  show "case power2_allocator_alloc E (Some a) n of Inl e \<Rightarrow> asserts E \<and> e = Assert_failed
      | Inr (rc, r) \<Rightarrow> (\<exists>b. r = Some b \<and> (if rc = - 1 then same_blocks a b
          else region_free a (u32_of_int rc) n \<and> p2_inv b \<and> inuse_list b = jl_put (u32_of_int rc) n (inuse_list a)))"
  proof (cases "max_size a < n")
    case False
    then have le: "n \<le> max_size a" by simp
    have c: "s32 j \<noteq> - 1 \<and> u32_of_int (s32 j) = j" if "region_free a j n" for j
      using s32_not_m1 region_free_M1 [OF assms(2) that assms(3)] by blast
    from alloc_short [OF assms(1), of a n] alloc_cases [OF Q assms(2,3) le] c show ?thesis
      by (auto simp: short_of_def gives_up_def refused_opt_def split: if_splits)
  qed (simp add: power2_allocator_alloc_def)
  show "case power2_allocator_release E a i of Inl e \<Rightarrow> asserts E \<and> e = Assert_failed
      | Inr (rc, b) \<Rightarrow> (if rc = 0 then map_of (inuse_list a) i \<noteq> None \<and> p2_inv b \<and> inuse_list b = jl_del i (inuse_list a)
          else rc = - 1 \<and> same_blocks a b)"
  proof (cases "map_of (inuse_list a) i")
    case None
    with release_short [OF assms(1), of a i] release_absent [OF Q, of a i] show ?thesis
      by (auto simp: short_of_def gives_up_def refused_def split: if_splits)
  next
    case (Some m)
    from release_present [OF Q assms(2) map_of_SomeD [OF Some]] obtain b where
      "power2_allocator_release (calm E) a i = Inr (0, b)" "p2_inv b" "inuse_list b = jl_del i (inuse_list a)" by blast
    with Some release_short [OF assms(1), of a i] show ?thesis
      by (auto simp: short_of_def gives_up_def refused_def split: if_splits)
  qed
  show "case power2_allocator_reserve E a i n of Inl e \<Rightarrow> asserts E \<and> e = Assert_failed
      | Inr (rc, b) \<Rightarrow> (if rc = 0 then region_free a i n \<and> p2_inv b \<and> inuse_list b = jl_put i n (inuse_list a)
          else same_blocks a b)"
    using reserve_short [OF assms(1), of a i n] reserve_cases [OF Q assms(2-4)]
    by (auto simp: short_of_def gives_up_def refused_def split: if_splits)
qed

lemma power2_failed_insertions_witness:
  "(case power2_allocator_alloc env_dry (Some pool1) 2 of Inl e \<Rightarrow> asserts env_dry \<and> e = Assert_failed
      | Inr (rc, r) \<Rightarrow> (\<exists>b. r = Some b \<and> (if rc = - 1 then same_blocks pool1 b
          else region_free pool1 (u32_of_int rc) 2 \<and> p2_inv b \<and> inuse_list b = jl_put (u32_of_int rc) 2 (inuse_list pool1)))) \<and>
    (case power2_allocator_release env_dry pool1 0 of Inl e \<Rightarrow> asserts env_dry \<and> e = Assert_failed
      | Inr (rc, b) \<Rightarrow> (if rc = 0 then map_of (inuse_list pool1) 0 \<noteq> None \<and> p2_inv b \<and> inuse_list b = jl_del 0 (inuse_list pool1)
          else rc = - 1 \<and> same_blocks pool1 b)) \<and>
    (case power2_allocator_reserve env_dry pool1 0 2 of Inl e \<Rightarrow> asserts env_dry \<and> e = Assert_failed
      | Inr (rc, b) \<Rightarrow> (if rc = 0 then region_free pool1 0 2 \<and> p2_inv b \<and> inuse_list b = jl_put 0 2 (inuse_list pool1)
          else same_blocks pool1 b))"
  by (rule power2_failed_insertions) (simp_all add: W32_def)

text \<open>C38: \<open>power2_allocator_alloc\<close> without memory, for a size that some aligned free region of
  the pool has room for: with assertions compiled in the program stops; otherwise the call
  returns -1 but a chunk of free units that held the region is gone from the free lists, while no
  block has come into use. The pool no longer satisfies its invariant: these units are lost.\<close>

theorem power2_alloc_leaks:
  assumes "starved E" "p2_inv a" "0 < n" "n \<le> max_size a" "2 ^ log2_uint32_ceil n dvd i" "region_free a i n"
  shows "if asserts E then power2_allocator_alloc E (Some a) n = Inl Assert_failed
    else \<exists>b k f s. power2_allocator_alloc E (Some a) n = Inr (- 1, Some b) \<and> same_blocks a b \<and> n \<le> s \<and>
      (k, f, s) \<in> FL (free_lists a) \<and> FL (free_lists b) = FL (free_lists a) - {(k, f, s)} \<and> \<not> p2_inv b"
proof -
  note Q = calm_simps(1) [of E] and only = starvedD(4) [OF assms(1)]
  obtain m where I: "shape m a" "max_size a = 2 ^ m" "m < 32" using assms(2) by (elim p2_invE)
  have nW: "n < W32" using assms(4) I(2,3) power_strict_increasing [of m 32 "2::nat"] by (simp add: W32_pow)
  have L: "log2_uint32_ceil n \<le> Suc m" using assms(4) I(2) nW by (simp add: log2_ceil_le_iff le_SucI)
  from alloc_cases [OF Q assms(2-4)] assms(5,6) obtain j b where
    b: "power2_allocator_alloc (calm E) (Some a) n = Inr (s32 j, Some b)" "region_free a j n" by blast
  have "s32 j \<noteq> - 1" using s32_not_m1 region_free_M1 [OF assms(2) b(2) assms(3)] by blast
  from starved_alloc [OF assms(1) b(1) this] obtain f s c where
    c: "alloc_search E n [log2_uint32_ceil n..<Suc m] 0 a = Inr (f, s, c)" "f \<noteq> M1"
      "power2_allocator_alloc E (Some a) n = bnd (c_assert E False) (\<lambda>_. Inr (- 1, Some c))"
    unfolding shapeD(2) [OF I(1)] by blast
  have "\<forall>k i s. (k, i, s) \<in> FL (free_lists a) \<longrightarrow> i < M1 \<and> s < W32" using FL_index_M1 [OF assms(2)] by blast
  from alloc_search_ok [OF Q I(1) L log2_ceil_ge [OF nW] this, where z = 0] c(1,2) obtain k fl where
    k: "(k, f, s) \<in> FL (free_lists a)" "n \<le> s" "c = a\<lparr>free_lists := fl\<rparr>" "FL fl = FL (free_lists a) - {(k, f, s)}"
    unfolding calm_alloc_search [OF only] by auto
  have "\<not> p2_inv c"
  proof
    assume "p2_inv c"
    then have "c = a" by (rule p2_state_determined [OF _ assms(2)]) (simp_all add: k(3))
    moreover have "free_lists c = fl" by (simp add: k(3))
    ultimately have "(k, f, s) \<in> FL fl" using k(1) by simp
    then show False unfolding k(4) by simp
  qed
  moreover have "same_blocks a c" using k(3) by (simp add: same_blocks_iff)
  ultimately show ?thesis using c(3) k by (auto simp: c_assert_def)
qed

lemma power2_alloc_leaks_witness:
  "if asserts env_dry then power2_allocator_alloc env_dry (Some pool1) 2 = Inl Assert_failed
    else \<exists>b k f s. power2_allocator_alloc env_dry (Some pool1) 2 = Inr (- 1, Some b) \<and> same_blocks pool1 b \<and> 2 \<le> s \<and>
      (k, f, s) \<in> FL (free_lists pool1) \<and> FL (free_lists b) = FL (free_lists pool1) - {(k, f, s)} \<and> \<not> p2_inv b"
proof (rule power2_alloc_leaks [where i = 4])
  have "log2_uint32_ceil 2 = 1" by code_simp
  then show "2 ^ log2_uint32_ceil 2 dvd (4 :: nat)" by simp
qed (simp_all, simp_all add: pool1_def region_free_def)

text \<open>Several blocks at once: when the second of two insertions into the list in use fails, the call
  returns -1 but the first block stays in use, and the second is neither in use nor free.\<close>

definition env_half :: env where
  "env_half = env_dry\<lparr>jl_err := (\<lambda>op a i. op = JIns \<and> i = 4)\<rparr>"

lemma power2_alloc_multiple_half:
  "power2_allocator_alloc_multiple env_half (Some pool0) 3 2 =
     Inr (- 1, Some (pool0\<lparr>free_lists := [[(3, 1), (7, 1)], [], []], inuse_list := [(0, 3)]\<rparr>))"
proof -
  have l: "log2_uint32_ceil 3 = 2" "log2_uint32_ceil 8 = 3" by code_simp+
  have "v2_search env_half [(0, 4), (4, 4)] 2 3 2 8 (Suc f) 0 = Inr (Some [(0, 4), (4, 4)])" for f
  proof -
    have "JLF env_half [(0, 4), (4, 4)] 0 = PV 0 4" by code_simp
    moreover have "v2_contiguous env_half [(0, 4), (4, 4)] 2 3 2 (PV 0 4) 0 = Inr [(0, 4), (4, 4)]" by code_simp
    ultimately show ?thesis by simp
  qed
  moreover have "v2_remove env_half 2 3 [(0, 4), (4, 4)] pool0 =
      Inr (pool0\<lparr>free_lists := [[(3, 1), (7, 1)], [], []]\<rparr>)" by code_simp
  moreover have "v2_mark env_half 2 3 0 0 [(0, 4), (4, 4)] (pool0\<lparr>free_lists := [[(3, 1), (7, 1)], [], []]\<rparr>) =
      Inr (- 1, pool0\<lparr>free_lists := [[(3, 1), (7, 1)], [], []], inuse_list := [(0, 3)]\<rparr>)" by code_simp
  moreover have "fl_get pool0 2 = Inr [(0, 4), (4, 4)]" "sub32 (no_free_lists pool0) 1 = 2" "mul32 4 2 = 8"
    "total_size pool0 = 8" "u32_of_int (- 1) = M1" by code_simp+
  ultimately show ?thesis
    by (simp add: power2_allocator_alloc_multiple_def power2_allocator_alloc_int_v2_def l shl1_id c_assert_res_def env_half_def
        del: v2_search.simps)
qed

end
