(* ===== verification/Power2_Recovery.thy ===== *)
theory Power2_Recovery
  imports Power2_Props
begin

text \<open>
  What stays true of a pool over its whole life. Its fields keep the shape their C types and the
  code's assertions ask for (\<open>p2_typed\<close>), its size never changes, and it never wears out: once the
  blocks in use have been released, in whatever order, the pool is again the one that was created.
\<close>

section \<open>Runs\<close>

lemma pool_step_capacity: "pool_step p q \<Longrightarrow> capacity q = capacity p"
  by (induction rule: pool_step.induct) simp_all

lemma step_keeps:
  "p2_step E a b \<Longrightarrow> quiet E \<Longrightarrow> p2_inv a \<Longrightarrow> p2_inv b \<and> max_size b = max_size a \<and> total_size b = total_size a"
  using sim_step [of E a b] pool_step_capacity [of "pool_of a" "pool_of b"] by (simp add: pool_of_def)

lemma run_keeps:
  "(p2_step E)\<^sup>*\<^sup>* a b \<Longrightarrow> quiet E \<Longrightarrow> p2_inv a \<Longrightarrow> p2_inv b \<and> max_size b = max_size a \<and> total_size b = total_size a"
  by (induction rule: rtranclp_induct) (auto dest: step_keeps)

section \<open>Releasing every block\<close>

text \<open>The client's loop: one \<open>power2_allocator_release\<close> for each index, all of them with return code 0.\<close>

fun release_all :: "env \<Rightarrow> nat list \<Rightarrow> power2_allocator \<Rightarrow> power2_allocator option" where
  "release_all E [] a = Some a"
| "release_all E (i # is) a =
     (case power2_allocator_release E a i of
        Inr (rc, b) \<Rightarrow> (if rc = 0 then release_all E is b else None)
      | Inl _ \<Rightarrow> None)"

lemma release_all_ok:
  "quiet E \<Longrightarrow> p2_inv a \<Longrightarrow> distinct is \<Longrightarrow> set is \<subseteq> fst ` set (inuse_list a) \<Longrightarrow>
    \<exists>b. release_all E is a = Some b \<and> (p2_step E)\<^sup>*\<^sup>* a b \<and> p2_inv b \<and>
      set (inuse_list b) = {p \<in> set (inuse_list a). fst p \<notin> set is}"
proof (induction "is" arbitrary: a)
  case (Cons i "is")
  obtain n where n: "(i, n) \<in> set (inuse_list a)" using Cons.prems(4) by fastforce
  from release_present [OF Cons.prems(1,2) n] obtain b where
    b: "power2_allocator_release E a i = Inr (0, b)" "p2_inv b" "inuse_list b = jl_del i (inuse_list a)" by blast
  have set_b: "set (inuse_list b) = {p \<in> set (inuse_list a). fst p \<noteq> i}"
    unfolding b(3) using p2_inv_live(1) [OF Cons.prems(2)] by (rule set_jl_del)
  have "set is \<subseteq> fst ` set (inuse_list b)" using Cons.prems(3,4) unfolding set_b by (fastforce simp: image_iff)
  from Cons.IH [OF Cons.prems(1) b(2) _ this] Cons.prems(3) obtain c where
    c: "release_all E is b = Some c" "(p2_step E)\<^sup>*\<^sup>* b c" "p2_inv c"
      "set (inuse_list c) = {p \<in> set (inuse_list b). fst p \<notin> set is}" by auto
  have "p2_step E a b" using b(1) by (rule p2_step.release)
  with c b(1) show ?case unfolding set_b by (intro exI [of _ c]) (auto intro: converse_rtranclp_into_rtranclp)
qed simp

section \<open>The shape of the struct\<close>

definition p2_typed :: "power2_allocator \<Rightarrow> bool" where
  "p2_typed a \<longleftrightarrow> 0 < no_free_lists a \<and> no_free_lists a \<le> 32 \<and> length (free_lists a) = no_free_lists a \<and>
     max_size a = 2 ^ (no_free_lists a - 1) \<and> total_size a mod max_size a = 0 \<and> total_size a < M1 \<and>
     (\<forall>k < no_free_lists a. jl_ok (free_lists a ! k) \<and>
        (\<forall>(i, s) \<in> set (free_lists a ! k). i mod 2 ^ k = 0 \<and> 2 ^ k < 2 * s \<and> s \<le> 2 ^ k \<and> i + s \<le> total_size a)) \<and>
     jl_ok (inuse_list a) \<and> (\<forall>(i, s) \<in> set (inuse_list a). 0 < s \<and> i + s \<le> total_size a)"

lemma free_chunk_shape:
  assumes "p2_inv a" "(k, i, s) \<in> FL (free_lists a)"
  shows "2 ^ k dvd i \<and> 2 ^ k < 2 * s \<and> s \<le> 2 ^ k"
proof -
  from assms(1) obtain m where inv: "m < 32" "total_size a < W32" "blocks_ok 0 (inuse_list a) (total_size a)"
    "FL (free_lists a) = free_chunks m 0 (inuse_list a) (total_size a)" by (elim p2_invE) blast
  then obtain b e where be: "(b, e) \<in> set (gaps 0 (inuse_list a) (total_size a))"
    and mem: "(k, i, s) \<in> set (chunks m b (e - b))"
    using assms(2) by (auto simp: free_chunks_def)
  from gaps_bounds [OF inv(3) be] inv(2) have "e - b < W32" by auto
  with chunks_mem [OF inv(1) _ mem] show ?thesis by simp
qed

lemma inv_typed: "p2_inv a \<Longrightarrow> p2_typed a"
proof -
  assume inv: "p2_inv a"
  then obtain m where I: "shape m a" "m < 32" "max_size a = 2 ^ m" "2 ^ m dvd total_size a" by (elim p2_invE)
  have "jl_ok (free_lists a ! k) \<and>
      (\<forall>(i, s) \<in> set (free_lists a ! k). i mod 2 ^ k = 0 \<and> 2 ^ k < 2 * s \<and> s \<le> 2 ^ k \<and> i + s \<le> total_size a)"
    if "k < Suc m" for k
  proof -
    have "(k, i, s) \<in> FL (free_lists a)" if "(i, s) \<in> set (free_lists a ! k)" for i s
      using that \<open>k < Suc m\<close> by (simp add: FL_def shapeD(3) [OF I(1)])
    with free_chunk_shape [OF inv] FL_bounds [OF inv] shapeD(4) [OF I(1), of k] that show ?thesis by fastforce
  qed
  with I p2_inv_live [OF inv] p2_inv_total [OF inv] show ?thesis
    by (auto simp: p2_typed_def shapeD(2,3) [OF I(1)])
qed

section \<open>Properties\<close>

text \<open>C6: A pool never wears out. Whatever calls have been made since \<open>power2_allocator_create\<close>,
  releasing the blocks in use one by one, in any order, succeeds every time and brings back exactly
  the pool that was created, free lists included; so every request that was granted then is
  granted again, and no sequence of calls fragments the pool for good.\<close>

theorem power2_recovers:
  assumes E: "quiet E" and new: "sz < W32" "sz * count < M1" "power2_allocator_create E sz count = Inr (Some a)"
    and run: "(p2_step E)\<^sup>*\<^sup>* a b" and order: "distinct is" "set is = fst ` set (inuse_list b)"
  shows "release_all E is b = Some a \<and> (p2_step E)\<^sup>*\<^sup>* b a"
proof -
  note a = create_empty [OF E new]
  from run_keeps [OF run E] a have b: "p2_inv b" "max_size b = max_size a" "total_size b = total_size a" by auto
  from release_all_ok [OF E b(1) order(1)] order(2) obtain c where
    c: "release_all E is b = Some c" "(p2_step E)\<^sup>*\<^sup>* b c" "p2_inv c"
      "set (inuse_list c) = {p \<in> set (inuse_list b). fst p \<notin> set is}" by blast
  have "set (inuse_list c) = {}" unfolding c(4) order(2) by blast
  then have "inuse_list c = []" by simp
  with run_keeps [OF c(2) E b(1)] a b c(3) have "c = a" by (intro p2_state_determined) simp_all
  with c(1,2) show ?thesis by simp
qed

lemma power2_recovers_witness: "release_all env0 [0] pool1 = Some pool0 \<and> (p2_step env0)\<^sup>*\<^sup>* pool1 pool0"
proof (rule power2_recovers [OF quiet_env0 _ _ create_pool0])
  show "(p2_step env0)\<^sup>*\<^sup>* pool0 pool1" using pool1_step by (rule r_into_rtranclp)
qed (simp_all, simp_all add: W32_def M1_def pool1_def)

text \<open>C16: The struct stays well formed. In every state that any sequence of calls leads to from a
  successful \<open>power2_allocator_create\<close>: the sizes are those asked for, there is one free list per size
  class up to \<open>max_size\<close> and at most 32 of them, the list of class \<open>k\<close> holds, in ascending order,
  chunks inside the pool that start at a multiple of \<open>2 ^ k\<close> and have more than half of \<open>2 ^ k\<close> units,
  and the list in use holds, in ascending order, non-empty blocks inside the pool. From such a state
  no allocation, release, copy or run-time check faults.\<close>

theorem power2_well_typed:
  assumes E: "quiet E" and new: "sz < W32" "sz * count < M1" "power2_allocator_create E sz count = Inr (Some a)"
    and run: "(p2_step E)\<^sup>*\<^sup>* a b"
  shows "p2_typed b \<and> max_size b = sz \<and> total_size b = sz * count \<and>
    (\<forall>n. 0 < n \<longrightarrow> \<not> isl (power2_allocator_alloc E (Some b) n)) \<and> (\<forall>i. \<not> isl (power2_allocator_release E b i)) \<and>
    \<not> isl (power2_allocator_make_copy E (Some b)) \<and> \<not> isl (power2_allocator_assert E (Some b))"
proof -
  note a = create_empty [OF E new]
  from run_keeps [OF run E] a have b: "p2_inv b" "max_size b = sz" "total_size b = sz * count" by auto
  have "\<not> isl (power2_allocator_alloc E (Some b) n)" if "0 < n" for n using sim_alloc [OF E b(1) that] by auto
  moreover have "\<not> isl (power2_allocator_release E b i)" for i using sim_release [OF E b(1), of i] by auto
  ultimately show ?thesis
    using inv_typed [OF b(1)] b(2,3) make_copy_ok [OF E b(1)] run_time_check_passes [OF E b(1)] by simp
qed

lemma power2_well_typed_witness:
  "p2_typed pool1 \<and> max_size pool1 = 4 \<and> total_size pool1 = 4 * 2 \<and> \<not> isl (power2_allocator_alloc env0 (Some pool1) 2) \<and>
    \<not> isl (power2_allocator_release env0 pool1 0) \<and> \<not> isl (power2_allocator_make_copy env0 (Some pool1))"
proof -
  have c: "(4::nat) < W32" "(4::nat) * 2 < M1" by (simp_all add: W32_def M1_def)
  have "(p2_step env0)\<^sup>*\<^sup>* pool0 pool1" using pool1_step by (rule r_into_rtranclp)
  from power2_well_typed [OF quiet_env0 c create_pool0 this] show ?thesis by simp
qed

end
