(* ===== verification/Id.thy ===== *)
theory Id
  imports Judy1 Allocator
begin

text \<open>
  src/id/id.c: the id allocator, a Judy1 set of the ids handed out, a size and the flag that says
  whether ids start at 0 or at 1. Every function of the file is modelled;
  \<open>bf_id_allocator_copy\<close> has an empty body in the source. A NULL allocator fails
  \<open>bf_sys_assert\<close> and, with assertions off, is dereferenced.

  The search of \<open>bf_id_allocator_allocate_contiguous\<close> reads \<open>Index\<close> after a \<open>J1N\<close> that found
  nothing, where the Judy manual says that it contains no useful information: \<open>lost\<close> decides.
\<close>

record bf_id_allocator =
  PJ1Array :: j1
  id_size :: nat
  zero_based :: bool

definition the_allocator :: "env \<Rightarrow> bf_id_allocator option \<Rightarrow> bf_id_allocator res" where
  "the_allocator E a = bnd (c_assert E (a \<noteq> None)) (\<lambda>_. case a of None \<Rightarrow> Inl Bad_access | Some x \<Rightarrow> Inr x)"

definition bf_id_allocator_new :: "env \<Rightarrow> nat \<Rightarrow> bool \<Rightarrow> bf_id_allocator res" where
  "bf_id_allocator_new E initial_size zb =
     (if mem E 0 then Inr \<lparr>PJ1Array = [], id_size = initial_size, zero_based = zb\<rparr> else Inl Bad_access)"

definition bf_id_allocator_destroy :: "bf_id_allocator option \<Rightarrow> bf_id_allocator res" where
  "bf_id_allocator_destroy allocator =
     (case allocator of None \<Rightarrow> Inl Bad_access | Some a \<Rightarrow> Inr (a\<lparr>PJ1Array := J1FA (PJ1Array a)\<rparr>))"

text \<open>The search loop. \<open>Inr None\<close> is \<open>return -1\<close>. An iteration that finds a set bit moves
  \<open>next_set\<close> up to it; one that does not leaves \<open>next_set\<close> alone, so that when the loop goes on
  it goes on for ever: after more iterations than there are set bits the loop diverges.\<close>

primrec contiguous_loop :: "env \<Rightarrow> bf_id_allocator \<Rightarrow> nat \<Rightarrow> nat \<Rightarrow> nat \<Rightarrow> nat \<Rightarrow> nat option res" where
  "contiguous_loop E a count 0 first_empty next_set = Inl Diverges"
| "contiguous_loop E a count (Suc fuel) first_empty next_set =
     (if sub64 next_set first_empty < count then
        let (Rc_int, Index) = J1FE E (PJ1Array a) next_set in
        if Rc_int = 0 then Inr None else
        let first_empty = Index; (Rc_int, Index) = J1N E (PJ1Array a) Index in
        if Rc_int = 0
        then if sub64 (id_size a) Index < count then Inr None
             else contiguous_loop E a count fuel first_empty next_set
        else contiguous_loop E a count fuel first_empty Index
      else Inr (Some first_empty))"

text \<open>\<open>for (i = 0; i < count; i++) J1S(Rc_int, array, first_empty + i)\<close>; the result is not read.\<close>

fun set_ids :: "env \<Rightarrow> nat list \<Rightarrow> j1 \<Rightarrow> j1" where
  "set_ids E [] s = s"
| "set_ids E (i # is) s = set_ids E is (snd (J1S E s i))"

definition id_result :: "bf_id_allocator \<Rightarrow> nat \<Rightarrow> int" where
  "id_result a first_empty = (if zero_based a then s32 first_empty else s32 (first_empty + 1))"

definition bf_id_allocator_allocate_contiguous ::
  "env \<Rightarrow> bf_id_allocator option \<Rightarrow> nat \<Rightarrow> (int \<times> bf_id_allocator) res" where
  "bf_id_allocator_allocate_contiguous E allocator count =
     bnd (the_allocator E allocator) (\<lambda>a.
     let (Rc_int, Index) = J1FE E (PJ1Array a) 0 in
     if Rc_int = 0 then Inr (- 1, a) else
     let Index = (if Index \<ge> id_size a then snd (J1FE E (PJ1Array a) 0) else Index);
         first_empty = Index in
     if first_empty \<ge> id_size a then Inr (- 1, a) else
     if count = 1 then Inr (id_result a first_empty, a\<lparr>PJ1Array := snd (J1S E (PJ1Array a) first_empty)\<rparr>) else
     let (Rc_int, Index) = J1N E (PJ1Array a) Index;
         next_set = (if Rc_int = 0 then id_size a else Index) in
     bnd (contiguous_loop E a count (Suc (Suc (length (PJ1Array a)))) first_empty next_set) (\<lambda>r.
     case r of
       None \<Rightarrow> Inr (- 1, a)
     | Some first_empty \<Rightarrow>
         if first_empty > id_size a then Inr (- 1, a) else
         Inr (id_result a first_empty,
              a\<lparr>PJ1Array := set_ids E (map (\<lambda>i. (first_empty + i) mod W64) [0..<count]) (PJ1Array a)\<rparr>)))"

text \<open>\<open>unsigned int bf_id_allocator_allocate\<close>: the \<open>int\<close> result converted.\<close>

definition bf_id_allocator_allocate :: "env \<Rightarrow> bf_id_allocator option \<Rightarrow> (nat \<times> bf_id_allocator) res" where
  "bf_id_allocator_allocate E allocator =
     bnd (bf_id_allocator_allocate_contiguous E allocator 1) (\<lambda>(r, a). Inr (u32_of_int r, a))"

definition bf_id_allocator_release :: "env \<Rightarrow> bf_id_allocator option \<Rightarrow> nat \<Rightarrow> bf_id_allocator res" where
  "bf_id_allocator_release E allocator ident =
     bnd (the_allocator E allocator) (\<lambda>a.
     bnd (if zero_based a then Inr ident else bnd (c_assert E (ident > 0)) (\<lambda>_. Inr (sub32 ident 1))) (\<lambda>ident.
     Inr (a\<lparr>PJ1Array := snd (J1U E (PJ1Array a) ident)\<rparr>)))"

definition bf_id_allocator_set :: "env \<Rightarrow> bf_id_allocator option \<Rightarrow> nat \<Rightarrow> bf_id_allocator res" where
  "bf_id_allocator_set E allocator ident =
     bnd (the_allocator E allocator) (\<lambda>a.
     bnd (if zero_based a then Inr ident else bnd (c_assert E (ident > 0)) (\<lambda>_. Inr (sub32 ident 1))) (\<lambda>ident.
     Inr (a\<lparr>PJ1Array := snd (J1S E (PJ1Array a) ident)\<rparr>)))"

definition bf_id_allocator_is_set :: "env \<Rightarrow> bf_id_allocator option \<Rightarrow> nat \<Rightarrow> int res" where
  "bf_id_allocator_is_set E allocator ident =
     bnd (the_allocator E allocator) (\<lambda>a.
     if \<not> zero_based a \<and> ident < 1 then Inr 0 else
     let ident = (if zero_based a then ident else sub32 ident 1) in
     Inr (if J1T (PJ1Array a) ident = 1 then 1 else 0))"

definition bf_id_allocator_get_first :: "env \<Rightarrow> bf_id_allocator option \<Rightarrow> int" where
  "bf_id_allocator_get_first E allocator =
     (case allocator of None \<Rightarrow> - 1
      | Some a \<Rightarrow>
          let (Rc_int, wd_id) = J1F E (PJ1Array a) 0 in
          if Rc_int \<noteq> 0 then (if \<not> zero_based a then s32 (wd_id + 1) else 0) else - 1)"

definition bf_id_allocator_get_next :: "env \<Rightarrow> bf_id_allocator option \<Rightarrow> nat \<Rightarrow> int" where
  "bf_id_allocator_get_next E allocator ident =
     (case allocator of None \<Rightarrow> - 1
      | Some a \<Rightarrow>
          if \<not> zero_based a \<and> \<not> ident > 0 then - 1 else
          let curr_id = (if \<not> zero_based a then ident - 1 else ident);
              (Rc_int, curr_id) = J1N E (PJ1Array a) curr_id in
          if Rc_int \<noteq> 0 then (if \<not> zero_based a then s32 (curr_id + 1) else s32 curr_id) else - 1)"

definition bf_id_allocator_copy :: "bf_id_allocator option \<Rightarrow> bf_id_allocator option \<Rightarrow> bf_id_allocator option" where
  "bf_id_allocator_copy dst_allocator src_allocator = dst_allocator"

section \<open>Well-formed allocators\<close>

definition id_inv :: "bf_id_allocator \<Rightarrow> bool" where
  "id_inv a \<longleftrightarrow> j1_ok (PJ1Array a) \<and> (\<forall>x \<in> set (PJ1Array a). x < id_size a) \<and> id_size a < M1"

text \<open>\<open>fit a count p\<close>: the \<open>count\<close> ids from \<open>p\<close> on are free and below the size.\<close>

definition fit :: "bf_id_allocator \<Rightarrow> nat \<Rightarrow> nat \<Rightarrow> bool" where
  "fit a count p \<longleftrightarrow> p + count \<le> id_size a \<and> (\<forall>j < count. p + j \<notin> set (PJ1Array a))"

text \<open>The search looks at a run of free ids in one of two ways: from the first free id, with the size as
  its end when nothing above is taken, or up to the next taken id. A run in the tail above the last
  taken id is not of this kind.\<close>

definition below_taken :: "bf_id_allocator \<Rightarrow> nat \<Rightarrow> bool" where
  "below_taken a p \<longleftrightarrow> (\<exists>m \<in> set (PJ1Array a). p < m)"

definition findable :: "bf_id_allocator \<Rightarrow> nat \<Rightarrow> nat \<Rightarrow> bool" where
  "findable a count p \<longleftrightarrow> fit a count p \<and> (below_taken a p \<or> (\<forall>q < p. q \<in> set (PJ1Array a)))"

lemma fit_code [code]:
  "fit a count p \<longleftrightarrow> p + count \<le> id_size a \<and> list_all (\<lambda>j. p + j \<notin> set (PJ1Array a)) [0..<count]"
  by (auto simp: fit_def list_all_iff)

lemma findable_code [code]:
  "findable a count p \<longleftrightarrow> fit a count p \<and> (list_ex (\<lambda>m. p < m) (PJ1Array a) \<or> list_all (\<lambda>q. q \<in> set (PJ1Array a)) [0..<p])"
  by (auto simp: findable_def below_taken_def list_all_iff list_ex_iff)

text \<open>Exactly the lowest ids are taken; the first id above the last taken one.\<close>

definition packed :: "bf_id_allocator \<Rightarrow> bool" where
  "packed a \<longleftrightarrow> PJ1Array a = [0..<length (PJ1Array a)]"

definition tail_start :: "bf_id_allocator \<Rightarrow> nat" where
  "tail_start a = Suc (last (PJ1Array a))"

lemma j1_first_empty_spec:
  assumes "id_inv a" "i \<le> id_size a"
  obtains k where "j1_first_empty (PJ1Array a) i = Some k" "i \<le> k" "k \<le> id_size a" "k \<notin> set (PJ1Array a)"
    "\<forall>j. i \<le> j \<and> j < k \<longrightarrow> j \<in> set (PJ1Array a)"
proof -
  have ok: "j1_ok (PJ1Array a)" and free: "id_size a \<notin> set (PJ1Array a)" "id_size a < W64"
    using assms(1) less_trans [OF less_M1 W32_less_W64] by (auto simp: id_inv_def)
  from j1_absent.first_le [OF ok free(1) assms(2) free(2)] obtain k where
    k: "j1_first_empty (PJ1Array a) i = Some k" "k \<le> id_size a" by blast
  from j1_absent.first_Some [OF ok k(1)] show ?thesis using k by (intro that [of k]) auto
qed

lemma j1_next_cases:
  assumes "id_inv a"
  obtains "j1_next (PJ1Array a) i = None" "\<forall>j \<in> set (PJ1Array a). j \<le> i"
  | k where "j1_next (PJ1Array a) i = Some k" "i < k" "k \<in> set (PJ1Array a)" "k < id_size a" "\<forall>j. i < j \<and> j < k \<longrightarrow> j \<notin> set (PJ1Array a)"
proof (cases "j1_next (PJ1Array a) i")
  case None
  have "j \<le> i" if "j \<in> set (PJ1Array a)" for j
    using j1_present.next_None [OF _ None, of j] assms that by (force simp: id_inv_def j1_ok_def)
  with None that(1) show ?thesis by blast
next
  case (Some k)
  with j1_present.next_Some [OF _ Some] assms that(2) [OF Some] show ?thesis by (auto simp: id_inv_def)
qed


section \<open>The search\<close>

lemma fit_disjoint: "fit a n p \<Longrightarrow> set (PJ1Array a) \<inter> {p..<p + n} = {}"
proof (rule ccontr)
  assume f: "fit a n p" and "set (PJ1Array a) \<inter> {p..<p + n} \<noteq> {}"
  then obtain x where x: "x \<in> set (PJ1Array a)" "p \<le> x" "x < p + n" by auto
  then have "x - p < n" "p + (x - p) = x" by simp_all
  with f x(1) show False unfolding fit_def by metis
qed

lemma not_fit_before_set: "p \<le> q \<Longrightarrow> q - p < c \<Longrightarrow> q \<in> set (PJ1Array a) \<or> id_size a \<le> q \<Longrightarrow> \<not> fit a c p"
proof
  assume a: "p \<le> q" "q - p < c" "q \<in> set (PJ1Array a) \<or> id_size a \<le> q" and f: "fit a c p"
  then have "p + (q - p) \<notin> set (PJ1Array a)" unfolding fit_def by blast
  with a f show False by (auto simp: fit_def)
qed

lemma tail_free:
  assumes "id_inv a" "x \<in> set (PJ1Array a)"
  shows "x < tail_start a"
proof -
  let ?S = "PJ1Array a"
  have "?S \<noteq> []" using assms(2) by auto
  then have l: "?S = butlast ?S @ [last ?S]" by simp
  have "sorted_wrt (<) (butlast ?S @ [last ?S])" using assms(1) l by (simp add: id_inv_def j1_ok_def)
  then have "\<forall>y \<in> set (butlast ?S). y < last ?S" by (simp add: sorted_wrt_append)
  moreover have "x \<in> set (butlast ?S @ [last ?S])" using assms(2) l by simp
  ultimately show ?thesis by (auto simp: tail_start_def)
qed


lemma tail_startI:
  assumes "id_inv a" "Suc x = k" "x \<in> set (PJ1Array a)" "\<forall>j \<in> set (PJ1Array a). j < k"
  shows "tail_start a = k"
proof -
  have "PJ1Array a \<noteq> []" using assms(3) by auto
  then have "last (PJ1Array a) \<in> set (PJ1Array a)" by (rule last_in_set)
  then have "tail_start a \<le> k" using assms(4) by (simp add: tail_start_def Suc_le_eq)
  with tail_free [OF assms(1,3)] assms(2) show ?thesis by simp
qed

text \<open>The loop below a taken id: \<open>first_empty\<close> is free and nothing fits below it, \<open>next_set\<close> is the
  first taken id above it. It finds the first run that lies below a taken id; when there is none it
  reaches the tail and trusts the \<open>Index\<close> that the failed search left.\<close>

lemma contiguous_loop_ok:
  assumes inv: "id_inv a" and c: "0 < count" "count < W32"
  shows "f < nx \<Longrightarrow> \<forall>p < f. \<not> fit a count p \<Longrightarrow> \<forall>j. f \<le> j \<and> j < nx \<longrightarrow> j \<notin> set (PJ1Array a) \<Longrightarrow>
    nx \<in> set (PJ1Array a) \<Longrightarrow> length (filter (\<lambda>j. nx \<le> j) (PJ1Array a)) < fuel \<Longrightarrow>
    (\<exists>p. contiguous_loop E a count fuel f nx = Inr (Some p) \<and> fit a count p \<and> below_taken a p \<and> (\<forall>q < p. \<not> fit a count q)) \<or>
    ((\<forall>p. fit a count p \<longrightarrow> \<not> below_taken a p) \<and> tail_start a \<le> id_size a \<and>
      contiguous_loop E a count fuel f nx =
        Inr (if sub64 (id_size a) (lost E (PJ1Array a) (tail_start a)) < count then None else Some (tail_start a)))"
proof (induction fuel arbitrary: f nx)
  case (Suc fuel)
  let ?S = "PJ1Array a"
  have sz: "id_size a < W32" "\<forall>x \<in> set ?S. x < id_size a" using inv by (auto simp: id_inv_def less_M1)
  have nx: "nx < id_size a" using Suc.prems(4) sz(2) by auto
  have s: "sub64 nx f = nx - f" using Suc.prems(1) nx less_trans [OF sz(1) W32_less_W64] by (intro sub64_id) auto
  show ?case
  proof (cases "nx - f < count")
    case False
    then have "fit a count f" using nx Suc.prems(1,3) c(1) by (auto simp: fit_def)
    moreover have "below_taken a f" using Suc.prems(1,4) by (auto simp: below_taken_def)
    moreover have "contiguous_loop E a count (Suc fuel) f nx = Inr (Some f)" using False s by simp
    ultimately show ?thesis using Suc.prems(2) by blast
  next
    case True
    have none: "\<not> fit a count p" if "p < nx" for p
    proof (cases "p < f")
      case False
      with True that Suc.prems(4) show ?thesis by (intro not_fit_before_set [of p nx]) auto
    qed (use Suc.prems(2) in blast)
    obtain k where k: "j1_first_empty ?S nx = Some k" "nx \<le> k" "k \<le> id_size a" "k \<notin> set ?S"
      "\<forall>j. nx \<le> j \<and> j < k \<longrightarrow> j \<in> set ?S" using j1_first_empty_spec [OF inv] nx less_imp_le by blast
    have "nx < k" using k(2,4) Suc.prems(4) by (metis le_neq_implies_less)
    have none_k: "\<not> fit a count p" if "p < k" for p
    proof (cases "p < nx")
      case False
      with k(5) that have "p \<in> set ?S" by simp
      then show ?thesis using c(1) by (auto simp: fit_def)
    qed (use none in blast)
    have step: "contiguous_loop E a count (Suc fuel) f nx =
        (let (Rc_int, Index) = J1N E ?S k in
         if Rc_int = 0 then if sub64 (id_size a) Index < count then Inr None
             else contiguous_loop E a count fuel k nx
         else contiguous_loop E a count fuel k Index)"
      using True s k(1) by (simp add: J1FE_def)
    have "0 < length (filter (\<lambda>j. nx \<le> j) ?S)" using Suc.prems(4) by (auto simp: filter_empty_conv)
    then have "0 < fuel" using Suc.prems(5) by linarith
    show ?thesis
    proof (rule j1_next_cases [OF inv, of k])
      assume n: "j1_next ?S k = None" "\<forall>j \<in> set ?S. j \<le> k"
      have lt: "\<forall>j \<in> set ?S. j < k" using n(2) k(4) by (metis le_neq_implies_less)
      have "k - 1 \<in> set ?S" using k(5) \<open>nx < k\<close> by auto
      then have t: "tail_start a = k" using \<open>nx < k\<close> lt by (intro tail_startI [OF inv, of "k - 1"]) auto
      have J: "J1N E ?S k = (0, lost E ?S k)" using n(1) by (simp add: J1N_def)
      have "W32 \<le> sub64 nx k" using \<open>nx < k\<close> k(3) sz(1) by (intro sub64_wrap) auto
      then have "\<not> sub64 nx k < count" using c(2) by simp
      then have "contiguous_loop E a count fuel k nx = Inr (Some k)" using \<open>0 < fuel\<close> by (cases fuel) simp_all
      then have "contiguous_loop E a count (Suc fuel) f nx =
          Inr (if sub64 (id_size a) (lost E ?S k) < count then None else Some k)" unfolding step J by simp
      moreover have "\<not> below_taken a p" if "fit a count p" for p
      proof -
        have "k \<le> p" using none_k [of p] that by (cases "p < k") auto
        then show ?thesis using lt by (auto simp: below_taken_def)
      qed
      ultimately show ?thesis using k(3) unfolding t by blast
    next
      fix m assume m: "j1_next ?S k = Some m" "k < m" "m \<in> set ?S" "m < id_size a" "\<forall>j. k < j \<and> j < m \<longrightarrow> j \<notin> set ?S"
      have J: "J1N E ?S k = (1, m)" using m(1) by (simp add: J1N_def)
      have "length (filter (\<lambda>j. m \<le> j) (filter (\<lambda>j. nx \<le> j) ?S)) < length (filter (\<lambda>j. nx \<le> j) ?S)"
        using Suc.prems(4) m(2) k(2) by (intro length_filter_less [of nx]) auto
      moreover have "filter (\<lambda>j. m \<le> j) (filter (\<lambda>j. nx \<le> j) ?S) = filter (\<lambda>j. m \<le> j) ?S"
        using m(2) k(2) by (auto intro: filter_cong)
      ultimately have len: "length (filter (\<lambda>j. m \<le> j) ?S) < fuel" using Suc.prems(5) by simp
      have "\<forall>p < k. \<not> fit a count p" using none_k by blast
      moreover have "\<forall>j. k \<le> j \<and> j < m \<longrightarrow> j \<notin> set ?S" using m(5) k(4) by (metis le_neq_implies_less)
      ultimately show ?thesis using Suc.IH [OF m(2) _ _ m(3) len] unfolding step J by simp
    qed
  qed
qed simp

text \<open>Above the last taken id, with too short a tail: one search at the size decides, and if it does
  not end the call it is repeated for ever.\<close>

lemma contiguous_loop_packed:
  assumes inv: "id_inv a" and c: "0 < count" and f: "f \<le> id_size a" "id_size a - f < count"
  shows "contiguous_loop E a count (Suc fuel) f (id_size a) =
    (if sub64 (id_size a) (lost E (PJ1Array a) (id_size a)) < count then Inr None else Inl Diverges)"
proof -
  let ?S = "PJ1Array a" and ?z = "id_size a"
  have sz: "?z < W32" "\<forall>x \<in> set ?S. x < ?z" using inv by (auto simp: id_inv_def less_M1)
  have "j1_first_empty ?S ?z = Some ?z" using j1_first_empty_spec [OF inv, of ?z] by (metis order_refl antisym)
  then have F: "J1FE E ?S ?z = (1, ?z)" by (simp add: J1FE_def)
  have "j1_next ?S ?z = None" using j1_next_cases [OF inv, of ?z] by (metis less_asym)
  then have N: "J1N E ?S ?z = (0, lost E ?S ?z)" by (simp add: J1N_def)
  have s: "sub64 ?z f = ?z - f" "sub64 ?z ?z = 0" using f(1) less_trans [OF sz(1) W32_less_W64] by (simp_all add: sub64_id)
  have "contiguous_loop E a count fuel ?z ?z = Inl Diverges" if "\<not> sub64 ?z (lost E ?S ?z) < count"
    using that c by (induction fuel) (simp_all add: s F N)
  then show ?thesis using f(2) by (simp add: s F N)
qed

section \<open>Allocation\<close>

lemma set_ids_ok:
  assumes "quiet E"
  shows "j1_ok s \<Longrightarrow> \<forall>i \<in> set is. i < W64 \<Longrightarrow> j1_ok (set_ids E is s) \<and> set (set_ids E is s) = set s \<union> set is"
proof (induction "is" arbitrary: s)
  case (Cons i "is")
  have J: "snd (J1S E s i) = j1_put i s" using assms by (auto simp: J1S_def j1_put_def)
  with Cons.IH [of "j1_put i s"] Cons.prems show ?case by (auto intro: j1_ok_put)
qed simp

lemma the_allocator_Some [simp]: "the_allocator E (Some a) = Inr a"
  by (simp add: the_allocator_def)

text \<open>What a call returns and leaves when \<open>count\<close> ids fit first at \<open>p\<close>, or nowhere.\<close>

definition id_granted :: "bf_id_allocator \<Rightarrow> nat \<Rightarrow> nat \<Rightarrow> bf_id_allocator \<Rightarrow> bool" where
  "id_granted a count p b \<longleftrightarrow> fit a count p \<and> (\<forall>q < p. \<not> fit a count q) \<and> id_inv b \<and>
     set (PJ1Array b) = set (PJ1Array a) \<union> {p..<p + count} \<and> id_size b = id_size a \<and> zero_based b = zero_based a"

lemma set_ids_run:
  assumes "quiet E" "id_inv a" "p + count < W64"
  defines "s \<equiv> set_ids E (map (\<lambda>i. (p + i) mod W64) [0..<count]) (PJ1Array a)"
  shows "j1_ok s" "set s = set (PJ1Array a) \<union> {p..<p + count}"
proof -
  let ?is = "map (\<lambda>i. (p + i) mod W64) [0..<count]"
  have "set ?is = (\<lambda>i. p + i) ` {0..<count}" using assms(3) by (auto intro!: image_cong)
  also have "\<dots> = {p..<p + count}" by (simp add: add.commute)
  finally have set: "set ?is = {p..<p + count}" .
  have lt: "\<forall>i \<in> set ?is. i < W64" unfolding set using assms(3) by simp
  have "j1_ok (PJ1Array a)" using assms(2) by (simp add: id_inv_def)
  from set_ids_ok [OF assms(1) this lt] show "j1_ok s" "set s = set (PJ1Array a) \<union> {p..<p + count}"
    unfolding set s_def by blast+
qed

lemma id_grant:
  assumes "quiet E" "id_inv a" "fit a count p" "\<forall>q < p. \<not> fit a count q"
  shows "id_granted a count p (a\<lparr>PJ1Array := set_ids E (map (\<lambda>i. (p + i) mod W64) [0..<count]) (PJ1Array a)\<rparr>)"
proof -
  have "id_size a < W64" using assms(2) less_trans [OF less_M1 W32_less_W64] by (simp add: id_inv_def)
  then have W: "p + count < W64" using assms(3) by (simp add: fit_def)
  note ids = set_ids_run [OF assms(1,2) W]
  have inv: "\<forall>x \<in> set (PJ1Array a). x < id_size a" "id_size a < M1" using assms(2) by (simp_all add: id_inv_def)
  have "p + count \<le> id_size a" using assms(3) by (simp add: fit_def)
  then have "\<forall>x \<in> set (PJ1Array a) \<union> {p..<p + count}. x < id_size a" using inv(1) by auto
  with ids inv assms(3,4) show ?thesis by (simp add: id_granted_def id_inv_def)
qed

lemma set_ids_1: "set_ids E (map (\<lambda>i. (p + i) mod W64) [0..<1]) s = snd (J1S E s (p mod W64))"
  by simp

lemma allocate_one:
  assumes E: "quiet E" and inv: "id_inv a"
  shows "(bf_id_allocator_allocate_contiguous E (Some a) 1 = Inr (- 1, a) \<and> (\<forall>p. \<not> fit a 1 p)) \<or>
    (\<exists>p b. bf_id_allocator_allocate_contiguous E (Some a) 1 = Inr (id_result a p, b) \<and> id_granted a 1 p b)"
proof -
  obtain k where k: "j1_first_empty (PJ1Array a) 0 = Some k" "k \<le> id_size a" "k \<notin> set (PJ1Array a)"
    "\<forall>j. 0 \<le> j \<and> j < k \<longrightarrow> j \<in> set (PJ1Array a)" using j1_first_empty_spec [OF inv, of 0] by auto
  have J: "J1FE E (PJ1Array a) 0 = (1, k)" using k(1) by (simp add: J1FE_def)
  have below: "\<not> fit a 1 q" if "q < k" for q using k(4) that by (auto simp: fit_def)
  show ?thesis
  proof (cases "k < id_size a")
    case True
    then have f: "fit a 1 k" using k(3) by (simp add: fit_def)
    have "k mod W64 = k" using True inv less_trans [OF less_M1 W32_less_W64] by (force simp: id_inv_def)
    then have "bf_id_allocator_allocate_contiguous E (Some a) 1 =
      Inr (id_result a k, a\<lparr>PJ1Array := set_ids E (map (\<lambda>i. (k + i) mod W64) [0..<1]) (PJ1Array a)\<rparr>)"
      using True J by (simp add: bf_id_allocator_allocate_contiguous_def)
    with id_grant [OF E inv f] below show ?thesis by blast
  next
    case False
    have "\<not> fit a 1 p" for p using below [of p] False k(2) by (cases "p < k") (auto simp: fit_def)
    moreover have "bf_id_allocator_allocate_contiguous E (Some a) 1 = Inr (- 1, a)"
      using False J by (simp add: bf_id_allocator_allocate_contiguous_def)
    ultimately show ?thesis by blast
  qed
qed

lemma packedI:
  assumes "id_inv a" "\<forall>q < f. q \<in> set (PJ1Array a)" "\<forall>j \<in> set (PJ1Array a). j < f"
  shows "PJ1Array a = [0..<f]"
proof (rule j1_unique)
  show "set (PJ1Array a) = set [0..<f]" using assms(2,3) by auto
  have "\<forall>q < f. q < W64" using assms(1,2) by (auto simp: id_inv_def j1_ok_def)
  then show "j1_ok [0..<f]" by (auto simp: j1_ok_def)
qed (use assms(1) in \<open>simp add: id_inv_def\<close>)

text \<open>The first free id, where every call starts.\<close>

definition first_free :: "bf_id_allocator \<Rightarrow> nat \<Rightarrow> bool" where
  "first_free a k \<longleftrightarrow> k \<notin> set (PJ1Array a) \<and> (\<forall>q < k. q \<in> set (PJ1Array a))"

lemma first_freeE:
  assumes "id_inv a"
  obtains k where "first_free a k" "k \<le> id_size a" "\<And>E. J1FE E (PJ1Array a) 0 = (1, k)"
    "k = id_size a \<longleftrightarrow> length (PJ1Array a) = id_size a"
proof -
  let ?S = "PJ1Array a" and ?z = "id_size a"
  have sz: "\<forall>x \<in> set ?S. x < ?z" "j1_ok ?S" using assms by (auto simp: id_inv_def)
  obtain k where k: "j1_first_empty ?S 0 = Some k" "k \<le> ?z" "k \<notin> set ?S"
    "\<forall>j. 0 \<le> j \<and> j < k \<longrightarrow> j \<in> set ?S" using j1_first_empty_spec [OF assms, of 0] by auto
  have "length ?S = card (set ?S)" using sz(2) by (simp add: j1_ok_iff distinct_card)
  moreover have "set ?S = {0..<?z}" if "k = ?z" using k(4) sz(1) that by auto
  moreover have "card (set ?S) < ?z" if "k < ?z"
  proof -
    have "set ?S \<subset> {0..<?z}" using sz(1) k(3) that by (intro psubsetI) auto
    then have "card (set ?S) < card {0..<?z}" by (rule psubset_card_mono [rotated]) simp
    then show ?thesis by simp
  qed
  ultimately have "k = ?z \<longleftrightarrow> length ?S = ?z"
    using k(2) by (metis card_atLeastLessThan diff_zero le_neq_implies_less less_irrefl)
  with k that [of k] show ?thesis by (simp add: first_free_def J1FE_def)
qed

lemma first_free_facts:
  assumes "first_free a k" "0 < count"
  shows "\<forall>q < k. \<not> fit a count q" "findable a count p \<longleftrightarrow> fit a count p \<and> (below_taken a p \<or> p = k)"
proof -
  show below: "\<forall>q < k. \<not> fit a count q" using assms by (auto simp: first_free_def fit_def)
  show "findable a count p \<longleftrightarrow> fit a count p \<and> (below_taken a p \<or> p = k)"
    using assms(1) below by (auto simp: findable_def first_free_def) (metis linorder_neqE_nat)
qed

text \<open>The call for several ids, from the first free id on.\<close>

lemma allocate_unfold:
  assumes "first_free a k" "k < id_size a" "J1FE E (PJ1Array a) 0 = (1, k)" "count \<noteq> 1"
    "nx = (if fst (J1N E (PJ1Array a) k) = 0 then id_size a else snd (J1N E (PJ1Array a) k))"
  shows "bf_id_allocator_allocate_contiguous E (Some a) count =
    bnd (contiguous_loop E a count (Suc (Suc (length (PJ1Array a)))) k nx) (\<lambda>r. case r of None \<Rightarrow> Inr (- 1, a)
       | Some first_empty \<Rightarrow> if first_empty > id_size a then Inr (- 1, a) else
         Inr (id_result a first_empty,
              a\<lparr>PJ1Array := set_ids E (map (\<lambda>i. (first_empty + i) mod W64) [0..<count]) (PJ1Array a)\<rparr>))"
  using assms by (simp add: bf_id_allocator_allocate_contiguous_def case_prod_unfold Let_def del: contiguous_loop.simps)

lemma allocate_grant:
  assumes "quiet E" "id_inv a" "findable a count p" "\<forall>q < p. \<not> fit a count q"
    "bf_id_allocator_allocate_contiguous E (Some a) count =
      bnd (Inr (Some p)) (\<lambda>r. case r of None \<Rightarrow> Inr (- 1, a)
       | Some first_empty \<Rightarrow> if first_empty > id_size a then Inr (- 1, a) else
         Inr (id_result a first_empty,
              a\<lparr>PJ1Array := set_ids E (map (\<lambda>i. (first_empty + i) mod W64) [0..<count]) (PJ1Array a)\<rparr>))"
  shows "\<exists>p b. bf_id_allocator_allocate_contiguous E (Some a) count = Inr (id_result a p, b) \<and> findable a count p \<and> id_granted a count p b"
proof -
  have p: "fit a count p" using assms(3) by (simp add: findable_def)
  then have "\<not> id_size a < p" by (simp add: fit_def)
  with assms(3,5) id_grant [OF assms(1,2) p assms(4)] show ?thesis by auto
qed

text \<open>Nothing is taken above the first free id.\<close>

lemma allocate_packed:
  assumes E: "quiet E" and inv: "id_inv a" and c: "0 < count" "count \<noteq> 1"
    and k: "first_free a k" "k < id_size a" "J1FE E (PJ1Array a) 0 = (1, k)" and n: "j1_next (PJ1Array a) k = None"
      "\<forall>j \<in> set (PJ1Array a). j < k"
  shows "if \<exists>p. findable a count p
    then \<exists>p b. bf_id_allocator_allocate_contiguous E (Some a) count = Inr (id_result a p, b) \<and>
      findable a count p \<and> id_granted a count p b
    else bf_id_allocator_allocate_contiguous E (Some a) count =
      (if sub64 (id_size a) (lost E (PJ1Array a) (id_size a)) < count then Inr (- 1, a) else Inl Diverges)"
proof -
  let ?S = "PJ1Array a" and ?z = "id_size a"
  have z: "?z < W64" using inv less_trans [OF less_M1 W32_less_W64] by (simp add: id_inv_def)
  note ff = first_free_facts [OF k(1) c(1)]
  have "id_size a = (if fst (J1N E ?S k) = 0 then ?z else snd (J1N E ?S k))" using n(1) by (simp add: J1N_def)
  note eq = allocate_unfold [OF k c(2) this]
  have nb: "\<not> below_taken a p" if "fit a count p" for p
  proof -
    have "k \<le> p" using ff(1) that by (cases "p < k") auto
    then show ?thesis using n(2) by (auto simp: below_taken_def)
  qed
  have "\<forall>j < count. k + j \<notin> set ?S" using n(2) by auto
  then have only: "findable a count p \<longleftrightarrow> p = k \<and> k + count \<le> ?z" for p
    unfolding ff(2) using nb by (auto simp: fit_def)
  show ?thesis
  proof (cases "k + count \<le> ?z")
    case True
    have "sub64 ?z k = ?z - k" using k(2) z by (simp add: sub64_id)
    moreover have "\<not> ?z - k < count" using True by simp
    ultimately have "contiguous_loop E a count (Suc (Suc (length ?S))) k ?z = Inr (Some k)" by simp
    with allocate_grant [OF E inv, of count k] ff(1) only True eq show ?thesis by auto
  next
    case False
    then have "?z - k < count" using k(2) by linarith
    with contiguous_loop_packed [OF inv c(1) less_imp_le [OF k(2)], of E "Suc (length ?S)"] only False show ?thesis
      unfolding eq by (simp del: contiguous_loop.simps)
  qed
qed

text \<open>Some id above the first free one is taken.\<close>

lemma allocate_scattered:
  assumes E: "quiet E" and inv: "id_inv a" and c: "0 < count" "count \<noteq> 1" "count < 256"
    and k: "first_free a k" "k < id_size a" "J1FE E (PJ1Array a) 0 = (1, k)"
    and m: "j1_next (PJ1Array a) k = Some m" "k < m" "m \<in> set (PJ1Array a)" "\<forall>j. k < j \<and> j < m \<longrightarrow> j \<notin> set (PJ1Array a)"
  shows "if \<exists>p. findable a count p
    then \<exists>p b. bf_id_allocator_allocate_contiguous E (Some a) count = Inr (id_result a p, b) \<and>
      findable a count p \<and> id_granted a count p b
    else tail_start a \<le> id_size a \<and>
      (if sub64 (id_size a) (lost E (PJ1Array a) (tail_start a)) < count
       then bf_id_allocator_allocate_contiguous E (Some a) count = Inr (- 1, a)
       else \<exists>s. bf_id_allocator_allocate_contiguous E (Some a) count = Inr (id_result a (tail_start a), a\<lparr>PJ1Array := s\<rparr>) \<and>
         j1_ok s \<and> set s = set (PJ1Array a) \<union> {tail_start a..<tail_start a + count})"
proof -
  let ?S = "PJ1Array a" and ?z = "id_size a" and ?t = "tail_start a"
  note ff = first_free_facts [OF k(1) c(1)]
  have "m = (if fst (J1N E ?S k) = 0 then ?z else snd (J1N E ?S k))" using m(1) by (simp add: J1N_def)
  note eq = allocate_unfold [OF k c(2) this]
  have "below_taken a k" using m(2,3) by (auto simp: below_taken_def)
  then have only: "findable a count p \<longleftrightarrow> fit a count p \<and> below_taken a p" for p unfolding ff(2) by auto
  have fr: "\<forall>j. k \<le> j \<and> j < m \<longrightarrow> j \<notin> set ?S" using m(4) k(1) unfolding first_free_def by (metis le_neq_implies_less)
  have cW: "count < W32" using c(3) by (simp add: W32_def)
  have fuel: "length (filter (\<lambda>j. m \<le> j) ?S) < Suc (Suc (length ?S))"
    using length_filter_le [of "\<lambda>j. m \<le> j" ?S] by linarith
  from contiguous_loop_ok [OF inv c(1) cW m(2) ff(1) fr m(3) fuel, of E] show ?thesis
  proof (elim disjE exE conjE)
    fix p assume "contiguous_loop E a count (Suc (Suc (length ?S))) k m = Inr (Some p)" "fit a count p" "below_taken a p"
      "\<forall>q < p. \<not> fit a count q"
    with allocate_grant [OF E inv, of count p] only eq show ?thesis by auto
  next
    assume t: "\<forall>p. fit a count p \<longrightarrow> \<not> below_taken a p" "?t \<le> ?z"
      "contiguous_loop E a count (Suc (Suc (length ?S))) k m = Inr (if sub64 ?z (lost E ?S ?t) < count then None else Some ?t)"
    have nf: "\<not> (\<exists>p. findable a count p)" using t(1) only by blast
    have "?z < W32" using inv by (simp add: id_inv_def less_M1)
    then have "?t + count < W64" using t(2) c(3) by (simp add: W32_def W64_def)
    note ids = set_ids_run [OF E inv this]
    let ?s = "set_ids E (map (\<lambda>i. (?t + i) mod W64) [0..<count]) ?S"
    have "bf_id_allocator_allocate_contiguous E (Some a) count =
        (if sub64 ?z (lost E ?S ?t) < count then Inr (- 1, a) else Inr (id_result a ?t, a\<lparr>PJ1Array := ?s\<rparr>))"
      using t(2,3) unfolding eq by (simp del: contiguous_loop.simps)
    with nf t(2) ids show ?thesis by (cases "sub64 ?z (lost E ?S ?t) < count") (simp, simp, blast)
  qed
qed

lemma allocate_many:
  assumes E: "quiet E" and inv: "id_inv a" and c: "0 < count" "count < 256"
  shows "if \<exists>p. findable a count p
    then \<exists>p b. bf_id_allocator_allocate_contiguous E (Some a) count = Inr (id_result a p, b) \<and>
      findable a count p \<and> id_granted a count p b
    else if count = 1 \<or> length (PJ1Array a) = id_size a
    then bf_id_allocator_allocate_contiguous E (Some a) count = Inr (- 1, a)
    else if packed a
    then bf_id_allocator_allocate_contiguous E (Some a) count =
      (if sub64 (id_size a) (lost E (PJ1Array a) (id_size a)) < count then Inr (- 1, a) else Inl Diverges)
    else tail_start a \<le> id_size a \<and>
      (if sub64 (id_size a) (lost E (PJ1Array a) (tail_start a)) < count
       then bf_id_allocator_allocate_contiguous E (Some a) count = Inr (- 1, a)
       else \<exists>s. bf_id_allocator_allocate_contiguous E (Some a) count = Inr (id_result a (tail_start a), a\<lparr>PJ1Array := s\<rparr>) \<and>
         j1_ok s \<and> set s = set (PJ1Array a) \<union> {tail_start a..<tail_start a + count})"
proof -
  let ?S = "PJ1Array a" and ?z = "id_size a"
  obtain k where k: "first_free a k" "k \<le> ?z" "J1FE E ?S 0 = (1, k)" and full: "k = ?z \<longleftrightarrow> length ?S = ?z"
    using first_freeE [OF inv] by metis
  note ff = first_free_facts [OF k(1) c(1)]
  consider "k = ?z" | "k < ?z" "count = 1" | "k < ?z" "count \<noteq> 1" using k(2) by linarith
  then show ?thesis
  proof cases
    case 1
    then have "\<not> fit a count p" for p using ff(1) c(1) by (cases "p < k") (auto simp: fit_def)
    then have "\<not> (\<exists>p. findable a count p)" by (simp add: findable_def)
    moreover have "bf_id_allocator_allocate_contiguous E (Some a) count = Inr (- 1, a)"
      using 1 k(3) by (simp add: bf_id_allocator_allocate_contiguous_def)
    ultimately show ?thesis using full 1 by simp
  next
    case 2
    have f: "fit a 1 k" using 2 k(1) by (simp add: fit_def first_free_def)
    have "k mod W64 = k" using 2(1) inv less_trans [OF less_M1 W32_less_W64] by (force simp: id_inv_def)
    then have "bf_id_allocator_allocate_contiguous E (Some a) 1 =
        Inr (id_result a k, a\<lparr>PJ1Array := set_ids E (map (\<lambda>i. (k + i) mod W64) [0..<1]) ?S\<rparr>)"
      using 2 k(3) by (simp add: bf_id_allocator_allocate_contiguous_def)
    with id_grant [OF E inv f] f ff 2(2) show ?thesis by auto
  next
    case 3
    show ?thesis
    proof (rule j1_next_cases [OF inv, of k])
      assume n: "j1_next ?S k = None" "\<forall>j \<in> set ?S. j \<le> k"
      have lt: "\<forall>j \<in> set ?S. j < k" using n(2) k(1) unfolding first_free_def by (metis le_neq_implies_less)
      have "packed a" using packedI [OF inv _ lt] k(1) by (simp add: packed_def first_free_def)
      with allocate_packed [OF E inv c(1) 3(2) k(1) 3(1) k(3) n(1) lt] full 3 show ?thesis by simp
    next
      fix m assume m: "j1_next ?S k = Some m" "k < m" "m \<in> set ?S" "\<forall>j. k < j \<and> j < m \<longrightarrow> j \<notin> set ?S"
      have "\<not> packed a"
      proof
        assume "packed a"
        then have S: "set ?S = {0..<length ?S}" by (metis packed_def set_upt)
        with m(2,3) have "k \<in> set ?S" by auto
        with k(1) show False by (simp add: first_free_def)
      qed
      with allocate_scattered [OF E inv c(1) 3(2) c(2) k(1) 3(1) k(3) m] full 3 show ?thesis by simp
    qed
  qed
qed

end
