(* ===== verification/Id_Props.thy ===== *)
theory Id_Props
  imports Id
begin

text \<open>
  The properties of the id allocator. For single ids it meets the \<open>block_allocator\<close> contract
  whatever Judy leaves in \<open>Index\<close>; the search for several ids is characterised for every value
  that a failed search may leave there, and for the increment of the vendored Judy (\<open>env0\<close>).
\<close>

section \<open>Single ids: the allocator contract\<close>

definition id_of_index :: "bf_id_allocator \<Rightarrow> nat \<Rightarrow> nat" where
  "id_of_index a i = (if zero_based a then i else i + 1)"

definition id_alloc :: "env \<times> bf_id_allocator \<Rightarrow> nat \<Rightarrow> nat option \<times> env \<times> bf_id_allocator" where
  "id_alloc s n = (case s of (E, a) \<Rightarrow>
     if n \<noteq> 1 then (None, s) else
     (case bf_id_allocator_allocate E (Some a) of
        Inr (r, b) \<Rightarrow> (if r = M1 then None else Some (r - id_of_index a 0), E, b)
      | Inl _ \<Rightarrow> (None, s)))"

definition id_release :: "env \<times> bf_id_allocator \<Rightarrow> nat \<Rightarrow> bool \<times> env \<times> bf_id_allocator" where
  "id_release s i = (case s of (E, a) \<Rightarrow>
     if M1 \<le> i then (False, s) else
     (case bf_id_allocator_is_set E (Some a) (id_of_index a i) of
        Inr r \<Rightarrow> (case bf_id_allocator_release E (Some a) (id_of_index a i) of
            Inr b \<Rightarrow> (r = 1, E, b) | Inl _ \<Rightarrow> (False, s))
      | Inl _ \<Rightarrow> (False, s)))"

lemma id_result_ok:
  assumes "id_inv a" "p < id_size a"
  shows "u32_of_int (id_result a p) = id_of_index a p" "id_of_index a p < M1 \<or> id_of_index a p = M1 \<and> Suc p = id_size a"
    "id_of_index a p \<noteq> M1" "id_result a p \<noteq> - 1"
proof -
  have "id_size a < M1" using assms(1) by (simp add: id_inv_def)
  then have p: "p < M1" "p + 1 < M1" using assms(2) by linarith+
  then show u: "u32_of_int (id_result a p) = id_of_index a p"
    using less_M1 [OF p(1)] less_M1 [OF p(2)] by (simp add: id_result_def id_of_index_def)
  show "id_of_index a p < M1 \<or> id_of_index a p = M1 \<and> Suc p = id_size a" "id_of_index a p \<noteq> M1"
    using p by (simp_all add: id_of_index_def)
  show "id_result a p \<noteq> - 1"
    using p less_M1 [OF p(1)] less_M1 [OF p(2)] by (simp add: id_result_def s32_eq_m1_iff)
qed

lemma id_index_back:
  assumes "i < M1"
  shows "sub32 (i + 1) 1 = i"
  using sub32_id [of 1 "i + 1"] assms by (simp add: M1_W32)

lemma is_set_index: "i < M1 \<Longrightarrow> bf_id_allocator_is_set E (Some a) (id_of_index a i) = Inr (if i \<in> set (PJ1Array a) then 1 else 0)"
  using id_index_back [of i] by (auto simp: bf_id_allocator_is_set_def id_of_index_def J1T_def Let_def)

lemma release_index:
  "quiet E \<Longrightarrow> i < M1 \<Longrightarrow> bf_id_allocator_release E (Some a) (id_of_index a i) =
    Inr (a\<lparr>PJ1Array := (if i \<in> set (PJ1Array a) then remove1 i (PJ1Array a) else PJ1Array a)\<rparr>)"
  using id_index_back [of i] by (auto simp: bf_id_allocator_release_def id_of_index_def J1U_def c_assert_I)

lemma set_index:
  "quiet E \<Longrightarrow> i < M1 \<Longrightarrow> bf_id_allocator_set E (Some a) (id_of_index a i) = Inr (a\<lparr>PJ1Array := j1_put i (PJ1Array a)\<rparr>)"
  using id_index_back [of i] by (auto simp: bf_id_allocator_set_def id_of_index_def J1S_def j1_put_def c_assert_I)

lemma allocate_cases:
  assumes E: "quiet E" and inv: "id_inv a"
  shows "(bf_id_allocator_allocate E (Some a) = Inr (M1, a) \<and> {0..<id_size a} \<subseteq> set (PJ1Array a)) \<or>
    (\<exists>p b. bf_id_allocator_allocate E (Some a) = Inr (id_of_index a p, b) \<and> p < id_size a \<and> p \<notin> set (PJ1Array a) \<and>
      (\<forall>q < p. q \<in> set (PJ1Array a)) \<and> id_inv b \<and> set (PJ1Array b) = insert p (set (PJ1Array a)) \<and>
      id_size b = id_size a \<and> zero_based b = zero_based a)"
proof -
  have m1: "u32_of_int (- 1) = M1" by (simp add: u32_of_int_def M1_def W32_def)
  from allocate_one [OF assms] show ?thesis
  proof (elim disjE exE conjE)
    assume "bf_id_allocator_allocate_contiguous E (Some a) 1 = Inr (- 1, a)" "\<forall>p. \<not> fit a 1 p"
    moreover from this(2) have "{0..<id_size a} \<subseteq> set (PJ1Array a)" by (auto simp: fit_def)
    ultimately show ?thesis by (simp add: bf_id_allocator_allocate_def m1)
  next
    fix p b assume r: "bf_id_allocator_allocate_contiguous E (Some a) 1 = Inr (id_result a p, b)" "id_granted a 1 p b"
    then have p: "p < id_size a" "p \<notin> set (PJ1Array a)" by (auto simp: id_granted_def fit_def)
    have "q \<in> set (PJ1Array a)" if "q < p" for q
      using r(2) that p(1) by (auto simp: id_granted_def fit_def)
    moreover have "bf_id_allocator_allocate E (Some a) = Inr (id_of_index a p, b)"
      using r(1) id_result_ok(1) [OF inv p(1)] by (simp add: bf_id_allocator_allocate_def)
    ultimately show ?thesis using r(2) p by (intro disjI2 exI [of _ p] exI [of _ b]) (auto simp: id_granted_def)
  qed
qed

interpretation ids: block_allocator
  "\<lambda>(E, a). quiet E \<and> id_inv a" "\<lambda>(E, a). (E, id_size a, zero_based a)" "\<lambda>(E, sz, zb). sz"
  "\<lambda>(E, a). (\<lambda>i. (i, 1)) ` set (PJ1Array a)" id_alloc id_release
proof (unfold_locales, goal_cases)
  case (1 s)
  then show ?case by (cases s) (auto simp: disjoint_blocks_def id_inv_def Suc_le_eq)
next
  case (2 s n i s')
  obtain E a where s: "s = (E, a)" by (cases s)
  with 2 have p: "quiet E" "id_inv a" by auto
  have n: "n = 1" using 2(3) s by (auto simp: id_alloc_def split: if_splits)
  from allocate_cases [OF p] show ?case
  proof (elim disjE exE conjE)
    assume "bf_id_allocator_allocate E (Some a) = Inr (M1, a)"
    with 2(3) s n show ?case by (simp add: id_alloc_def)
  next
    fix q b assume q: "bf_id_allocator_allocate E (Some a) = Inr (id_of_index a q, b)" "q < id_size a" "q \<notin> set (PJ1Array a)"
      "id_inv b" "set (PJ1Array b) = insert q (set (PJ1Array a))" "id_size b = id_size a" "zero_based b = zero_based a"
    have "i = q" "s' = (E, b)"
      using 2(3) s n q(1) id_result_ok(3) [OF p(2) q(2)] by (auto simp: id_alloc_def id_of_index_def)
    moreover have "\<forall>x \<in> set (PJ1Array a). Suc q \<le> x \<or> Suc x \<le> q" using q(3) by (metis Suc_leI nat_neq_iff)
    ultimately show ?case using q p s n by simp
  qed
next
  case (3 s n s')
  obtain E a where s: "s = (E, a)" by (cases s)
  with 3 have p: "quiet E" "id_inv a" by auto
  show ?case
  proof (cases "n = 1")
    case True
    from allocate_cases [OF p] show ?thesis
    proof (elim disjE exE conjE)
      fix q b assume q: "bf_id_allocator_allocate E (Some a) = Inr (id_of_index a q, b)" "q < id_size a"
      with 3(3) s True id_result_ok(3) [OF p(2) q(2)] show ?thesis by (simp add: id_alloc_def)
    qed (use 3(3) s True in \<open>simp add: id_alloc_def\<close>)
  qed (use 3(3) s in \<open>simp add: id_alloc_def\<close>)
next
  case (4 s i n)
  obtain E a where s: "s = (E, a)" by (cases s)
  with 4 have p: "quiet E" "id_inv a" "i \<in> set (PJ1Array a)" "n = 1" by auto
  have i: "i < M1" using p(2,3) by (auto simp: id_inv_def)
  have ok: "j1_ok (PJ1Array a)" using p(2) by (simp add: id_inv_def)
  let ?b = "a\<lparr>PJ1Array := remove1 i (PJ1Array a)\<rparr>"
  have "id_release s i = (True, E, ?b)"
    using s p i is_set_index [OF i, of E a] release_index [OF p(1) i, of a] by (simp add: id_release_def)
  moreover have "id_inv ?b" using p(2) set_j1_remove [OF ok, of i] j1_ok_remove [OF ok, of i] by (simp add: id_inv_def)
  ultimately show ?case using p set_j1_remove [OF ok, of i] s by (intro exI [of _ "(E, ?b)"]) auto
next
  case (5 s i)
  obtain E a where s: "s = (E, a)" by (cases s)
  with 5 have p: "quiet E" "i \<notin> set (PJ1Array a)" by (auto simp: image_iff)
  show ?case
  proof (cases "i < M1")
    case True
    then show ?thesis using s p is_set_index [OF True, of E a] release_index [OF p(1) True, of a] by (simp add: id_release_def)
  qed (use s in \<open>simp add: id_release_def\<close>)
next
  case (6 s s')
  obtain E a E' b where s: "s = (E, a)" "s' = (E', b)" by (cases s; cases s') 
  have "(\<lambda>i. (i, 1 :: nat)) ` set (PJ1Array a) = (\<lambda>i. (i, 1)) ` set (PJ1Array b)" using 6 s by simp
  then have "set (PJ1Array a) = set (PJ1Array b)" by (auto simp: image_iff set_eq_iff)
  then have "PJ1Array a = PJ1Array b" using 6 s by (intro j1_unique) (auto simp: id_inv_def)
  then show ?case using 6 s by (cases a; cases b) auto
qed

section \<open>Properties\<close>

definition ids3 :: bf_id_allocator where
  "ids3 = \<lparr>PJ1Array = [1, 2], id_size = 4, zero_based = False\<rparr>"

lemma ids3_inv [simp]: "id_inv ids3"
  by (simp add: ids3_def id_inv_def j1_ok_def M1_def W64_def)

text \<open>\<open>bf_id_allocator_allocate\<close>, whatever Judy leaves in \<open>Index\<close>: if some id below the size
  is free it returns the smallest free one (plus one when ids start at 1) and marks exactly it;
  otherwise it returns \<open>(unsigned)-1\<close> and changes nothing.\<close>

lemma id_allocate_smallest:
  assumes "quiet E" "id_inv a"
  shows "if \<exists>p < id_size a. p \<notin> set (PJ1Array a)
    then \<exists>b. bf_id_allocator_allocate E (Some a) = Inr (id_of_index a (LEAST p. p \<notin> set (PJ1Array a)), b) \<and> id_inv b \<and>
      set (PJ1Array b) = insert (LEAST p. p \<notin> set (PJ1Array a)) (set (PJ1Array a)) \<and> id_size b = id_size a
    else bf_id_allocator_allocate E (Some a) = Inr (M1, a)"
  using allocate_cases [OF assms]
proof (elim disjE exE conjE)
  fix p b assume p: "bf_id_allocator_allocate E (Some a) = Inr (id_of_index a p, b)" "p < id_size a" "p \<notin> set (PJ1Array a)"
    "\<forall>q < p. q \<in> set (PJ1Array a)" "id_inv b" "set (PJ1Array b) = insert p (set (PJ1Array a))" "id_size b = id_size a"
  then have "(LEAST p. p \<notin> set (PJ1Array a)) = p" by (intro Least_equality) (auto simp: not_less [symmetric])
  with p show ?thesis by auto
qed auto

lemma id_allocate_smallest_witness:
  "if \<exists>p < id_size ids3. p \<notin> set (PJ1Array ids3)
    then \<exists>b. bf_id_allocator_allocate env0 (Some ids3) = Inr (id_of_index ids3 (LEAST p. p \<notin> set (PJ1Array ids3)), b) \<and> id_inv b \<and>
      set (PJ1Array b) = insert (LEAST p. p \<notin> set (PJ1Array ids3)) (set (PJ1Array ids3)) \<and> id_size b = id_size ids3
    else bf_id_allocator_allocate env0 (Some ids3) = Inr (M1, ids3)"
  by (rule id_allocate_smallest) simp_all

text \<open>C11: \<open>bf_id_allocator_allocate_contiguous\<close> with 1 to 255 ids, whatever a failed Judy search leaves
  in \<open>Index\<close>. A run is findable when it starts at the first free id or lies below a taken id. If there
  is one, the call is first fit: it returns the least run of \<open>count\<close> free ids below the size and marks
  exactly its ids. If there is none and one id was asked for, or no id is free, it returns -1 and
  changes nothing. What happens in the remaining cases hangs on the \<open>Index\<close> that the failed \<open>J1N\<close> has
  left (\<open>lost\<close>), compared with the size in 64 bits: with only the lowest ids taken the call returns -1
  or never ends; otherwise it returns -1 or grants the ids after the last taken one, at or above the
  size included.\<close>

theorem id_contiguous_spec:
  assumes "quiet E" "id_inv a" "0 < count" "count < 256"
  shows "if \<exists>p. findable a count p
    then \<exists>p b. bf_id_allocator_allocate_contiguous E (Some a) count = Inr (id_result a p, b) \<and> fit a count p \<and>
      (\<forall>q < p. \<not> fit a count q) \<and> id_inv b \<and> set (PJ1Array b) = set (PJ1Array a) \<union> {p..<p + count} \<and>
      id_size b = id_size a \<and> zero_based b = zero_based a
    else if count = 1 \<or> length (PJ1Array a) = id_size a
    then bf_id_allocator_allocate_contiguous E (Some a) count = Inr (- 1, a)
    else if packed a
    then bf_id_allocator_allocate_contiguous E (Some a) count =
      (if sub64 (id_size a) (lost E (PJ1Array a) (id_size a)) < count then Inr (- 1, a) else Inl Diverges)
    else tail_start a \<le> id_size a \<and>
      (if sub64 (id_size a) (lost E (PJ1Array a) (tail_start a)) < count
       then bf_id_allocator_allocate_contiguous E (Some a) count = Inr (- 1, a)
       else \<exists>s. bf_id_allocator_allocate_contiguous E (Some a) count = Inr (id_result a (tail_start a), a\<lparr>PJ1Array := s\<rparr>) \<and>
         j1_ok s \<and> set s = set (PJ1Array a) \<union> {tail_start a..<tail_start a + count})"
proof (cases "\<exists>p. findable a count p")
  case True
  with allocate_many [OF assms] show ?thesis by (auto simp: id_granted_def)
qed (use allocate_many [OF assms] in simp)

lemma no_findable: "list_all (\<lambda>p. \<not> findable a n p) [0..<Suc (id_size a)] \<Longrightarrow> \<not> (\<exists>p. findable a n p)"
  unfolding list_all_iff findable_def fit_def by (metis add_leD1 atLeastLessThan_iff le_imp_less_Suc set_upt zero_le)

lemma id_contiguous_spec_witness:
  "(\<exists>b. bf_id_allocator_allocate_contiguous env0 (Some (ids3\<lparr>PJ1Array := [0, 3]\<rparr>)) 2 = Inr (2, b) \<and>
      set (PJ1Array b) = {0, 1, 2, 3}) \<and>
    bf_id_allocator_allocate_contiguous env0 (Some (ids3\<lparr>PJ1Array := [0, 1, 2, 3]\<rparr>)) 2 =
      Inr (- 1, ids3\<lparr>PJ1Array := [0, 1, 2, 3]\<rparr>)"
proof
  let ?a = "ids3\<lparr>PJ1Array := [0, 3]\<rparr>"
  have inv: "id_inv ?a" by (simp add: ids3_def id_inv_def j1_ok_def M1_def W64_def)
  have f: "fit ?a 2 1" "\<not> fit ?a 2 0" by (simp_all add: ids3_def fit_def less_2_cases_iff)
  then have "findable ?a 2 1" by (simp add: findable_def below_taken_def ids3_def)
  then have "\<exists>p. findable ?a 2 p" ..
  with id_contiguous_spec [OF quiet_env0 inv, of 2] obtain p b where
    p: "bf_id_allocator_allocate_contiguous env0 (Some ?a) 2 = Inr (id_result ?a p, b)" "fit ?a 2 p" "\<forall>q < p. \<not> fit ?a 2 q"
      "set (PJ1Array b) = set (PJ1Array ?a) \<union> {p..<p + 2}" by auto
  from p(2,3) f have p1: "p = 1" by (metis less_one linorder_neqE_nat)
  have "s32 (Suc (Suc 0)) = 2" by code_simp
  then have r: "id_result ?a 1 = 2" by (simp add: id_result_def ids3_def)
  have "{1..<1 + 2} = {1, 2 :: nat}" by auto
  then have "set (PJ1Array b) = {0, 3} \<union> {1, 2}" using p(4) unfolding p1 by (simp add: ids3_def)
  then have "set (PJ1Array b) = {0, 1, 2, 3}" by auto
  then show "\<exists>b. bf_id_allocator_allocate_contiguous env0 (Some ?a) 2 = Inr (2, b) \<and> set (PJ1Array b) = {0, 1, 2, 3}"
    using p(1) unfolding p1 r by blast
  let ?c = "ids3\<lparr>PJ1Array := [0, 1, 2, 3]\<rparr>"
  have inv: "id_inv ?c" by (simp add: ids3_def id_inv_def j1_ok_def M1_def W64_def)
  have none: "\<not> (\<exists>p. findable ?c 2 p)" by (rule no_findable) (simp add: ids3_def upt_rec findable_def fit_def below_taken_def All_less_Suc numeral_2_eq_2)
  have full: "(2 :: nat) = 1 \<or> length (PJ1Array ?c) = id_size ?c" by (simp add: ids3_def)
  have "(0 :: nat) < 2" "(2 :: nat) < 256" by simp_all
  from id_contiguous_spec [OF quiet_env0 inv this] show "bf_id_allocator_allocate_contiguous env0 (Some ?c) 2 = Inr (- 1, ?c)"
    unfolding if_not_P [OF none] if_P [OF full] .
qed

text \<open>C35: The search for several ids, in any well-formed allocator with a free id and no findable run,
  when the failed search has incremented \<open>Index\<close>, as the vendored Judy does in an array that is not
  empty. With only the lowest ids taken the call never ends, although it should return -1. With the
  last id of the allocator taken it grants ids that all lie at or above the size. Otherwise the tail
  above the last taken id is free: a request for exactly its length, which fits, is refused with -1; a
  longer one is refused rightly; a shorter one is granted there.\<close>

theorem id_contiguous_lost_index:
  assumes "quiet E" "id_inv a" "1 < count" "count < 256" "\<forall>i. lost E (PJ1Array a) i = Suc i"
    "\<not> (\<exists>p. findable a count p)" "length (PJ1Array a) \<noteq> id_size a"
  shows "if packed a then bf_id_allocator_allocate_contiguous E (Some a) count = Inl Diverges
    else if tail_start a = id_size a
    then \<exists>s. bf_id_allocator_allocate_contiguous E (Some a) count = Inr (id_result a (id_size a), a\<lparr>PJ1Array := s\<rparr>) \<and>
      set s = set (PJ1Array a) \<union> {id_size a..<id_size a + count}
    else if tail_start a + count = id_size a
    then fit a count (tail_start a) \<and> bf_id_allocator_allocate_contiguous E (Some a) count = Inr (- 1, a)
    else if id_size a < tail_start a + count
    then bf_id_allocator_allocate_contiguous E (Some a) count = Inr (- 1, a)
    else fit a count (tail_start a) \<and>
      (\<exists>s. bf_id_allocator_allocate_contiguous E (Some a) count = Inr (id_result a (tail_start a), a\<lparr>PJ1Array := s\<rparr>) \<and>
        set s = set (PJ1Array a) \<union> {tail_start a..<tail_start a + count})"
proof -
  let ?z = "id_size a" and ?t = "tail_start a"
  have z: "?z < W32" "?z < W64" using assms(2) less_trans [OF less_M1 W32_less_W64] by (auto simp: id_inv_def less_M1)
  have past: "\<not> sub64 ?z (Suc ?z) < count" using sub64_wrap [of ?z "Suc ?z"] z assms(2,4) by (simp add: id_inv_def M1_def W32_def)
  have c: "0 < count" "count \<noteq> 1" using assms(3) by simp_all
  note spec = allocate_many [OF assms(1,2) c(1) assms(4)]
  show ?thesis
  proof (cases "packed a")
    case True
    with spec assms(5-7) c past show ?thesis by simp
  next
    case False
    with spec assms(5-7) c have t: "?t \<le> ?z"
      "if sub64 ?z (Suc ?t) < count then bf_id_allocator_allocate_contiguous E (Some a) count = Inr (- 1, a)
       else \<exists>s. bf_id_allocator_allocate_contiguous E (Some a) count = Inr (id_result a ?t, a\<lparr>PJ1Array := s\<rparr>) \<and>
         j1_ok s \<and> set s = set (PJ1Array a) \<union> {?t..<?t + count}" by simp_all
    have free: "fit a count ?t" if "?t + count \<le> ?z" using that tail_free [OF assms(2)] by (auto simp: fit_def)
    have s: "sub64 ?z (Suc ?t) = ?z - Suc ?t" if "?t < ?z" using that z(2) by (intro sub64_id) auto
    consider "?t = ?z" | "?t < ?z" "?t + count = ?z" | "?t < ?z" "?z < ?t + count" | "?t < ?z" "?t + count < ?z"
      using t(1) by linarith
    then show ?thesis
    proof cases
      case 1
      with t(2) past False show ?thesis by auto
    next
      case 2
      then have "?z - Suc ?t < count" by linarith
      with 2 t(2) s False free show ?thesis by simp
    next
      case 3
      then have "?z - Suc ?t < count" by linarith
      with 3 t(2) s False show ?thesis by simp
    next
      case 4
      then have "\<not> ?z - Suc ?t < count" by linarith
      with 4 t(2) s False free show ?thesis by auto
    qed
  qed
qed

text \<open>Three allocators of size 4: two ids are refused although 2 and 3 are free; the call never returns;
  four ids are granted that all lie at or above the size.\<close>

lemma id_contiguous_lost_index_witness:
  "bf_id_allocator_allocate_contiguous env0 (Some \<lparr>PJ1Array = [1], id_size = 4, zero_based = True\<rparr>) 2 =
     Inr (- 1, \<lparr>PJ1Array = [1], id_size = 4, zero_based = True\<rparr>) \<and>
   fit \<lparr>PJ1Array = [1], id_size = 4, zero_based = True\<rparr> 2 2 \<and>
   bf_id_allocator_allocate_contiguous env0 (Some \<lparr>PJ1Array = [0, 1, 2], id_size = 4, zero_based = True\<rparr>) 2 = Inl Diverges \<and>
   (\<exists>s. bf_id_allocator_allocate_contiguous env0 (Some \<lparr>PJ1Array = [3], id_size = 4, zero_based = True\<rparr>) 4 =
     Inr (4, \<lparr>PJ1Array = s, id_size = 4, zero_based = True\<rparr>) \<and> set s = {3} \<union> {4..<8})"
proof -
  let ?a = "\<lambda>l. \<lparr>PJ1Array = l, id_size = 4, zero_based = True\<rparr>"
  have inv: "id_inv (?a [1])" "id_inv (?a [0, 1, 2])" "id_inv (?a [3])"
    by (simp_all add: id_inv_def j1_ok_def M1_def W64_def)
  have none: "\<not> (\<exists>p. findable (?a [1]) 2 p)" "\<not> (\<exists>p. findable (?a [0, 1, 2]) 2 p)" "\<not> (\<exists>p. findable (?a [3]) 4 p)"
    by (rule no_findable, fastforce simp: upt_rec findable_def fit_def below_taken_def All_less_Suc numeral_2_eq_2)+
  have pk: "\<not> packed (?a [1])" "packed (?a [0, 1, 2])" "\<not> packed (?a [3])" by (simp_all add: packed_def upt_rec)
  have t: "tail_start (?a [1]) = 2" "tail_start (?a [3]) = 4" by (simp_all add: tail_start_def)
  have l: "\<forall>i. lost env0 s i = Suc i" for s by (simp add: env0_def)
  have s4: "s32 4 = 4" by code_simp
  note spec = id_contiguous_lost_index [OF quiet_env0 _ _ _ l]
  from spec [OF inv(1) _ _ none(1)] spec [OF inv(2) _ _ none(2)] spec [OF inv(3) _ _ none(3)] pk t
  show ?thesis by (simp add: id_result_def s4)
qed

text \<open>\<open>bf_id_allocator_set\<close>, \<open>bf_id_allocator_release\<close> and \<open>bf_id_allocator_is_set\<close> agree: an
  id reads as set exactly after it was set or before it was released, and other ids are not
  affected; setting an id below the size and releasing keep the invariant.\<close>

lemma id_set_release_is_set:
  assumes "quiet E" "id_inv a" "i < id_size a" "j < id_size a"
  shows "\<exists>b c. bf_id_allocator_set E (Some a) (id_of_index a i) = Inr b \<and> id_inv b \<and>
    bf_id_allocator_is_set E (Some b) (id_of_index a j) =
      (if j = i then Inr 1 else bf_id_allocator_is_set E (Some a) (id_of_index a j)) \<and>
    bf_id_allocator_release E (Some a) (id_of_index a i) = Inr c \<and> id_inv c \<and>
    bf_id_allocator_is_set E (Some c) (id_of_index a j) =
      (if j = i then Inr 0 else bf_id_allocator_is_set E (Some a) (id_of_index a j))"
proof -
  have ok: "j1_ok (PJ1Array a)" "id_size a < M1" "\<forall>x \<in> set (PJ1Array a). x < id_size a" using assms(2) by (auto simp: id_inv_def)
  have ij: "i < M1" "j < M1" "i < W64" using assms(3,4) ok(2) less_trans [OF less_M1 W32_less_W64, of i] by auto
  let ?b = "a\<lparr>PJ1Array := j1_put i (PJ1Array a)\<rparr>"
  let ?c = "a\<lparr>PJ1Array := (if i \<in> set (PJ1Array a) then remove1 i (PJ1Array a) else PJ1Array a)\<rparr>"
  have idx: "id_of_index a j = id_of_index ?b j" "id_of_index a j = id_of_index ?c j" by (simp_all add: id_of_index_def)
  have "id_inv ?b" using assms(2,3) ij(3) by (auto simp: id_inv_def intro: j1_ok_put)
  moreover have "id_inv ?c" using assms(2) j1_ok_remove [OF ok(1)] set_j1_remove [OF ok(1)] by (auto simp: id_inv_def)
  moreover have "bf_id_allocator_is_set E (Some ?b) (id_of_index a j) =
      (if j = i then Inr 1 else bf_id_allocator_is_set E (Some a) (id_of_index a j))"
    unfolding is_set_index [OF ij(2), of E a] unfolding idx(1) is_set_index [OF ij(2)] by simp
  moreover have "bf_id_allocator_is_set E (Some ?c) (id_of_index a j) =
      (if j = i then Inr 0 else bf_id_allocator_is_set E (Some a) (id_of_index a j))"
  proof -
    have "set (PJ1Array ?c) = set (PJ1Array a) - {i}" using set_j1_remove [OF ok(1), of i] by auto
    with is_set_index [OF ij(2), of E ?c] is_set_index [OF ij(2), of E a] show ?thesis
      unfolding idx(2) [symmetric] by auto
  qed
  ultimately show ?thesis using set_index [OF assms(1) ij(1), of a] release_index [OF assms(1) ij(1), of a] by blast
qed

lemma j1_next_nth:
  assumes "j1_ok l" "k < length l"
  shows "j1_next l (l ! k) = (if Suc k < length l then Some (l ! Suc k) else None)"
proof -
  have "sorted_wrt (<) (take k l @ l ! k # drop (Suc k) l)" using assms id_take_nth_drop [OF assms(2)] by (simp add: j1_ok_def)
  then have lt: "\<forall>x \<in> set (take (Suc k) l). \<not> l ! k < x" "\<forall>x \<in> set (drop (Suc k) l). l ! k < x"
    by (fastforce simp: sorted_wrt_append take_Suc_conv_app_nth [OF assms(2)])+
  have "j1_next (take (Suc k) l @ drop (Suc k) l) (l ! k) = find (\<lambda>x. l ! k < x) (drop (Suc k) l)"
    unfolding j1_next_def by (rule find_skip [OF lt(1)])
  then have "j1_next l (l ! k) = find (\<lambda>x. l ! k < x) (drop (Suc k) l)" by simp
  also have "\<dots> = (if Suc k < length l then Some (l ! Suc k) else None)"
  proof (cases "Suc k < length l")
    case True
    then have "drop (Suc k) l = l ! Suc k # drop (Suc (Suc k)) l" by (simp add: Cons_nth_drop_Suc)
    with True lt(2) show ?thesis by simp
  qed simp
  finally show ?thesis .
qed

text \<open>\<open>bf_id_allocator_get_next\<close> steps through the ids in use in ascending order and ends with -1.
  \<open>bf_id_allocator_get_first\<close> returns the first of them when ids start at 1; when they
  start at 0 it returns 0, whichever ids are in use.\<close>

lemma id_iteration:
  assumes "id_inv a"
  shows "bf_id_allocator_get_first E (Some a) =
      (if PJ1Array a = [] then - 1 else if zero_based a then 0 else s32 (id_of_index a (PJ1Array a ! 0))) \<and>
    (\<forall>k < length (PJ1Array a). bf_id_allocator_get_next E (Some a) (id_of_index a (PJ1Array a ! k)) =
      (if Suc k < length (PJ1Array a) then s32 (id_of_index a (PJ1Array a ! Suc k)) else - 1))"
proof (intro conjI allI impI)
  have ok: "j1_ok (PJ1Array a)" using assms by (simp add: id_inv_def)
  have "j1_first l 0 = (case l of [] \<Rightarrow> None | x # _ \<Rightarrow> Some x)" for l by (cases l) (simp_all add: j1_first_def)
  then show "bf_id_allocator_get_first E (Some a) =
      (if PJ1Array a = [] then - 1 else if zero_based a then 0 else s32 (id_of_index a (PJ1Array a ! 0)))"
    by (cases "PJ1Array a") (simp_all add: bf_id_allocator_get_first_def J1F_def id_of_index_def)
  fix k assume "k < length (PJ1Array a)"
  from j1_next_nth [OF ok this] show "bf_id_allocator_get_next E (Some a) (id_of_index a (PJ1Array a ! k)) =
      (if Suc k < length (PJ1Array a) then s32 (id_of_index a (PJ1Array a ! Suc k)) else - 1)"
    by (simp add: bf_id_allocator_get_next_def J1N_def id_of_index_def)
qed

text \<open>C26: The functions that read an id allocator agree with those that change it. An id reads as set
  with \<open>bf_id_allocator_is_set\<close> exactly after \<open>bf_id_allocator_set\<close> or before
  \<open>bf_id_allocator_release\<close>, no other id is affected, and both keep the invariant.
  \<open>bf_id_allocator_get_next\<close> steps through the ids in use in ascending order and ends with -1;
  \<open>bf_id_allocator_get_first\<close> returns the first of them when ids start at 1, but 0 when they
  start at 0, whichever ids are in use.\<close>

theorem id_reads_agree:
  assumes "quiet E" "id_inv a" "i < id_size a" "j < id_size a"
  shows "(\<exists>b c. bf_id_allocator_set E (Some a) (id_of_index a i) = Inr b \<and> id_inv b \<and>
      bf_id_allocator_is_set E (Some b) (id_of_index a j) =
        (if j = i then Inr 1 else bf_id_allocator_is_set E (Some a) (id_of_index a j)) \<and>
      bf_id_allocator_release E (Some a) (id_of_index a i) = Inr c \<and> id_inv c \<and>
      bf_id_allocator_is_set E (Some c) (id_of_index a j) =
        (if j = i then Inr 0 else bf_id_allocator_is_set E (Some a) (id_of_index a j))) \<and>
    bf_id_allocator_get_first E (Some a) =
      (if PJ1Array a = [] then - 1 else if zero_based a then 0 else s32 (id_of_index a (PJ1Array a ! 0))) \<and>
    (\<forall>k < length (PJ1Array a). bf_id_allocator_get_next E (Some a) (id_of_index a (PJ1Array a ! k)) =
      (if Suc k < length (PJ1Array a) then s32 (id_of_index a (PJ1Array a ! Suc k)) else - 1)) \<and>
    sorted_wrt (<) (PJ1Array a)"
proof -
  have "sorted_wrt (<) (PJ1Array a)" using assms(2) by (simp add: id_inv_def j1_ok_def)
  with id_set_release_is_set [OF assms] id_iteration [OF assms(2), of E] show ?thesis by blast
qed

lemma id_reads_agree_witness:
  "(\<exists>b. bf_id_allocator_set env0 (Some ids3) 1 = Inr b \<and> id_inv b \<and>
      bf_id_allocator_is_set env0 (Some b) 3 = bf_id_allocator_is_set env0 (Some ids3) 3) \<and>
    bf_id_allocator_get_first env0 (Some ids3) = 2 \<and> bf_id_allocator_get_next env0 (Some ids3) 2 = 3 \<and>
    bf_id_allocator_get_next env0 (Some ids3) 3 = - 1"
proof -
  have i: "0 < id_size ids3" "2 < id_size ids3" "id_of_index ids3 0 = 1" "id_of_index ids3 (Suc 0) = 2" "id_of_index ids3 2 = 3"
    "PJ1Array ids3 = [1, 2]" "\<not> zero_based ids3"
    by (simp_all add: ids3_def id_of_index_def)
  have s: "s32 2 = 2" "s32 3 = 3" by code_simp+
  from id_reads_agree [OF quiet_env0 ids3_inv i(1,2)] show ?thesis
    unfolding i(3,5) by (simp add: i(4-7) s All_less_Suc) blast
qed

lemma release_allocated:
  assumes "quiet E" "id_inv a" "bf_id_allocator_allocate E (Some a) = Inr (r, b)" "r \<noteq> M1"
  shows "bf_id_allocator_release E (Some b) r = Inr a"
proof -
  from allocate_cases [OF assms(1,2)] assms(3,4) obtain p where
    p: "r = id_of_index a p" "p < id_size a" "zero_based b = zero_based a" by auto
  then have "id_alloc (E, a) 1 = (Some p, E, b)" using assms(3,4) by (simp add: id_alloc_def id_of_index_def)
  with ids.alloc_release [of "(E, a)" 1] assms(1,2) have rel: "id_release (E, b) p = (True, E, a)" by simp
  have "id_of_index b p = r" using p by (simp add: id_of_index_def)
  moreover have pM: "p < M1" using p(2) assms(2) by (simp add: id_inv_def)
  have "bf_id_allocator_release E (Some b) (id_of_index b p) = Inr a"
    using rel is_set_index [OF pM, of E b] release_index [OF assms(1) pM, of b] pM
    by (simp add: id_release_def split: if_split_asm)
  ultimately show ?thesis by simp
qed

text \<open>The ids that the caller gives back one by one.\<close>

primrec release_ids :: "env \<Rightarrow> nat list \<Rightarrow> bf_id_allocator \<Rightarrow> bf_id_allocator res" where
  "release_ids E [] a = Inr a"
| "release_ids E (i # is) a = bnd (bf_id_allocator_release E (Some a) i) (release_ids E is)"

lemma release_ids_ok:
  "quiet E \<Longrightarrow> j1_ok (PJ1Array a) \<Longrightarrow> \<forall>i \<in> set is. \<exists>x < M1. i = id_of_index a x \<Longrightarrow>
    \<exists>s. release_ids E is a = Inr (a\<lparr>PJ1Array := s\<rparr>) \<and> j1_ok s \<and> set s = {x \<in> set (PJ1Array a). id_of_index a x \<notin> set is}"
proof (induction "is" arbitrary: a)
  case Nil
  then show ?case by (intro exI [of _ "PJ1Array a"]) simp
next
  case (Cons i "is")
  then obtain x where x: "x < M1" "i = id_of_index a x" by auto
  let ?S = "PJ1Array a"
  let ?b = "a\<lparr>PJ1Array := (if x \<in> set ?S then remove1 x ?S else ?S)\<rparr>"
  have idx: "id_of_index ?b y = id_of_index a y" for y by (simp add: id_of_index_def)
  have b: "j1_ok (PJ1Array ?b)" "set (PJ1Array ?b) = set ?S - {x}"
    using Cons.prems(2) j1_ok_remove [of ?S] set_j1_remove [of ?S x] by auto
  from Cons.IH [OF Cons.prems(1) b(1)] Cons.prems(3) obtain s where
    s: "release_ids E is ?b = Inr (?b\<lparr>PJ1Array := s\<rparr>)" "j1_ok s" "set s = {y \<in> set (PJ1Array ?b). id_of_index ?b y \<notin> set is}"
    unfolding idx by auto
  have "release_ids E (i # is) a = Inr (a\<lparr>PJ1Array := s\<rparr>)"
    using s(1) release_index [OF Cons.prems(1) x(1), of a] x(2) by simp
  moreover have "id_of_index a y = id_of_index a x \<longleftrightarrow> y = x" for y by (simp add: id_of_index_def)
  then have "set s = {y \<in> set ?S. id_of_index a y \<notin> set (i # is)}" unfolding s(3) b(2) idx using x(2) by auto
  ultimately show ?case using s(2) by blast
qed

text \<open>What a successful request for several ids has done, wherever it has put them.\<close>

lemma contiguous_result:
  assumes "quiet E" "id_inv a" "0 < n" "n < 256"
    "bf_id_allocator_allocate_contiguous E (Some a) n = Inr (r, b)" "r \<noteq> - 1"
  obtains p where "r = id_result a p" "p \<le> id_size a" "j1_ok (PJ1Array b)" "set (PJ1Array b) = set (PJ1Array a) \<union> {p..<p + n}"
    "set (PJ1Array a) \<inter> {p..<p + n} = {}" "id_size b = id_size a" "zero_based b = zero_based a"
proof (cases "\<exists>p. findable a n p")
  case True
  with allocate_many [OF assms(1-4)] assms(5) obtain p where p: "r = id_result a p" "id_granted a n p b" by auto
  then have "fit a n p" by (simp add: id_granted_def)
  then have "set (PJ1Array a) \<inter> {p..<p + n} = {}" by (rule fit_disjoint)
  with p \<open>fit a n p\<close> show ?thesis by (intro that [of p]) (auto simp: id_granted_def id_inv_def fit_def)
next
  case False
  let ?t = "tail_start a"
  from False allocate_many [OF assms(1-4)] assms(5,6) obtain s where s: "r = id_result a ?t" "b = a\<lparr>PJ1Array := s\<rparr>"
    "j1_ok s" "set s = set (PJ1Array a) \<union> {?t..<?t + n}" "?t \<le> id_size a" by (auto split: if_splits)
  have "set (PJ1Array a) \<inter> {?t..<?t + n} = {}" using tail_free [OF assms(2)] by (auto simp: not_le [symmetric])
  with s show ?thesis by (intro that [of ?t]) simp_all
qed

text \<open>C25: Releasing the id that \<open>bf_id_allocator_allocate\<close> has just returned restores the allocator, and
  so does releasing, in any order, the ids of a run of 1 to 255 that
  \<open>bf_id_allocator_allocate_contiguous\<close> has just granted (also one above the size), as long as the
  ids fit into 32 bits.\<close>

theorem id_allocate_release_restores:
  assumes "quiet E" "id_inv a"
  shows "(bf_id_allocator_allocate E (Some a) = Inr (i, b) \<and> i \<noteq> M1 \<longrightarrow> bf_id_allocator_release E (Some b) i = Inr a) \<and>
    (bf_id_allocator_allocate_contiguous E (Some a) n = Inr (r, c) \<and> r \<noteq> - 1 \<and> 0 < n \<and> n < 256 \<and> id_size a + n < M1 \<and>
      set is = {u32_of_int r..<u32_of_int r + n} \<longrightarrow> release_ids E is c = Inr a)"
proof (intro conjI impI; elim conjE)
  assume a: "bf_id_allocator_allocate E (Some a) = Inr (i, b)" "i \<noteq> M1"
  then show "bf_id_allocator_release E (Some b) i = Inr a" by (rule release_allocated [OF assms])
next
  assume n: "bf_id_allocator_allocate_contiguous E (Some a) n = Inr (r, c)" "r \<noteq> - 1" "0 < n" "n < 256" "id_size a + n < M1"
    and "is": "set is = {u32_of_int r..<u32_of_int r + n}"
  from contiguous_result [OF assms n(3,4,1,2)] obtain p where p: "r = id_result a p" "p \<le> id_size a" "j1_ok (PJ1Array c)"
    "set (PJ1Array c) = set (PJ1Array a) \<union> {p..<p + n}" "set (PJ1Array a) \<inter> {p..<p + n} = {}"
    "id_size c = id_size a" "zero_based c = zero_based a" by blast
  have "p + 1 < W32" using p(2) n(3,5) by (simp add: M1_W32)
  then have u: "u32_of_int r = id_of_index c p" using p(1,7) by (simp add: id_result_def id_of_index_def)
  have iff: "j \<in> set is \<longleftrightarrow> (\<exists>x \<in> {p..<p + n}. j = id_of_index c x)" for j
  proof -
    have "j \<in> {p + 1..<p + n + 1} \<longleftrightarrow> (\<exists>x \<in> {p..<p + n}. j = x + 1)" for j :: nat
      by (cases j) auto
    then show ?thesis unfolding "is" u by (cases "zero_based c") (simp_all add: id_of_index_def)
  qed
  have "\<exists>x < M1. j = id_of_index c x" if "j \<in> set is" for j
  proof -
    obtain x where "x \<in> {p..<p + n}" "j = id_of_index c x" using \<open>j \<in> set is\<close> iff by blast
    then show ?thesis using p(2) n(5) by (intro exI [of _ x]) simp
  qed
  then have "\<forall>j \<in> set is. \<exists>x < M1. j = id_of_index c x" by blast
  from release_ids_ok [OF assms(1) p(3) this] obtain s where
    s: "release_ids E is c = Inr (c\<lparr>PJ1Array := s\<rparr>)" "j1_ok s" "set s = {x \<in> set (PJ1Array c). id_of_index c x \<notin> set is}" by blast
  have "set s = set (PJ1Array a)" unfolding s(3) iff p(4) using p(5) by (auto simp: id_of_index_def)
  then have "s = PJ1Array a" using s(2) assms(2) by (intro j1_unique) (simp_all add: id_inv_def)
  then have "c\<lparr>PJ1Array := s\<rparr> = a" using p(6,7) by (cases a; cases c) simp
  with s(1) show "release_ids E is c = Inr a" by simp
qed

lemma id_allocate_release_restores_witness:
  "bf_id_allocator_release env0 (Some (ids3\<lparr>PJ1Array := [0, 1, 2]\<rparr>)) 1 = Inr ids3 \<and>
    release_ids env0 [3, 2] (ids3\<lparr>PJ1Array := [0, 1, 2, 3]\<rparr>) = Inr (ids3\<lparr>PJ1Array := [0, 3]\<rparr>)"
proof
  have "bf_id_allocator_allocate env0 (Some ids3) = Inr (1, ids3\<lparr>PJ1Array := [0, 1, 2]\<rparr>)" by code_simp
  with id_allocate_release_restores [OF quiet_env0 ids3_inv]
  show "bf_id_allocator_release env0 (Some (ids3\<lparr>PJ1Array := [0, 1, 2]\<rparr>)) 1 = Inr ids3" by (simp add: M1_def)
  let ?a = "ids3\<lparr>PJ1Array := [0, 3]\<rparr>"
  have inv: "id_inv ?a" "id_size ?a + 2 < M1" by (simp_all add: ids3_def id_inv_def j1_ok_def M1_def W64_def)
  have "bf_id_allocator_allocate_contiguous env0 (Some ?a) 2 = Inr (2, ids3\<lparr>PJ1Array := [0, 1, 2, 3]\<rparr>)" by code_simp
  moreover have "u32_of_int 2 = 2" by code_simp
  moreover have "set [3, 2] = {2..<4 :: nat}" by auto
  ultimately show "release_ids env0 [3, 2] (ids3\<lparr>PJ1Array := [0, 1, 2, 3]\<rparr>) = Inr ?a"
    using id_allocate_release_restores [OF quiet_env0 inv(1), of _ _ 2 2 _ "[3, 2]"] inv(2) by simp
qed

text \<open>Outside the contract: \<open>bf_id_allocator_get_first\<close> of a zero-based allocator returns 0 whenever
  some id is taken, here 0 for the set of id 2 alone; and since \<open>bf_id_allocator_set\<close> accepts an
  id above the size, a later request for several ids is granted ids above the size.\<close>

lemma id_get_first_and_set_unchecked:
  "bf_id_allocator_get_first E (Some \<lparr>PJ1Array = [2], id_size = 4, zero_based = True\<rparr>) = 0 \<and>
   bf_id_allocator_is_set E (Some \<lparr>PJ1Array = [2], id_size = 4, zero_based = True\<rparr>) 0 = Inr 0 \<and>
   bf_id_allocator_set env0 (Some \<lparr>PJ1Array = [], id_size = 4, zero_based = True\<rparr>) 10 =
     Inr \<lparr>PJ1Array = [10], id_size = 4, zero_based = True\<rparr> \<and>
   bf_id_allocator_allocate_contiguous env0 (Some \<lparr>PJ1Array = [10], id_size = 4, zero_based = True\<rparr>) 8 =
     Inr (0, \<lparr>PJ1Array = [0, 1, 2, 3, 4, 5, 6, 7, 10], id_size = 4, zero_based = True\<rparr>)"
proof (intro conjI)
  show "bf_id_allocator_get_first E (Some \<lparr>PJ1Array = [2], id_size = 4, zero_based = True\<rparr>) = 0"
    by (simp add: bf_id_allocator_get_first_def J1F_def j1_first_def)
  show "bf_id_allocator_is_set E (Some \<lparr>PJ1Array = [2], id_size = 4, zero_based = True\<rparr>) 0 = Inr 0"
    by (simp add: bf_id_allocator_is_set_def J1T_def)
qed code_simp+

end
