(* ===== verification/Id_Client.thy ===== *)
theory Id_Client
  imports Id_Props
begin

text \<open>
  Programs over an id allocator: any sequence of the calls of src/id/id.c with everything they return.
  The abstract allocator is the set of the indexes in use; \<open>number\<close> and \<open>index\<close> convert between
  an index and the id that the caller sees, which starts at 0 or at 1. \<open>id_step\<close> answers every call
  in exactly one way.
\<close>

section \<open>Calls and replies\<close>

datatype id_call =
    I_alloc
  | I_contiguous nat
  | I_release nat
  | I_set nat
  | I_is_set nat
  | I_first
  | I_next nat

datatype id_reply = Done | Val int

fun id_do :: "env \<Rightarrow> id_call \<Rightarrow> bf_id_allocator \<Rightarrow> (id_reply \<times> bf_id_allocator) res" where
  "id_do E I_alloc a = bnd (bf_id_allocator_allocate E (Some a)) (\<lambda>(r, a). Inr (Val (int r), a))"
| "id_do E (I_contiguous n) a = bnd (bf_id_allocator_allocate_contiguous E (Some a) n) (\<lambda>(r, a). Inr (Val r, a))"
| "id_do E (I_release i) a = bnd (bf_id_allocator_release E (Some a) i) (\<lambda>a. Inr (Done, a))"
| "id_do E (I_set i) a = bnd (bf_id_allocator_set E (Some a) i) (\<lambda>a. Inr (Done, a))"
| "id_do E (I_is_set i) a = bnd (bf_id_allocator_is_set E (Some a) i) (\<lambda>r. Inr (Val r, a))"
| "id_do E I_first a = Inr (Val (bf_id_allocator_get_first E (Some a)), a)"
| "id_do E (I_next i) a = Inr (Val (bf_id_allocator_get_next E (Some a) i), a)"

fun id_run :: "env \<Rightarrow> id_call list \<Rightarrow> bf_id_allocator \<Rightarrow> (id_reply list \<times> bf_id_allocator) res" where
  "id_run E [] a = Inr ([], a)"
| "id_run E (c # cs) a = bnd (id_do E c a) (\<lambda>(r, a). bnd (id_run E cs a) (\<lambda>(rs, a). Inr (r # rs, a)))"

section \<open>The abstract allocator\<close>

definition number :: "bool \<Rightarrow> nat \<Rightarrow> nat" where
  "number zb i = (if zb then i else i + 1)"

definition index :: "bool \<Rightarrow> nat \<Rightarrow> nat" where
  "index zb i = (if zb then i else i - 1)"

text \<open>0 is no id when ids start at 1.\<close>

definition numbered :: "bool \<Rightarrow> nat \<Rightarrow> bool" where
  "numbered zb i \<longleftrightarrow> zb \<or> 0 < i"

definition room :: "nat \<Rightarrow> nat set \<Rightarrow> nat \<Rightarrow> nat \<Rightarrow> bool" where
  "room sz S n p \<longleftrightarrow> p + n \<le> sz \<and> S \<inter> {p..<p + n} = {}"

definition first_room :: "nat \<Rightarrow> nat set \<Rightarrow> nat \<Rightarrow> nat \<Rightarrow> bool" where
  "first_room sz S n p \<longleftrightarrow> room sz S n p \<and> (\<forall>q < p. \<not> room sz S n q)"

definition least_in :: "nat set \<Rightarrow> nat \<Rightarrow> bool" where
  "least_in S x \<longleftrightarrow> x \<in> S \<and> (\<forall>y \<in> S. x \<le> y)"

inductive id_step :: "nat \<Rightarrow> bool \<Rightarrow> id_call \<Rightarrow> id_reply \<Rightarrow> nat set \<Rightarrow> nat set \<Rightarrow> bool" for sz zb where
  alloc: "first_room sz S 1 p \<Longrightarrow> id_step sz zb I_alloc (Val (int (number zb p))) S (insert p S)"
| full: "\<forall>p. \<not> room sz S 1 p \<Longrightarrow> id_step sz zb I_alloc (Val (int M1)) S S"
| contiguous: "first_room sz S n p \<Longrightarrow>
    id_step sz zb (I_contiguous n) (Val (s32 (number zb p))) S (S \<union> {p..<p + n})"
| no_room: "\<forall>p. \<not> room sz S n p \<Longrightarrow> id_step sz zb (I_contiguous n) (Val (- 1)) S S"
| release: "id_step sz zb (I_release i) Done S (S - {index zb i})"
| set: "id_step sz zb (I_set i) Done S (insert (index zb i) S)"
| is_set: "id_step sz zb (I_is_set i) (Val (if numbered zb i \<and> index zb i \<in> S then 1 else 0)) S S"
| first: "least_in S x \<Longrightarrow> id_step sz zb I_first (Val (if zb then 0 else s32 (number zb x))) S S"
| first_none: "S = {} \<Longrightarrow> id_step sz zb I_first (Val (- 1)) S S"
| "next": "numbered zb i \<Longrightarrow> least_in {y \<in> S. index zb i < y} x \<Longrightarrow> id_step sz zb (I_next i) (Val (s32 (number zb x))) S S"
| next_none: "numbered zb i \<longrightarrow> {y \<in> S. index zb i < y} = {} \<Longrightarrow> id_step sz zb (I_next i) (Val (- 1)) S S"

inductive id_steps :: "nat \<Rightarrow> bool \<Rightarrow> id_call list \<Rightarrow> id_reply list \<Rightarrow> nat set \<Rightarrow> nat set \<Rightarrow> bool" for sz zb where
  Nil: "id_steps sz zb [] [] S S"
| Cons: "id_step sz zb c r S T \<Longrightarrow> id_steps sz zb cs rs T U \<Longrightarrow> id_steps sz zb (c # cs) (r # rs) S U"

inductive_cases id_stepE:
  "id_step sz zb I_alloc r S T" "id_step sz zb (I_contiguous n) r S T" "id_step sz zb (I_release i) r S T"
  "id_step sz zb (I_set i) r S T" "id_step sz zb (I_is_set i) r S T" "id_step sz zb I_first r S T"
  "id_step sz zb (I_next i) r S T"

inductive_simps id_steps_simps:
  "id_steps sz zb [] rs S U"
  "id_steps sz zb (c # cs) rs S U"

lemma first_room_unique: "first_room sz S n p \<Longrightarrow> first_room sz S n q \<Longrightarrow> p = q"
  unfolding first_room_def by (metis linorder_neqE_nat)

lemma least_in_unique: "least_in S x \<Longrightarrow> least_in S y \<Longrightarrow> x = y"
  unfolding least_in_def by (metis antisym)

lemma first_roomD: "first_room sz S n p \<Longrightarrow> \<not> (\<forall>p. \<not> room sz S n p)"
  unfolding first_room_def by blast

lemma least_inD: "least_in S x \<Longrightarrow> S \<noteq> {}"
  unfolding least_in_def by blast

text \<open>The abstract allocator answers every call in one way.\<close>

lemma id_step_det:
  assumes "id_step sz zb c r S T" "id_step sz zb c r' S T'"
  shows "r = r' \<and> T = T'"
proof (cases c)
  case I_alloc
  with assms show ?thesis by (auto elim!: id_stepE dest: first_room_unique first_roomD)
next
  case (I_contiguous n)
  with assms show ?thesis by (auto elim!: id_stepE dest: first_room_unique first_roomD)
next
  case I_first
  with assms show ?thesis by (auto elim!: id_stepE dest: least_in_unique least_inD)
next
  case (I_next i)
  with assms show ?thesis by (auto elim!: id_stepE dest: least_in_unique least_inD)
qed (use assms in \<open>auto elim!: id_stepE\<close>)

lemma id_steps_det: "id_steps sz zb cs rs S T \<Longrightarrow> id_steps sz zb cs rs' S T' \<Longrightarrow> rs = rs' \<and> T = T'"
proof (induction cs arbitrary: rs rs' S)
  case (Cons c cs)
  from Cons.prems obtain r us A r' us' A' where
    "rs = r # us" "id_step sz zb c r S A" "id_steps sz zb cs us A T"
    "rs' = r' # us'" "id_step sz zb c r' S A'" "id_steps sz zb cs us' A' T'" by (auto simp: id_steps_simps)
  with id_step_det [of sz zb c r S A r' A'] Cons.IH [of us A us'] show ?case by simp
qed (simp add: id_steps_simps)

section \<open>Refinement\<close>

text \<open>Ids are \<open>uint32_t\<close>; an id that is set lies below the size. Several ids are asked for in a state where
  the search does not depend on what a failed Judy search leaves in \<open>Index\<close>: there is a findable run
  (from the first free id on, or below a taken id), or no id is free. The conditions on a sequence are
  checked along its run.\<close>

definition decided :: "bf_id_allocator \<Rightarrow> nat \<Rightarrow> bool" where
  "decided a n \<longleftrightarrow> n = 1 \<or> length (PJ1Array a) = id_size a \<or> (\<exists>p \<in> {0..id_size a}. findable a n p)"

lemma decided_code [code]:
  "decided a n \<longleftrightarrow> n = 1 \<or> length (PJ1Array a) = id_size a \<or> list_ex (findable a n) [0..<Suc (id_size a)]"
  unfolding decided_def list_ex_iff set_upt by (simp only: atLeastLessThanSuc_atLeastAtMost)

definition id_call_ok :: "bf_id_allocator \<Rightarrow> id_call \<Rightarrow> bool" where
  "id_call_ok a c \<longleftrightarrow> (case c of
     I_contiguous n \<Rightarrow> 0 < n \<and> n < 256 \<and> decided a n
   | I_release i \<Rightarrow> numbered (zero_based a) i \<and> i < W32
   | I_set i \<Rightarrow> numbered (zero_based a) i \<and> i < W32 \<and> index (zero_based a) i < id_size a
   | I_is_set i \<Rightarrow> i < W32
   | I_next i \<Rightarrow> i < W32
   | _ \<Rightarrow> True)"

fun id_calls_ok :: "env \<Rightarrow> id_call list \<Rightarrow> bf_id_allocator \<Rightarrow> bool" where
  "id_calls_ok E [] a = True"
| "id_calls_ok E (c # cs) a \<longleftrightarrow> id_call_ok a c \<and>
     (case id_do E c a of Inl _ \<Rightarrow> True | Inr (r, a) \<Rightarrow> id_calls_ok E cs a)"

definition id_rep :: "nat \<Rightarrow> bool \<Rightarrow> bf_id_allocator \<Rightarrow> nat set \<Rightarrow> bool" where
  "id_rep sz zb a S \<longleftrightarrow> id_inv a \<and> id_size a = sz \<and> zero_based a = zb \<and> set (PJ1Array a) = S"

lemma fit_room: "id_rep sz zb a S \<Longrightarrow> fit a n p \<longleftrightarrow> room sz S n p"
proof -
  assume r: "id_rep sz zb a S"
  have "(\<forall>j < n. p + j \<notin> S) \<longleftrightarrow> S \<inter> {p..<p + n} = {}"
  proof
    assume free: "\<forall>j < n. p + j \<notin> S"
    have "x \<notin> {p..<p + n}" if "x \<in> S" for x
    proof
      assume "x \<in> {p..<p + n}"
      then have "x - p < n" "p + (x - p) = x" by auto
      with free that show False by metis
    qed
    then show "S \<inter> {p..<p + n} = {}" by blast
  qed auto
  with r show ?thesis by (simp add: fit_def room_def id_rep_def)
qed

lemma id_result_number: "id_result a p = s32 (number (zero_based a) p)"
  by (simp add: id_result_def number_def)

lemma index_arg: "numbered zb i \<Longrightarrow> i < W32 \<Longrightarrow> (if zb then i else sub32 i 1) = index zb i"
  by (auto simp: numbered_def index_def sub32_id)

lemma id_rep_upd:
  "id_rep sz zb a S \<Longrightarrow> j1_ok s \<Longrightarrow> set s = T \<Longrightarrow> \<forall>x \<in> T. x < sz \<Longrightarrow> id_rep sz zb (a\<lparr>PJ1Array := s\<rparr>) T"
  by (simp add: id_rep_def id_inv_def)

lemma findable_one:
  assumes "fit a 1 p"
  shows "\<exists>p. findable a 1 p"
proof -
  let ?p = "LEAST p. fit a 1 p"
  have f: "fit a 1 ?p" using assms by (rule LeastI)
  have "q \<in> set (PJ1Array a)" if "q < ?p" for q
    using not_less_Least [OF that] that f by (auto simp: fit_def)
  with f show ?thesis by (auto simp: findable_def)
qed

lemma full_no_fit:
  assumes "id_inv a" "length (PJ1Array a) = id_size a" "0 < n"
  shows "\<not> fit a n p"
proof
  assume f: "fit a n p"
  obtain k where "first_free a k" "k = id_size a" using first_freeE [OF assms(1)] assms(2) by metis
  with f assms(3) have "p \<in> set (PJ1Array a)" by (simp add: first_free_def fit_def)
  with f assms(3) show False by (auto simp: fit_def)
qed

lemma do_contiguous:
  assumes E: "quiet E" and rep: "id_rep sz zb a S" and n: "0 < n" "n < 256" "decided a n"
  shows "\<exists>r b T. id_do E (I_contiguous n) a = Inr (r, b) \<and> id_step sz zb (I_contiguous n) r S T \<and> id_rep sz zb b T"
proof (cases "\<exists>p. findable a n p")
  case True
  have inv: "id_inv a" using rep by (simp add: id_rep_def)
  from allocate_many [OF E inv n(1,2)] True obtain p b where
    b: "bf_id_allocator_allocate_contiguous E (Some a) n = Inr (id_result a p, b)" "id_granted a n p b" by auto
  then have "first_room sz S n p" using fit_room [OF rep] by (auto simp: id_granted_def first_room_def)
  moreover have "id_rep sz zb b (S \<union> {p..<p + n})" using b(2) rep by (simp add: id_granted_def id_rep_def)
  ultimately show ?thesis using b(1) rep id_step.contiguous [of sz S n p zb]
    by (fastforce simp: id_result_number id_rep_def)
next
  case False
  have inv: "id_inv a" using rep by (simp add: id_rep_def)
  have c: "n = 1 \<or> length (PJ1Array a) = id_size a" using n(3) False by (auto simp: decided_def)
  have "\<not> fit a n p" for p using c False findable_one full_no_fit [OF inv _ n(1)] by blast
  with fit_room [OF rep] have "id_step sz zb (I_contiguous n) (Val (- 1)) S S" by (auto intro: id_step.no_room)
  moreover have "bf_id_allocator_allocate_contiguous E (Some a) n = Inr (- 1, a)"
    using allocate_many [OF E inv n(1,2)] False c by simp
  ultimately show ?thesis using rep by auto
qed

lemma do_alloc:
  assumes E: "quiet E" and rep: "id_rep sz zb a S"
  shows "\<exists>r b T. id_do E I_alloc a = Inr (r, b) \<and> id_step sz zb I_alloc r S T \<and> id_rep sz zb b T"
proof -
  have inv: "id_inv a" using rep by (simp add: id_rep_def)
  have room1: "room sz S 1 p \<longleftrightarrow> p < sz \<and> p \<notin> S" for p by (auto simp: room_def)
  from allocate_cases [OF E inv] show ?thesis
  proof (elim disjE exE conjE)
    assume a: "bf_id_allocator_allocate E (Some a) = Inr (M1, a)" "{0..<id_size a} \<subseteq> set (PJ1Array a)"
    with rep room1 have "\<forall>p. \<not> room sz S 1 p" by (auto simp: id_rep_def)
    with a(1) rep id_step.full [of sz S zb] show ?thesis by auto
  next
    fix p b assume b: "bf_id_allocator_allocate E (Some a) = Inr (id_of_index a p, b)" "p < id_size a" "p \<notin> set (PJ1Array a)"
      "\<forall>q < p. q \<in> set (PJ1Array a)" "id_inv b" "set (PJ1Array b) = insert p (set (PJ1Array a))"
      "id_size b = id_size a" "zero_based b = zero_based a"
    have "first_room sz S 1 p" using b(2-4) rep room1 by (auto simp: first_room_def id_rep_def)
    moreover have "id_rep sz zb b (insert p S)" using b(5-8) rep by (simp add: id_rep_def)
    moreover have "id_of_index a p = number zb p" using rep by (simp add: id_of_index_def number_def id_rep_def)
    ultimately show ?thesis using b(1) id_step.alloc [of sz S p zb] by auto
  qed
qed

lemma do_next:
  assumes rep: "id_rep sz zb a S"
  shows "id_step sz zb (I_next i) (Val (bf_id_allocator_get_next E (Some a) i)) S S"
proof (cases "numbered zb i")
  case False
  then have "bf_id_allocator_get_next E (Some a) i = - 1"
    using rep by (simp add: numbered_def bf_id_allocator_get_next_def id_rep_def)
  with False id_step.next_none [of zb i S sz] show ?thesis by simp
next
  case True
  have go: "bf_id_allocator_get_next E (Some a) i =
      (case j1_next (PJ1Array a) (index zb i) of None \<Rightarrow> - 1 | Some k \<Rightarrow> s32 (number zb k))"
    using True rep by (auto simp: numbered_def index_def number_def bf_id_allocator_get_next_def J1N_def id_rep_def
        Let_def split: option.splits)
  have inv: "id_inv a" and S: "set (PJ1Array a) = S" using rep by (simp_all add: id_rep_def)
  show ?thesis
  proof (rule j1_next_cases [OF inv, of "index zb i"])
    assume "j1_next (PJ1Array a) (index zb i) = None" "\<forall>j \<in> set (PJ1Array a). j \<le> index zb i"
    with go S True id_step.next_none [of zb i S sz] show ?thesis by (auto simp: not_less)
  next
    fix k assume k: "j1_next (PJ1Array a) (index zb i) = Some k" "index zb i < k" "k \<in> set (PJ1Array a)"
      "\<forall>j. index zb i < j \<and> j < k \<longrightarrow> j \<notin> set (PJ1Array a)"
    then have "least_in {y \<in> S. index zb i < y} k" using S by (auto simp: least_in_def not_le [symmetric])
    with go k(1) id_step.next [OF True] show ?thesis by simp
  qed
qed

lemma do_first:
  assumes rep: "id_rep sz zb a S"
  shows "id_step sz zb I_first (Val (bf_id_allocator_get_first E (Some a))) S S"
proof -
  have inv: "id_inv a" and S: "set (PJ1Array a) = S" "zero_based a = zb" using rep by (simp_all add: id_rep_def)
  have f: "bf_id_allocator_get_first E (Some a) =
      (if PJ1Array a = [] then - 1 else if zb then 0 else s32 (number zb (PJ1Array a ! 0)))"
    using id_iteration [OF inv, of E] S(2) by (simp add: id_of_index_def number_def)
  show ?thesis
  proof (cases "PJ1Array a")
    case Nil
    with S f id_step.first_none [of S sz zb] show ?thesis by simp
  next
    case (Cons x xs)
    then have "least_in S x" using inv S(1) by (auto simp: least_in_def id_inv_def j1_ok_def)
    from id_step.first [OF this, of sz zb] Cons f show ?thesis by (cases zb) simp_all
  qed
qed

lemma id_do_step:
  assumes E: "quiet E" and rep: "id_rep sz zb a S" and c: "id_call_ok a c"
  shows "\<exists>r b T. id_do E c a = Inr (r, b) \<and> id_step sz zb c r S T \<and> id_rep sz zb b T"
proof -
  have ok: "j1_ok (PJ1Array a)" "\<forall>x \<in> S. x < sz" "sz < M1" and S: "set (PJ1Array a) = S" "zero_based a = zb" "id_size a = sz"
    using rep by (auto simp: id_rep_def id_inv_def)
  show ?thesis
  proof (cases c)
    case I_alloc
    with do_alloc [OF E rep] show ?thesis by simp
  next
    case (I_contiguous n)
    with do_contiguous [OF E rep, of n] c show ?thesis by (simp add: id_call_ok_def)
  next
    case (I_release i)
    then have i: "(if zb then i else sub32 i 1) = index zb i" "numbered zb i"
      using c index_arg [of zb i] S by (simp_all add: id_call_ok_def)
    let ?s = "snd (J1U E (PJ1Array a) (index zb i))"
    have s: "j1_ok ?s" "set ?s = S - {index zb i}"
      using E S(1) j1_ok_remove [OF ok(1)] set_j1_remove [OF ok(1)] ok(1) by (auto simp: J1U_def)
    have "bf_id_allocator_release E (Some a) i = Inr (a\<lparr>PJ1Array := ?s\<rparr>)"
      using i S(2) by (auto simp: bf_id_allocator_release_def numbered_def c_assert_I split: if_splits)
    with I_release id_rep_upd [OF rep s] ok(2) id_step.release [of sz zb i S] show ?thesis by auto
  next
    case (I_set i)
    then have i: "(if zb then i else sub32 i 1) = index zb i" "numbered zb i" "index zb i < sz"
      using c index_arg [of zb i] S by (simp_all add: id_call_ok_def)
    let ?s = "snd (J1S E (PJ1Array a) (index zb i))"
    have "index zb i < W64" using i(3) ok(3) less_trans [OF less_M1 W32_less_W64, of "index zb i"] by simp
    moreover have "?s = j1_put (index zb i) (PJ1Array a)" using E by (simp add: J1S_def j1_put_def)
    ultimately have s: "j1_ok ?s" "set ?s = insert (index zb i) S" using S(1) j1_ok_put [OF ok(1)] by simp_all
    have "bf_id_allocator_set E (Some a) i = Inr (a\<lparr>PJ1Array := ?s\<rparr>)"
      using i S(2) by (auto simp: bf_id_allocator_set_def numbered_def c_assert_I split: if_splits)
    with I_set id_rep_upd [OF rep s] ok(2) i(3) id_step.set [of sz zb i S] show ?thesis by auto
  next
    case (I_is_set i)
    then have "numbered zb i \<Longrightarrow> (if zb then i else sub32 i 1) = index zb i"
      using c index_arg [of zb i] by (simp add: id_call_ok_def)
    then have "bf_id_allocator_is_set E (Some a) i = Inr (if numbered zb i \<and> index zb i \<in> S then 1 else 0)"
      using S by (auto simp: bf_id_allocator_is_set_def numbered_def J1T_def Let_def)
    with I_is_set rep id_step.is_set [of sz zb i S] show ?thesis by auto
  next
    case I_first
    with rep do_first [OF rep, of E] show ?thesis by auto
  next
    case (I_next i)
    with rep do_next [OF rep, of i E] show ?thesis by auto
  qed
qed

lemma id_run_steps:
  "quiet E \<Longrightarrow> id_rep sz zb a S \<Longrightarrow> id_calls_ok E cs a \<Longrightarrow>
    \<exists>rs b T. id_run E cs a = Inr (rs, b) \<and> id_steps sz zb cs rs S T \<and> id_rep sz zb b T"
proof (induction cs arbitrary: a S)
  case (Cons c cs)
  from Cons.prems(3) have "id_call_ok a c" by simp
  from id_do_step [OF Cons.prems(1,2) this] obtain r d D where
    d: "id_do E c a = Inr (r, d)" "id_step sz zb c r S D" "id_rep sz zb d D" by blast
  from Cons.IH [OF Cons.prems(1) d(3)] Cons.prems(3) d(1) obtain rs b T where
    "id_run E cs d = Inr (rs, b)" "id_steps sz zb cs rs D T" "id_rep sz zb b T" by auto
  with d show ?case by (auto intro: id_steps.Cons)
qed (auto intro: id_steps.Nil)

section \<open>Properties\<close>

text \<open>C24: any sequence of calls on a new allocator (with a size below \<open>2 ^ 32 - 1\<close>), where several ids
  are asked for only while a run is findable or no id is free, returns what the same sequence returns on
  the set of the indexes in use, whatever a failed Judy search leaves in \<open>Index\<close>: a single id is the
  smallest free one, several ids are the first free run of them, and \<open>(unsigned)-1\<close> or -1 says that
  there is none; \<open>bf_id_allocator_is_set\<close> reads the set, \<open>bf_id_allocator_get_next\<close> finds the next id in
  use, and \<open>bf_id_allocator_get_first\<close> the first one when ids start at 1, but 0 when they start at 0.\<close>

theorem id_client_refines:
  assumes "quiet E" "sz < M1" "bf_id_allocator_new E sz zb = Inr a" "id_calls_ok E cs a"
  shows "\<exists>rs b. id_run E cs a = Inr (rs, b) \<and> id_steps sz zb cs rs {} (set (PJ1Array b)) \<and> id_inv b"
proof -
  have "a = \<lparr>PJ1Array = [], id_size = sz, zero_based = zb\<rparr>" using assms(1,3) by (simp add: bf_id_allocator_new_def)
  then have "id_rep sz zb a {}" using assms(2) by (simp add: id_rep_def id_inv_def)
  from id_run_steps [OF assms(1) this assms(4)] obtain rs b T where
    "id_run E cs a = Inr (rs, b)" "id_steps sz zb cs rs {} T" "id_rep sz zb b T" by blast
  then show ?thesis by (auto simp: id_rep_def)
qed

definition ids_calls :: "id_call list" where
  "ids_calls = [I_alloc, I_set 4, I_contiguous 2, I_first, I_next 1, I_release 4, I_is_set 4, I_contiguous 3]"

lemma ids_calls_run:
  "id_run env0 ids_calls \<lparr>PJ1Array = [], id_size = 8, zero_based = False\<rparr> =
    Inr ([Val 1, Done, Val 2, Val 1, Val 2, Done, Val 0, Val 4],
      \<lparr>PJ1Array = [0, 1, 2, 3, 4, 5], id_size = 8, zero_based = False\<rparr>)"
  by code_simp

lemma ids_calls_ok: "id_calls_ok env0 ids_calls \<lparr>PJ1Array = [], id_size = 8, zero_based = False\<rparr>"
  by code_simp

theorem id_client_refines_witness:
  "id_steps 8 False ids_calls [Val 1, Done, Val 2, Val 1, Val 2, Done, Val 0, Val 4] {} {0, 1, 2, 3, 4, 5}"
proof -
  let ?a = "\<lparr>PJ1Array = [], id_size = 8, zero_based = False\<rparr>"
  have "(8 :: nat) < M1" by (simp add: M1_def)
  moreover have "bf_id_allocator_new env0 8 False = Inr ?a" by (simp add: bf_id_allocator_new_def)
  ultimately show ?thesis using id_client_refines [OF quiet_env0 _ _ ids_calls_ok, of 8 False] ids_calls_run by simp
qed

end
