(* ===== verification/Map_Judy.thy ===== *)
theory Map_Judy
  imports Judy Dictionary
begin

text \<open>
  src/map/map.c: a map from \<open>unsigned long\<close> keys to pointers, one JudyL array. The \<open>bf_map_t\<close>
  behind the \<open>map\<close> argument is \<open>jl\<close>; an output argument is passed in with its old value and
  returned with its new one. A pointer is its word; NULL is 0.
\<close>

datatype bf_map_sts_t = BF_MAP_OK | BF_MAP_ERR | BF_MAP_NO_KEY | BF_MAP_KEY_EXISTS

definition bf_map_init :: "jl \<Rightarrow> bf_map_sts_t \<times> jl" where
  "bf_map_init m = (BF_MAP_OK, [])"

definition bf_map_add :: "env \<Rightarrow> jl \<Rightarrow> nat \<Rightarrow> nat \<Rightarrow> (bf_map_sts_t \<times> jl) res" where
  "bf_map_add E m key data =
     (let (Pvalue, m') = JLI E m key in
      if Pvalue = PJERR then bnd (c_dbgchk E False) (\<lambda>_. Inr (BF_MAP_ERR, m'))
      else bnd (deref Pvalue) (\<lambda>v.
        if v \<noteq> 0 then Inr (BF_MAP_KEY_EXISTS, m') else Inr (BF_MAP_OK, jl_put key data m')))"

definition bf_map_rmv :: "env \<Rightarrow> jl \<Rightarrow> nat \<Rightarrow> (bf_map_sts_t \<times> jl) res" where
  "bf_map_rmv E m key =
     (let (Rc_int, m') = JLD E m key in
      if Rc_int = - 1 then bnd (c_dbgchk E False) (\<lambda>_. Inr (BF_MAP_ERR, m'))
      else if Rc_int = 0 then Inr (BF_MAP_NO_KEY, m') else Inr (BF_MAP_OK, m'))"

definition bf_map_get :: "env \<Rightarrow> jl \<Rightarrow> nat \<Rightarrow> nat \<Rightarrow> (bf_map_sts_t \<times> nat) res" where
  "bf_map_get E m key data =
     (let Pvalue = JLG E m key in
      if Pvalue = PJERR then bnd (c_dbgchk E False) (\<lambda>_. Inr (BF_MAP_ERR, data))
      else if Pvalue = PNULL then Inr (BF_MAP_NO_KEY, data)
      else bnd (deref Pvalue) (\<lambda>v. Inr (BF_MAP_OK, v)))"

definition bf_map_get_rmv :: "env \<Rightarrow> jl \<Rightarrow> nat \<Rightarrow> nat \<Rightarrow> (bf_map_sts_t \<times> nat \<times> jl) res" where
  "bf_map_get_rmv E m key data =
     bnd (bf_map_get E m key data) (\<lambda>(sts, data).
     if sts = BF_MAP_OK then bnd (bf_map_rmv E m key) (\<lambda>(sts, m). Inr (sts, data, m))
     else Inr (sts, data, m))"

text \<open>A search result: status, key and data.\<close>

definition map_found :: "env \<Rightarrow> pword \<Rightarrow> nat \<Rightarrow> nat \<Rightarrow> (bf_map_sts_t \<times> nat \<times> nat) res" where
  "map_found E Pvalue key data = (case Pvalue of
       PJERR \<Rightarrow> bnd (c_dbgchk E False) (\<lambda>_. Inr (BF_MAP_ERR, key, data))
     | PNULL \<Rightarrow> Inr (BF_MAP_NO_KEY, key, data)
     | PV loc_key v \<Rightarrow> Inr (BF_MAP_OK, loc_key, v))"

definition bf_map_get_first :: "env \<Rightarrow> jl \<Rightarrow> nat \<Rightarrow> nat \<Rightarrow> (bf_map_sts_t \<times> nat \<times> nat) res" where
  "bf_map_get_first E m key data = map_found E (JLF E m 0) key data"

definition bf_map_get_first_rmv :: "env \<Rightarrow> jl \<Rightarrow> nat \<Rightarrow> nat \<Rightarrow> (bf_map_sts_t \<times> nat \<times> nat \<times> jl) res" where
  "bf_map_get_first_rmv E m key data =
     bnd (bf_map_get_first E m key data) (\<lambda>(sts, key, data).
     if sts = BF_MAP_OK then bnd (bf_map_rmv E m key) (\<lambda>(sts, m). Inr (sts, key, data, m))
     else Inr (sts, key, data, m))"

definition bf_map_get_next :: "env \<Rightarrow> jl \<Rightarrow> nat \<Rightarrow> nat \<Rightarrow> (bf_map_sts_t \<times> nat \<times> nat) res" where
  "bf_map_get_next E m key data = map_found E (JLN E m key) key data"

definition bf_map_destroy :: "jl \<Rightarrow> jl" where
  "bf_map_destroy m = JLFA m"

definition bf_map_count :: "jl \<Rightarrow> nat" where
  "bf_map_count m = u32 (JLC m 0 (W64 - 1))"

section \<open>The dictionary contract\<close>

text \<open>Maps whose data are not NULL.\<close>

definition map_inv :: "jl \<Rightarrow> bool" where
  "map_inv m \<longleftrightarrow> jl_ok m \<and> (\<forall>(k, v) \<in> set m. 0 < v)"

lemma map_inv_put: "map_inv m \<Longrightarrow> 0 < v \<Longrightarrow> map_inv (jl_put k v m)"
  by (auto simp: map_inv_def set_jl_put)

lemma map_inv_del: "map_inv m \<Longrightarrow> map_inv (jl_del k m)"
  by (auto simp: map_inv_def set_jl_del)

lemma map_add_new: "quiet E \<Longrightarrow> map_of m k = None \<Longrightarrow> bf_map_add E m k v = Inr (BF_MAP_OK, jl_put k v m)"
  by (simp add: bf_map_add_def JLI_def)

lemma map_add_old: "quiet E \<Longrightarrow> map_of m k = Some w \<Longrightarrow> 0 < w \<Longrightarrow> bf_map_add E m k v = Inr (BF_MAP_KEY_EXISTS, m)"
  by (simp add: bf_map_add_def JLI_def)

lemma map_rmv_cases:
  "quiet E \<Longrightarrow> bf_map_rmv E m k = (if map_of m k = None then Inr (BF_MAP_NO_KEY, m) else Inr (BF_MAP_OK, jl_del k m))"
  by (auto simp: bf_map_rmv_def JLD_def split: option.splits)

lemma map_get_cases:
  "quiet E \<Longrightarrow> bf_map_get E m k d = (case map_of m k of None \<Rightarrow> Inr (BF_MAP_NO_KEY, d) | Some v \<Rightarrow> Inr (BF_MAP_OK, v))"
  by (simp add: bf_map_get_def JLG_def Let_def split: option.splits)

lemma map_of_inj: "jl_ok m \<Longrightarrow> jl_ok m' \<Longrightarrow> map_of m = map_of m' \<Longrightarrow> m = m'"
proof (rule jl_unique)
  assume a: "jl_ok m" "jl_ok m'" "map_of m = map_of m'"
  have "p \<in> set m \<longleftrightarrow> p \<in> set m'" for p
    using map_of_jl [OF a(1), of "fst p" "snd p"] map_of_jl [OF a(2), of "fst p" "snd p"] a(3) by simp
  then show "set m = set m'" by blast
qed

text \<open>The calls with their status as a boolean.\<close>

definition map_add :: "env \<times> jl \<Rightarrow> nat \<Rightarrow> nat \<Rightarrow> bool \<times> env \<times> jl" where
  "map_add s k v = (case s of (E, m) \<Rightarrow>
     (case bf_map_add E m k v of Inr (sts, m') \<Rightarrow> (sts = BF_MAP_OK, E, m') | Inl _ \<Rightarrow> (False, s)))"

definition map_rmv :: "env \<times> jl \<Rightarrow> nat \<Rightarrow> bool \<times> env \<times> jl" where
  "map_rmv s k = (case s of (E, m) \<Rightarrow>
     (case bf_map_rmv E m k of Inr (sts, m') \<Rightarrow> (sts = BF_MAP_OK, E, m') | Inl _ \<Rightarrow> (False, s)))"

lemma map_inv_lookup: "map_inv m \<Longrightarrow> map_of m k = Some v \<Longrightarrow> 0 < v"
  by (auto simp: map_inv_def dest!: map_of_SomeD)

interpretation judy_map: dictionary
  "\<lambda>(E, m). quiet E \<and> map_inv m" "\<lambda>(E, m). map_of m" "\<lambda>v. 0 < v" map_add map_rmv
proof (unfold_locales, goal_cases)
  case (1 s v k)
  then show ?case by (cases s) (auto simp: map_add_def map_add_new map_inv_put map_of_jl_put)
next
  case (2 s v k)
  then show ?case by (cases s) (auto simp: map_add_def map_add_old map_inv_lookup)
next
  case (3 s k)
  obtain E m where s: "s = (E, m)" by (cases s)
  with 3 have "quiet E" "map_inv m" "jl_ok m" "map_of m k \<noteq> None" by (simp_all add: map_inv_def)
  then show ?case using s by (simp add: map_rmv_def map_rmv_cases map_inv_del map_of_jl_del)
next
  case (4 s k)
  then show ?case by (cases s) (auto simp: map_rmv_def map_rmv_cases)
qed

section \<open>Properties\<close>

text \<open>One call on the map and the same call on a HOL map: new map and status.\<close>

definition call_on :: "env \<Rightarrow> (nat, nat) dict_call \<Rightarrow> jl \<Rightarrow> (bf_map_sts_t \<times> jl) res" where
  "call_on E c m = (case c of Dict_add k v \<Rightarrow> bf_map_add E m k v | Dict_rmv k \<Rightarrow> bf_map_rmv E m k)"

fun calls_on :: "env \<Rightarrow> (nat, nat) dict_call list \<Rightarrow> jl \<Rightarrow> jl res" where
  "calls_on E [] m = Inr m"
| "calls_on E (c # cs) m = bnd (call_on E c m) (\<lambda>(sts, m'). calls_on E cs m')"

lemma call_on_step:
  "quiet E \<Longrightarrow> map_inv m \<Longrightarrow> judy_map.call_ok c \<Longrightarrow>
    \<exists>sts m'. call_on E c m = Inr (sts, m') \<and> judy_map.dict_step c (E, m) = (E, m')"
  by (cases c; cases "map_of m (case c of Dict_add k v \<Rightarrow> k | Dict_rmv k \<Rightarrow> k)")
    (auto simp: call_on_def map_add_def map_rmv_def map_add_new map_add_old map_rmv_cases map_inv_lookup)

lemma calls_on_run:
  "quiet E \<Longrightarrow> map_inv m \<Longrightarrow> \<forall>c \<in> set cs. judy_map.call_ok c \<Longrightarrow>
    \<exists>m'. calls_on E cs m = Inr m' \<and> fold judy_map.dict_step cs (E, m) = (E, m') \<and> map_inv m'"
proof (induction cs arbitrary: m)
  case (Cons c cs)
  have "judy_map.call_ok c" using Cons.prems(3) by simp
  from call_on_step [OF Cons.prems(1,2) this] obtain sts n where
    n: "call_on E c m = Inr (sts, n)" "judy_map.dict_step c (E, m) = (E, n)" by blast
  have "map_inv n" using judy_map.step_spec [of "(E, m)" c] Cons.prems n(2) by auto
  with Cons.IH [OF Cons.prems(1) this] Cons.prems(3) n show ?case by auto
qed simp

text \<open>Any sequence of \<open>bf_map_add\<close> (of data that are not NULL) and \<open>bf_map_rmv\<close> calls leaves
  the map that the same sequence leaves on a finite map, where adding a key that is there and
  removing one that is not change nothing; \<open>bf_map_get\<close> then reads this map.\<close>

lemma map_calls_refine:
  assumes "quiet E" "\<forall>k v. Dict_add k v \<in> set cs \<longrightarrow> 0 < v"
  shows "\<exists>m. calls_on E cs (snd (bf_map_init m0)) = Inr m \<and>
    bf_map_get E m key d = (case fold dict_spec cs Map.empty key of
       None \<Rightarrow> Inr (BF_MAP_NO_KEY, d) | Some v \<Rightarrow> Inr (BF_MAP_OK, v))"
proof -
  have c: "\<forall>c \<in> set cs. judy_map.call_ok c" using assms(2) by (auto simp: judy_map.call_ok_def)
  have inv: "map_inv []" by (simp add: map_inv_def)
  from calls_on_run [OF assms(1) inv c] obtain m where
    m: "calls_on E cs [] = Inr m" "fold judy_map.dict_step cs (E, []) = (E, m)" by blast
  from judy_map.run_spec [of "(E, [])" cs] assms(1) inv c m(2)
  have "map_of m = fold dict_spec cs Map.empty" by simp
  with m(1) show ?thesis by (simp add: bf_map_init_def map_get_cases [OF assms(1)])
qed

lemma map_calls_refine_witness:
  "\<exists>m. calls_on env0 [Dict_add (3 :: nat) (7 :: nat), Dict_add 3 8, Dict_rmv 4] (snd (bf_map_init [])) = Inr m \<and>
    bf_map_get env0 m 3 0 = (case fold dict_spec [Dict_add (3 :: nat) (7 :: nat), Dict_add 3 8, Dict_rmv 4] Map.empty 3 of
       None \<Rightarrow> Inr (BF_MAP_NO_KEY, 0) | Some v \<Rightarrow> Inr (BF_MAP_OK, v))"
  by (rule map_calls_refine) simp_all

text \<open>Reading all entries with \<open>bf_map_get_first_rmv\<close> until it reports no key.\<close>

fun drain :: "env \<Rightarrow> nat \<Rightarrow> jl \<Rightarrow> (nat \<times> nat) list res" where
  "drain E 0 m = Inl Diverges"
| "drain E (Suc n) m = bnd (bf_map_get_first_rmv E m 0 0) (\<lambda>(sts, k, d, m').
     if sts = BF_MAP_OK then bnd (drain E n m') (\<lambda>r. Inr ((k, d) # r)) else Inr [])"

text \<open>The same with \<open>bf_map_get_first\<close> and \<open>bf_map_get_next\<close>.\<close>

fun walk :: "env \<Rightarrow> nat \<Rightarrow> jl \<Rightarrow> bf_map_sts_t \<times> nat \<times> nat \<Rightarrow> (nat \<times> nat) list res" where
  "walk E 0 m r = Inl Diverges"
| "walk E (Suc n) m (sts, k, d) =
     (if sts = BF_MAP_OK then bnd (bf_map_get_next E m k d) (\<lambda>r. bnd (walk E n m r) (\<lambda>l. Inr ((k, d) # l))) else Inr [])"

lemma walk_from:
  "quiet E \<Longrightarrow> jl_ok (a @ (k, v) # b) \<Longrightarrow> walk E (Suc (Suc (length b))) (a @ (k, v) # b) (BF_MAP_OK, k, v) = Inr ((k, v) # b)"
proof (induction b arbitrary: a k v)
  case Nil
  have "jl_next ((a @ [(k, v)]) @ []) k = None" using Nil by (subst jl_next_split) (force simp: jl_ok_append)+
  then show ?case using Nil(1) by (simp add: bf_map_get_next_def JLN_def map_found_def)
next
  case (Cons p b)
  obtain k' v' where p: "p = (k', v')" by (cases p)
  have "jl_next ((a @ [(k, v)]) @ (k', v') # b) k = Some (k', v')"
    using Cons.prems(2) p by (subst jl_next_split) (force simp: jl_ok_append jl_ok_Cons)+
  then have nx: "bf_map_get_next E (a @ (k, v) # p # b) k v = Inr (BF_MAP_OK, k', v')"
    using Cons.prems(1) p by (simp add: bf_map_get_next_def JLN_def map_found_def)
  have "walk E (Suc (Suc (length b))) ((a @ [(k, v)]) @ (k', v') # b) (BF_MAP_OK, k', v') = Inr ((k', v') # b)"
    using Cons.prems p by (intro Cons.IH) simp_all
  then show ?case using nx p by simp
qed

text \<open>C22: \<open>bf_map_get_first\<close> followed by \<open>bf_map_get_next\<close>, and repeated
  \<open>bf_map_get_first_rmv\<close>, both deliver every entry exactly once in ascending order of key and then
  report that there is none; \<open>bf_map_count\<close> is the number of entries (below \<open>2 ^ 32\<close>).\<close>

theorem map_iteration:
  assumes "quiet E" "jl_ok m" "\<forall>(k, v) \<in> set m. k < W64" "length m < W32"
  shows "bnd (bf_map_get_first E m 0 0) (walk E (Suc (length m)) m) = Inr m \<and> drain E (Suc (length m)) m = Inr m \<and>
    sorted_wrt (<) (map fst m) \<and> bf_map_count m = length m"
proof (intro conjI)
  show "sorted_wrt (<) (map fst m)" using assms(2) by (simp add: jl_ok_def)
  have "filter (\<lambda>p. fst p \<le> W64 - Suc 0) m = m" using assms(3) by (intro filter_True) fastforce
  then show "bf_map_count m = length m" using assms(4) by (simp add: bf_map_count_def JLC_def u32_id)
  show "bnd (bf_map_get_first E m 0 0) (walk E (Suc (length m)) m) = Inr m"
  proof (cases m)
    case Nil
    then show ?thesis using assms(1) by (simp add: bf_map_get_first_def JLF_def jl_first_0 map_found_def)
  next
    case (Cons p b)
    obtain k v where "p = (k, v)" by (cases p)
    with Cons walk_from [OF assms(1), of "[]" k v b] assms(1,2) show ?thesis
      by (simp add: bf_map_get_first_def JLF_def jl_first_0 map_found_def)
  qed
  show "drain E (Suc (length m)) m = Inr m"
    using assms(2)
  proof (induction m)
    case Nil
    then show ?case using assms(1) by (simp add: bf_map_get_first_rmv_def bf_map_get_first_def JLF_def jl_first_0 map_found_def)
  next
    case (Cons p m)
    obtain k v where "p = (k, v)" by (cases p)
    with Cons assms(1) show ?case
      by (simp add: bf_map_get_first_rmv_def bf_map_get_first_def JLF_def jl_first_0 map_found_def map_rmv_cases jl_ok_Cons)
  qed
qed

lemma map_iteration_witness:
  "bnd (bf_map_get_first env0 [(2, 5), (9, 1)] 0 0) (walk env0 (Suc (length [(2 :: nat, 5 :: nat), (9, 1)])) [(2, 5), (9, 1)]) =
     Inr [(2, 5), (9, 1)] \<and>
    drain env0 (Suc (length [(2 :: nat, 5 :: nat), (9, 1)])) [(2, 5), (9, 1)] = Inr [(2, 5), (9, 1)] \<and>
    sorted_wrt (<) (map fst [(2 :: nat, 5 :: nat), (9, 1)]) \<and> bf_map_count [(2, 5), (9, 1)] = length [(2 :: nat, 5 :: nat), (9, 1)]"
  by (rule map_iteration) (simp_all add: jl_ok_def W64_def W32_def)

text \<open>Outside the contract: a key added with NULL is there for \<open>bf_map_get\<close>, but
  \<open>bf_map_add\<close> does not see it and overwrites it with status OK.\<close>

lemma map_null_data:
  assumes "quiet E"
  shows "bf_map_add E [] k 0 = Inr (BF_MAP_OK, [(k, 0)]) \<and> bf_map_get E [(k, 0)] k 9 = Inr (BF_MAP_OK, 0) \<and>
    bf_map_add E [(k, 0)] k v = Inr (BF_MAP_OK, [(k, v)])"
  using assms by (simp add: bf_map_add_def bf_map_get_def JLI_def JLG_def)

lemma map_null_data_witness:
  "bf_map_add env0 [] 4 0 = Inr (BF_MAP_OK, [(4, 0)]) \<and> bf_map_get env0 [(4, 0)] 4 9 = Inr (BF_MAP_OK, 0) \<and>
    bf_map_add env0 [(4, 0)] 4 6 = Inr (BF_MAP_OK, [(4, 6)])"
  by (rule map_null_data) simp

end
