(* ===== verification/Map_Client.thy ===== *)
theory Map_Client
  imports Map_Judy Failures
begin

text \<open>
  Programs over a map of src/map/map.c: any sequence of its calls with everything they return, the statuses
  and the output arguments. \<open>map_step\<close> is the abstract map, a HOL map whose first and next entries
  are the least keys; it answers every call in exactly one way. The calls on the JudyL array are
  steps of it as long as insertions have memory, and an insertion without memory is reported and
  changes nothing.
\<close>

section \<open>Calls and replies\<close>

text \<open>\<open>key0\<close> and \<open>d\<close> in the calls are what the output arguments hold before.\<close>

datatype map_call =
    M_add nat nat
  | M_rmv nat
  | M_get nat nat
  | M_get_rmv nat nat
  | M_first nat nat
  | M_first_rmv nat nat
  | M_next nat nat
  | M_count

datatype map_reply = Sts bf_map_sts_t | Datum bf_map_sts_t nat | Entry bf_map_sts_t nat nat | Number nat

fun map_do :: "env \<Rightarrow> map_call \<Rightarrow> jl \<Rightarrow> (map_reply \<times> jl) res" where
  "map_do E (M_add k v) m = bnd (bf_map_add E m k v) (\<lambda>(sts, m). Inr (Sts sts, m))"
| "map_do E (M_rmv k) m = bnd (bf_map_rmv E m k) (\<lambda>(sts, m). Inr (Sts sts, m))"
| "map_do E (M_get k d) m = bnd (bf_map_get E m k d) (\<lambda>(sts, d). Inr (Datum sts d, m))"
| "map_do E (M_get_rmv k d) m = bnd (bf_map_get_rmv E m k d) (\<lambda>(sts, d, m). Inr (Datum sts d, m))"
| "map_do E (M_first key0 d) m = bnd (bf_map_get_first E m key0 d) (\<lambda>(sts, k, d). Inr (Entry sts k d, m))"
| "map_do E (M_first_rmv key0 d) m = bnd (bf_map_get_first_rmv E m key0 d) (\<lambda>(sts, k, d, m). Inr (Entry sts k d, m))"
| "map_do E (M_next key0 d) m = bnd (bf_map_get_next E m key0 d) (\<lambda>(sts, k, d). Inr (Entry sts k d, m))"
| "map_do E M_count m = Inr (Number (bf_map_count m), m)"

fun map_run :: "env \<Rightarrow> map_call list \<Rightarrow> jl \<Rightarrow> (map_reply list \<times> jl) res" where
  "map_run E [] m = Inr ([], m)"
| "map_run E (c # cs) m = bnd (map_do E c m) (\<lambda>(r, m). bnd (map_run E cs m) (\<lambda>(rs, m). Inr (r # rs, m)))"

section \<open>The abstract map\<close>

inductive map_step :: "map_call \<Rightarrow> map_reply \<Rightarrow> (nat \<rightharpoonup> nat) \<Rightarrow> (nat \<rightharpoonup> nat) \<Rightarrow> bool" where
  add: "M k = None \<Longrightarrow> map_step (M_add k v) (Sts BF_MAP_OK) M (M(k \<mapsto> v))"
| exists: "M k = Some w \<Longrightarrow> map_step (M_add k v) (Sts BF_MAP_KEY_EXISTS) M M"
| rmv: "M k = Some w \<Longrightarrow> map_step (M_rmv k) (Sts BF_MAP_OK) M (M(k := None))"
| rmv_none: "M k = None \<Longrightarrow> map_step (M_rmv k) (Sts BF_MAP_NO_KEY) M M"
| get: "M k = Some v \<Longrightarrow> map_step (M_get k d) (Datum BF_MAP_OK v) M M"
| get_none: "M k = None \<Longrightarrow> map_step (M_get k d) (Datum BF_MAP_NO_KEY d) M M"
| get_rmv: "M k = Some v \<Longrightarrow> map_step (M_get_rmv k d) (Datum BF_MAP_OK v) M (M(k := None))"
| get_rmv_none: "M k = None \<Longrightarrow> map_step (M_get_rmv k d) (Datum BF_MAP_NO_KEY d) M M"
| first: "least_from M 0 k v \<Longrightarrow> map_step (M_first key0 d) (Entry BF_MAP_OK k v) M M"
| first_none: "none_from M 0 \<Longrightarrow> map_step (M_first key0 d) (Entry BF_MAP_NO_KEY key0 d) M M"
| first_rmv: "least_from M 0 k v \<Longrightarrow> map_step (M_first_rmv key0 d) (Entry BF_MAP_OK k v) M (M(k := None))"
| first_rmv_none: "none_from M 0 \<Longrightarrow> map_step (M_first_rmv key0 d) (Entry BF_MAP_NO_KEY key0 d) M M"
| "next": "least_from M (Suc key0) k v \<Longrightarrow> map_step (M_next key0 d) (Entry BF_MAP_OK k v) M M"
| next_none: "none_from M (Suc key0) \<Longrightarrow> map_step (M_next key0 d) (Entry BF_MAP_NO_KEY key0 d) M M"
| count: "map_step M_count (Number (card (dom M) mod W32)) M M"

inductive map_steps :: "map_call list \<Rightarrow> map_reply list \<Rightarrow> (nat \<rightharpoonup> nat) \<Rightarrow> (nat \<rightharpoonup> nat) \<Rightarrow> bool" where
  Nil: "map_steps [] [] M M"
| Cons: "map_step c r L M \<Longrightarrow> map_steps cs rs M N \<Longrightarrow> map_steps (c # cs) (r # rs) L N"

inductive_cases map_stepE:
  "map_step (M_add k v) r M N" "map_step (M_rmv k) r M N" "map_step (M_get k d) r M N" "map_step (M_get_rmv k d) r M N"
  "map_step (M_first key0 d) r M N" "map_step (M_first_rmv key0 d) r M N" "map_step (M_next key0 d) r M N"
  "map_step M_count r M N"

inductive_simps map_steps_simps:
  "map_steps [] rs M N"
  "map_steps (c # cs) rs M N"

text \<open>The abstract map answers every call in one way.\<close>

lemma map_step_det:
  assumes "map_step c r M N" "map_step c r' M N'"
  shows "r = r' \<and> N = N'"
proof (cases c)
  case (M_first k d)
  with assms show ?thesis by (auto elim!: map_stepE dest: least_from_unique least_not_none)
next
  case (M_first_rmv k d)
  with assms show ?thesis by (auto elim!: map_stepE dest: least_from_unique least_not_none)
next
  case (M_next k d)
  with assms show ?thesis by (auto elim!: map_stepE dest: least_from_unique least_not_none)
qed (use assms in \<open>auto elim!: map_stepE\<close>)

lemma map_steps_det: "map_steps cs rs M N \<Longrightarrow> map_steps cs rs' M N' \<Longrightarrow> rs = rs' \<and> N = N'"
proof (induction cs arbitrary: rs rs' M)
  case (Cons c cs)
  from Cons.prems obtain r us L r' us' L' where
    "rs = r # us" "map_step c r M L" "map_steps cs us L N" "rs' = r' # us'" "map_step c r' M L'" "map_steps cs us' L' N'"
    by (auto simp: map_steps_simps)
  with map_step_det [of c r M L r' L'] Cons.IH [of us L us'] show ?case by simp
qed (simp add: map_steps_simps)

section \<open>Refinement\<close>

definition client_inv :: "jl \<Rightarrow> bool" where
  "client_inv m \<longleftrightarrow> map_inv m \<and> (\<forall>(k, v) \<in> set m. k < W64)"

definition client_call_ok :: "map_call \<Rightarrow> bool" where
  "client_call_ok c \<longleftrightarrow> (case c of M_add k v \<Rightarrow> k < W64 \<and> 0 < v | _ \<Rightarrow> True)"

lemma client_invD: "client_inv m \<Longrightarrow> map_inv m \<and> jl_ok m"
  by (simp add: client_inv_def map_inv_def)

lemma client_inv_put: "client_inv m \<Longrightarrow> k < W64 \<Longrightarrow> 0 < v \<Longrightarrow> client_inv (jl_put k v m)"
  using map_inv_put [of m v k] client_invD [of m] by (auto simp: client_inv_def set_jl_put)

lemma client_inv_del: "client_inv m \<Longrightarrow> client_inv (jl_del k m)"
  using map_inv_del [of m k] client_invD [of m] by (auto simp: client_inv_def set_jl_del)

lemma count_card:
  assumes "client_inv m"
  shows "bf_map_count m = card (dom (map_of m)) mod W32"
proof -
  have "filter (\<lambda>p. fst p \<le> W64 - Suc 0) m = m"
    using assms by (intro filter_True) (fastforce simp: client_inv_def)
  moreover have "card (dom (map_of m)) = length m"
    using client_invD [OF assms] by (simp add: dom_map_of_conv_image_fst jl_ok_distinct distinct_card flip: set_map)
  ultimately show ?thesis by (simp add: bf_map_count_def JLC_def u32_def)
qed

lemma map_do_step:
  assumes E: "quiet E" and inv: "client_inv m" and c: "client_call_ok c"
  shows "\<exists>r m'. map_do E c m = Inr (r, m') \<and> map_step c r (map_of m) (map_of m') \<and> client_inv m'"
proof -
  have ok: "map_inv m" "jl_ok m" using client_invD [OF inv] by simp_all
  note del = map_of_jl_del [OF ok(2)] client_inv_del [OF inv]
  show ?thesis
  proof (cases c)
    case (M_add k v)
    then have v: "k < W64" "0 < v" using c by (simp_all add: client_call_ok_def)
    show ?thesis
    proof (cases "map_of m k")
      case None
      then show ?thesis
        using M_add map_add_new [OF E None, of v] client_inv_put [OF inv v] map_step.add [of "map_of m" k v] map_of_jl_put [of k v m]
        by simp
    next
      case (Some w)
      then show ?thesis
        using M_add map_add_old [OF E Some map_inv_lookup [OF ok(1) Some], of v] inv map_step.exists [of "map_of m" k w v] by simp
    qed
  next
    case (M_rmv k)
    then show ?thesis using inv del by (cases "map_of m k") (auto simp: map_rmv_cases [OF E] intro: map_step.intros)
  next
    case (M_get k d)
    then show ?thesis using inv by (cases "map_of m k") (auto simp: map_get_cases [OF E] intro: map_step.intros)
  next
    case (M_get_rmv k d)
    then show ?thesis using inv del
      by (cases "map_of m k") (auto simp: bf_map_get_rmv_def map_get_cases [OF E] map_rmv_cases [OF E] intro: map_step.intros)
  next
    case (M_first k d)
    then show ?thesis using inv E jl_first_map [OF ok(2)]
      by (cases "jl_first m 0") (auto simp: bf_map_get_first_def map_found_def JLF_def intro: map_step.intros)
  next
    case (M_first_rmv k d)
    show ?thesis
    proof (cases "jl_first m 0")
      case None
      then show ?thesis using M_first_rmv inv E jl_first_map [OF ok(2)]
        by (auto simp: bf_map_get_first_rmv_def bf_map_get_first_def map_found_def JLF_def intro: map_step.intros)
    next
      case (Some p)
      obtain j v where p: "p = (j, v)" by (cases p)
      then have l: "least_from (map_of m) 0 j v" using Some jl_first_map [OF ok(2)] by simp
      then have "map_of m j \<noteq> None" by (simp add: least_from_def)
      then have "bf_map_get_first_rmv E m k d = Inr (BF_MAP_OK, j, v, jl_del j m)" using Some p E
        by (simp add: bf_map_get_first_rmv_def bf_map_get_first_def map_found_def JLF_def map_rmv_cases)
      then show ?thesis using M_first_rmv del map_step.first_rmv [OF l, of k d] by simp
    qed
  next
    case (M_next k d)
    then show ?thesis using inv E jl_next_map [OF ok(2), of k]
      by (cases "jl_next m k") (auto simp: bf_map_get_next_def map_found_def JLN_def intro: map_step.intros)
  next
    case M_count
    then show ?thesis using inv count_card [OF inv] map_step.count [of "map_of m"] by simp
  qed
qed

lemma map_run_steps:
  "quiet E \<Longrightarrow> client_inv m \<Longrightarrow> \<forall>c \<in> set cs. client_call_ok c \<Longrightarrow>
    \<exists>rs m'. map_run E cs m = Inr (rs, m') \<and> map_steps cs rs (map_of m) (map_of m') \<and> client_inv m'"
proof (induction cs arbitrary: m)
  case (Cons c cs)
  from Cons.prems(3) have "client_call_ok c" by simp
  from map_do_step [OF Cons.prems(1,2) this] obtain r n where
    n: "map_do E c m = Inr (r, n)" "map_step c r (map_of m) (map_of n)" "client_inv n" by blast
  from Cons.IH [OF Cons.prems(1) n(3)] Cons.prems(3) obtain rs m' where
    "map_run E cs n = Inr (rs, m')" "map_steps cs rs (map_of n) (map_of m')" "client_inv m'" by auto
  with n show ?case by (auto intro: map_steps.Cons)
qed (simp add: map_steps.Nil)

section \<open>Insertions without memory\<close>

text \<open>\<open>bf_map_add\<close> reports a failed insertion; no other call can fail.\<close>

lemma map_failed_insertion:
  assumes "only_inserts E"
  shows "bf_map_add E m k v = (if jl_err E JIns m k then if dbgchk E then Inl Assert_failed else Inr (BF_MAP_ERR, m)
      else bf_map_add (calm E) m k v)"
    "bf_map_rmv E m k = bf_map_rmv (calm E) m k" "bf_map_get E m k d = bf_map_get (calm E) m k d"
    "bf_map_get_first E m k d = bf_map_get_first (calm E) m k d" "bf_map_get_next E m k d = bf_map_get_next (calm E) m k d"
  unfolding bf_map_add_def bf_map_rmv_def bf_map_get_def bf_map_get_first_def bf_map_get_next_def map_found_def
    calm_asserts calm_judy [OF assms]
  by (simp_all add: JLI_def c_dbgchk_def)

definition add_fails :: "env \<Rightarrow> map_call \<Rightarrow> jl \<Rightarrow> bool" where
  "add_fails E c m \<longleftrightarrow> (case c of M_add k v \<Rightarrow> jl_err E JIns m k | _ \<Rightarrow> False)"

text \<open>What a sequence of calls may answer: \<open>BF_MAP_ERR\<close> with the map unchanged where the insertion of an
  addition fails, and the answer of the abstract map, which never is \<open>BF_MAP_ERR\<close>, everywhere else.\<close>

inductive map_trace :: "env \<Rightarrow> map_call list \<Rightarrow> map_reply list \<Rightarrow> jl \<Rightarrow> jl \<Rightarrow> bool" for E where
  Nil: "map_trace E [] [] m m"
| failed: "add_fails E c m \<Longrightarrow> map_trace E cs rs m n \<Longrightarrow> map_trace E (c # cs) (Sts BF_MAP_ERR # rs) m n"
| answered: "\<not> add_fails E c m \<Longrightarrow> map_step c r (map_of m) (map_of l) \<Longrightarrow> map_trace E cs rs l n \<Longrightarrow>
    map_trace E (c # cs) (r # rs) m n"

lemma map_step_no_err: "map_step c r M N \<Longrightarrow> r \<noteq> Sts BF_MAP_ERR"
  by (cases rule: map_step.cases) auto

lemma map_do_calm:
  assumes "only_inserts E" "\<not> add_fails E c m"
  shows "map_do E c m = map_do (calm E) c m"
proof (cases c)
  case (M_add k v)
  then show ?thesis using assms map_failed_insertion(1) [OF assms(1), of m k v] by (simp add: add_fails_def)
next
  case (M_get_rmv k d)
  then show ?thesis unfolding bf_map_get_rmv_def map_do.simps M_get_rmv map_failed_insertion(2,3) [OF assms(1)] by simp
next
  case (M_first_rmv k d)
  then show ?thesis unfolding bf_map_get_first_rmv_def map_do.simps M_first_rmv map_failed_insertion(2,4) [OF assms(1)] by simp
qed (simp_all add: map_failed_insertion [OF assms(1)])

lemma map_do_failed:
  assumes "only_inserts E" "add_fails E c m"
  shows "map_do E c m = (if dbgchk E then Inl Assert_failed else Inr (Sts BF_MAP_ERR, m))"
  using assms(2) map_failed_insertion(1) [OF assms(1)] by (cases c) (simp_all add: add_fails_def)

text \<open>The calls that did not report \<open>BF_MAP_ERR\<close>.\<close>

definition unfailed :: "map_call list \<Rightarrow> map_reply list \<Rightarrow> map_call list" where
  "unfailed cs rs = map fst (filter (\<lambda>(c, r). r \<noteq> Sts BF_MAP_ERR) (zip cs rs))"

lemma map_run_trace:
  assumes E: "only_inserts E"
  shows "client_inv m \<Longrightarrow> \<forall>c \<in> set cs. client_call_ok c \<Longrightarrow> map_run E cs m = Inr (rs, m') \<Longrightarrow>
    map_trace E cs rs m m' \<and> client_inv m' \<and> (dbgchk E \<longrightarrow> Sts BF_MAP_ERR \<notin> set rs) \<and>
    map_run (calm E) (unfailed cs rs) m = Inr (filter (\<lambda>r. r \<noteq> Sts BF_MAP_ERR) rs, m')"
proof (induction cs arbitrary: m rs)
  case (Cons c cs)
  from Cons.prems(2) have c: "client_call_ok c" "\<forall>c \<in> set cs. client_call_ok c" by simp_all
  from Cons.prems(3) obtain r n us where n: "map_do E c m = Inr (r, n)" "map_run E cs n = Inr (us, m')" "rs = r # us"
    by (auto simp: bnd_eq_Inr_iff)
  show ?case
  proof (cases "add_fails E c m")
    case True
    with n(1) map_do_failed [OF E True] have "\<not> dbgchk E" "r = Sts BF_MAP_ERR" "n = m" by (auto split: if_splits)
    with Cons.IH [OF _ c(2) n(2)] Cons.prems(1) n(3) True show ?thesis by (auto simp: unfailed_def intro: map_trace.failed)
  next
    case False
    have calm: "map_do (calm E) c m = Inr (r, n)" using map_do_calm [OF E False] n(1) by simp
    with map_do_step [of "calm E" m c] Cons.prems(1) c(1)
    have st: "map_step c r (map_of m) (map_of n)" "client_inv n" by auto
    from Cons.IH [OF st(2) c(2) n(2)] map_trace.answered [OF False st(1)] map_step_no_err [OF st(1)] calm n(3)
    show ?thesis by (auto simp: unfailed_def)
  qed
qed (auto simp: unfailed_def intro: map_trace.Nil)

lemma map_run_stops:
  assumes E: "only_inserts E"
  shows "client_inv m \<Longrightarrow> \<forall>c \<in> set cs. client_call_ok c \<Longrightarrow> map_run E cs m = Inl f \<Longrightarrow>
    f = Assert_failed \<and> dbgchk E \<and>
    (\<exists>ds c es rs n. cs = ds @ c # es \<and> map_run E ds m = Inr (rs, n) \<and> add_fails E c n)"
proof (induction cs arbitrary: m)
  case (Cons c cs)
  from Cons.prems(2) have c: "client_call_ok c" "\<forall>c \<in> set cs. client_call_ok c" by simp_all
  show ?case
  proof (cases "add_fails E c m")
    case True
    have here: "c # cs = [] @ c # cs" "map_run E [] m = Inr ([], m)" by simp_all
    show ?thesis
    proof (cases "dbgchk E")
      case dbg: True
      then have "f = Assert_failed" using Cons.prems(3) map_do_failed [OF E True] by simp
      with dbg here True show ?thesis by blast
    next
      case False
      then have "map_run E cs m = Inl f" using Cons.prems(3) map_do_failed [OF E True] by (cases "map_run E cs m") auto
      with Cons.IH [OF Cons.prems(1) c(2)] False show ?thesis by simp
    qed
  next
    case False
    obtain r n where n: "map_do (calm E) c m = Inr (r, n)" "client_inv n"
      using map_do_step [of "calm E" m c] Cons.prems(1) c(1) by auto
    then have d: "map_do E c m = Inr (r, n)" using map_do_calm [OF E False] by simp
    with Cons.prems(3) have "map_run E cs n = Inl f" by (cases "map_run E cs n") auto
    from Cons.IH [OF n(2) c(2) this] obtain ds c' es rs l where f: "f = Assert_failed" "dbgchk E"
      and "cs = ds @ c' # es" "map_run E ds n = Inr (rs, l)" "add_fails E c' l" by blast
    then have "c # cs = (c # ds) @ c' # es" "map_run E (c # ds) m = Inr (r # rs, l)" "add_fails E c' l" using d by simp_all
    with f show ?thesis by blast
  qed
qed simp

section \<open>Properties\<close>

text \<open>C21: any sequence of calls of map.c on a new map (adding data that are not NULL) returns
  what the same sequence returns on a finite map, in every status and output argument, and leaves its
  content: \<open>bf_map_get_first\<close> and \<open>bf_map_get_next\<close> find the least key from the start and
  above the given one, the removing calls remove what they return, \<open>bf_map_count\<close> is the
  number of keys modulo \<open>2 ^ 32\<close>, and a call that finds nothing leaves its output arguments alone.\<close>

theorem map_client_refines:
  assumes "quiet E" "\<forall>c \<in> set cs. client_call_ok c"
  shows "\<exists>rs m. map_run E cs (snd (bf_map_init m0)) = Inr (rs, m) \<and> map_steps cs rs Map.empty (map_of m) \<and> client_inv m"
proof -
  have "client_inv []" by (simp add: client_inv_def map_inv_def)
  from map_run_steps [OF assms(1) this assms(2)] show ?thesis by (simp add: bf_map_init_def)
qed

theorem map_client_refines_witness:
  "\<exists>rs m. map_run env0 [M_add 9 5, M_add 3 7, M_add 3 8, M_first 0 0, M_next 3 0, M_next 9 1, M_get_rmv 3 0, M_count, M_get 3 4]
      (snd (bf_map_init [(1, 1)])) = Inr (rs, m) \<and>
    map_steps [M_add 9 5, M_add 3 7, M_add 3 8, M_first 0 0, M_next 3 0, M_next 9 1, M_get_rmv 3 0, M_count, M_get 3 4]
      rs Map.empty (map_of m) \<and> client_inv m"
  by (rule map_client_refines) (simp_all add: client_call_ok_def W64_def)

text \<open>The replies of this sequence.\<close>

lemma map_client_replies:
  "map_run env0 [M_add 9 5, M_add 3 7, M_add 3 8, M_first 0 0, M_next 3 0, M_next 9 1, M_get_rmv 3 0, M_count, M_get 3 4] [] =
    Inr ([Sts BF_MAP_OK, Sts BF_MAP_OK, Sts BF_MAP_KEY_EXISTS, Entry BF_MAP_OK 3 7, Entry BF_MAP_OK 9 5, Entry BF_MAP_NO_KEY 9 1,
      Datum BF_MAP_OK 7, Number 1, Datum BF_MAP_NO_KEY 4], [(9, 5)])"
  by code_simp

text \<open>C37: when insertions into the Judy array may fail, every \<open>bf_map_add\<close> whose insertion fails returns
  \<open>BF_MAP_ERR\<close> and changes nothing, and no other call does: all others answer as the finite map that the
  calls have built so far, whatever has failed before. The replies and the map that is left are those of
  the sequence without the calls that reported \<open>BF_MAP_ERR\<close>, run with memory. Where \<open>bf_sys_dbgchk\<close>
  stops the program, it stops exactly at the first addition whose insertion fails.\<close>

theorem map_failures_reported:
  assumes "only_inserts E" "client_inv m" "\<forall>c \<in> set cs. client_call_ok c"
  shows "case map_run E cs m of
      Inl f \<Rightarrow> f = Assert_failed \<and> dbgchk E \<and>
        (\<exists>ds c es rs n. cs = ds @ c # es \<and> map_run E ds m = Inr (rs, n) \<and> add_fails E c n)
    | Inr (rs, m') \<Rightarrow> map_trace E cs rs m m' \<and> client_inv m' \<and> (dbgchk E \<longrightarrow> Sts BF_MAP_ERR \<notin> set rs) \<and>
        map_run (calm E) (unfailed cs rs) m = Inr (filter (\<lambda>r. r \<noteq> Sts BF_MAP_ERR) rs, m')"
proof (cases "map_run E cs m")
  case (Inl f)
  with map_run_stops [OF assms Inl] show ?thesis by simp
next
  case (Inr p)
  obtain rs m' where "p = (rs, m')" by (cases p)
  with map_run_trace [OF assms, of rs m'] Inr show ?thesis by simp
qed

text \<open>Memory for one entry: no second key can be added before the first is removed.\<close>

definition env_one :: env where
  "env_one = env_dry\<lparr>jl_err := (\<lambda>op a i. op = JIns \<and> a \<noteq> [])\<rparr>"

lemma env_one [simp]: "only_inserts env_one" "\<not> dbgchk env_one"
  by (simp_all add: only_inserts_def env_one_def env_dry_def)

theorem map_failures_reported_witness:
  "map_trace env_one [M_add 2 5, M_add 3 6, M_rmv 2, M_add 3 7]
       [Sts BF_MAP_OK, Sts BF_MAP_ERR, Sts BF_MAP_OK, Sts BF_MAP_OK] [] [(3, 7)] \<and>
   map_run (calm env_one) (unfailed [M_add 2 5, M_add 3 6, M_rmv 2, M_add 3 7]
       [Sts BF_MAP_OK, Sts BF_MAP_ERR, Sts BF_MAP_OK, Sts BF_MAP_OK]) [] =
     Inr (filter (\<lambda>r. r \<noteq> Sts BF_MAP_ERR) [Sts BF_MAP_OK, Sts BF_MAP_ERR, Sts BF_MAP_OK, Sts BF_MAP_OK], [(3, 7)])"
proof -
  let ?cs = "[M_add 2 5, M_add 3 6, M_rmv 2, M_add 3 7]"
  have "map_run env_one ?cs [] = Inr ([Sts BF_MAP_OK, Sts BF_MAP_ERR, Sts BF_MAP_OK, Sts BF_MAP_OK], [(3, 7)])"
    by code_simp
  moreover have "client_inv []" "\<forall>c \<in> set ?cs. client_call_ok c"
    by (simp_all add: client_inv_def map_inv_def client_call_ok_def W64_def)
  ultimately show ?thesis using map_failures_reported [of env_one "[]" ?cs] by simp
qed

end
