(* ===== verification/FBitset.thy ===== *)
theory FBitset
  imports Judy1
begin

text \<open>
  src/fbitset/fbitset.c: a bit set kept as a Judy1 set of the positions that are set. Every
  function is modelled; \<open>assert\<close> is \<open>c_assert\<close>. The two searches for \<open>count\<close> clear bits walk
  over the runs of clear bits; what Judy leaves in \<open>Index\<close> after a search that found nothing is
  never read. A position found is converted from \<open>Word_t\<close> to \<open>int\<close>. The set pointer is not
  NULL, so that \<open>assert(bs)\<close> holds.
\<close>

record bf_fbitset_t =
  fbs_width :: nat
  fbs :: j1

definition bf_fbs_init :: "env \<Rightarrow> bf_fbitset_t \<Rightarrow> nat \<Rightarrow> bf_fbitset_t res" where
  "bf_fbs_init E bs width = bnd (c_assert E (width > 0)) (\<lambda>_. Inr (bs\<lparr>fbs_width := width, fbs := []\<rparr>))"

definition bf_fbs_set :: "env \<Rightarrow> bf_fbitset_t \<Rightarrow> int \<Rightarrow> int \<Rightarrow> (bool \<times> bf_fbitset_t) res" where
  "bf_fbs_set E bs position val =
     bnd (c_assert E (position \<ge> 0)) (\<lambda>_.
     bnd (c_assert E (u32_of_int position < fbs_width bs)) (\<lambda>_.
     bnd (c_assert E (val = 1 \<or> val = 0)) (\<lambda>_.
     if val \<noteq> 0 then
       let (Rc_int, a) = J1S E (fbs bs) (u64_of_int position) in Inr (if Rc_int \<noteq> 0 then False else True, bs\<lparr>fbs := a\<rparr>)
     else
       let (Rc_int, a) = J1U E (fbs bs) (u64_of_int position) in Inr (if Rc_int \<noteq> 0 then True else False, bs\<lparr>fbs := a\<rparr>))))"

definition bf_fbs_get :: "env \<Rightarrow> bf_fbitset_t \<Rightarrow> int \<Rightarrow> bool res" where
  "bf_fbs_get E bs position =
     bnd (c_assert E (position \<ge> 0)) (\<lambda>_.
     bnd (c_assert E (u32_of_int position < fbs_width bs)) (\<lambda>_.
     Inr (if J1T (fbs bs) (u64_of_int position) \<noteq> 0 then True else False)))"

section \<open>The two searches\<close>

lemma absent_from_ge: "i \<le> absent_from a i"
  by (induction a i rule: absent_from.induct) auto

lemma J1PE_less: "J1PE E a i = (r, k) \<Longrightarrow> r \<noteq> 0 \<Longrightarrow> k < i"
  by (cases "j1_prev_empty a i")
    (auto simp: J1PE_def j1_prev_empty_def less_Suc_eq_le split: if_splits dest!: j1_last_empty_Some)

lemma J1P_less: "J1P E a i = (r, k) \<Longrightarrow> r \<noteq> 0 \<Longrightarrow> k < i"
  by (cases "j1_prev a i") (auto simp: J1P_def j1_prev_def dest!: find_SomeD)

lemma J1NE_greater: "J1NE E a i = (r, k) \<Longrightarrow> r \<noteq> 0 \<Longrightarrow> i < k"
  using absent_from_ge [of "Suc i" a]
  by (cases "j1_next_empty a i") (auto simp: J1NE_def j1_next_empty_def word_opt_def split: if_splits)

lemma J1N_greater: "J1N E a i = (r, k) \<Longrightarrow> r \<noteq> 0 \<Longrightarrow> i < k"
  by (cases "j1_next a i") (auto simp: J1N_def j1_next_def dest!: find_SomeD)

text \<open>The loop of \<open>bf_fbs_prev_clr_contiguous\<close>; \<open>last_free\<close> goes down in every iteration.\<close>

function prev_clr_loop :: "env \<Rightarrow> j1 \<Rightarrow> nat \<Rightarrow> nat \<Rightarrow> nat \<Rightarrow> int" where
  "prev_clr_loop E a count free_index last_free =
     (let (Rc_int, Index) = J1P E a last_free;
          last_free = (if Rc_int = 0 then 0 else Index + 1) in
      if sub64 (free_index + 1) last_free \<ge> count then s32 (sub64 (free_index + 1) count) else
      let (Rc_int, Index) = J1PE E a last_free in
      if Rc_int = 0 then - 1 else prev_clr_loop E a count Index Index)"
  by pat_completeness auto
termination
  by (relation "measure (\<lambda>(E, a, count, free_index, last_free). last_free)")
    (auto split: if_splits dest!: J1PE_less [OF sym] J1P_less [OF sym])

definition bf_fbs_prev_clr_contiguous :: "env \<Rightarrow> bf_fbitset_t \<Rightarrow> int \<Rightarrow> nat \<Rightarrow> int res" where
  "bf_fbs_prev_clr_contiguous E bs position count =
     (if position \<le> 0 then Inr (- 1) else
      let position = position - 1 in
      bnd (c_assert E (position \<ge> 0)) (\<lambda>_.
      bnd (c_assert E (u32_of_int position < fbs_width bs)) (\<lambda>_.
      bnd (c_assert E (count \<noteq> 0)) (\<lambda>_.
      if u32_of_int (position + 1) < count \<or> u32_of_int position \<ge> fbs_width bs then Inr (- 1) else
      let (Rc_int, free_index) = J1LE E (fbs bs) (u64_of_int position) in
      if Rc_int = 0 then Inr (- 1) else
      if count = 1 then Inr (s32 free_index) else
      Inr (prev_clr_loop E (fbs bs) count free_index free_index)))))"

text \<open>The loop of \<open>bf_fbs_first_clr_contiguous\<close>; \<open>last_free\<close> goes up in every iteration.
  The condition of the loop makes the width positive, so \<open>width - 1\<close> does not wrap.\<close>

function first_clr_loop :: "env \<Rightarrow> bf_fbitset_t \<Rightarrow> nat \<Rightarrow> nat \<Rightarrow> nat \<Rightarrow> int" where
  "first_clr_loop E bs count free_index last_free =
     (if last_free < fbs_width bs then
        let (Rc_int, Index) = J1N E (fbs bs) last_free;
            last_free = (if Rc_int = 0 then fbs_width bs - 1 else Index - 1) in
        if sub64 (last_free + 1) free_index \<ge> count then s32 free_index else
        let (Rc_int, Index) = J1NE E (fbs bs) last_free in
        if Rc_int = 0 then - 1 else first_clr_loop E bs count Index Index
      else - 1)"
  by pat_completeness auto

termination
proof (relation "measure (\<lambda>(E, bs, count, free_index, last_free). fbs_width bs - last_free)", goal_cases)
  case (2 E bs count free_index last_free x Rc Index l y Rc' Index')
  then have "last_free \<le> l" "l < Index'"
    by (auto split: if_splits dest!: J1N_greater [OF sym] J1NE_greater [OF sym])
  then have "last_free < Index'" by simp
  with 2(1) show ?case by simp
qed simp

declare prev_clr_loop.simps [simp del] first_clr_loop.simps [simp del]

definition bf_fbs_first_clr_contiguous :: "env \<Rightarrow> bf_fbitset_t \<Rightarrow> int \<Rightarrow> nat \<Rightarrow> int res" where
  "bf_fbs_first_clr_contiguous E bs position count =
     bnd (inc_int position) (\<lambda>position.
     bnd (c_assert E (count \<noteq> 0)) (\<lambda>_.
     if position < 0 \<or> add32 (u32_of_int position) count > fbs_width bs then Inr (- 1) else
     bnd (c_assert E (position \<ge> 0)) (\<lambda>_.
     bnd (c_assert E (add32 (u32_of_int position) count \<le> fbs_width bs)) (\<lambda>_.
     let (Rc_int, free_index) = J1FE E (fbs bs) (u64_of_int position) in
     if Rc_int = 0 then Inr (- 1) else
     if free_index \<ge> fbs_width bs then Inr (- 1) else
     if count = 1 then Inr (s32 free_index) else
     Inr (first_clr_loop E bs count free_index free_index)))))"

definition bf_fbs_first_set :: "env \<Rightarrow> bf_fbitset_t \<Rightarrow> int \<Rightarrow> int res" where
  "bf_fbs_first_set E bs position =
     bnd (inc_int position) (\<lambda>position.
     if position < 0 \<or> u32_of_int position > fbs_width bs then Inr (- 1) else
     let (Rc_int, set_index) = J1F E (fbs bs) (u64_of_int position) in
     if Rc_int = 0 then Inr (- 1) else Inr (s32 set_index))"

definition bf_fbs_destroy :: "bf_fbitset_t \<Rightarrow> bf_fbitset_t" where
  "bf_fbs_destroy bs = bs\<lparr>fbs := J1FA (fbs bs)\<rparr>"

section \<open>Well-formed sets and runs of clear bits\<close>

definition fbs_inv :: "bf_fbitset_t \<Rightarrow> bool" where
  "fbs_inv bs \<longleftrightarrow> j1_ok (fbs bs) \<and> (\<forall>x \<in> set (fbs bs). x < fbs_width bs) \<and> fbs_width bs \<le> 2 ^ 31"

definition clr_run :: "bf_fbitset_t \<Rightarrow> nat \<Rightarrow> nat \<Rightarrow> bool" where
  "clr_run bs count p \<longleftrightarrow> (\<forall>j < count. p + j \<notin> set (fbs bs))"

lemma clr_runI: "(\<And>x. p \<le> x \<Longrightarrow> x < p + count \<Longrightarrow> x \<notin> set (fbs bs)) \<Longrightarrow> clr_run bs count p"
  by (simp add: clr_run_def)

lemma clr_runD: "clr_run bs count p \<Longrightarrow> p \<le> x \<Longrightarrow> x < p + count \<Longrightarrow> x \<notin> set (fbs bs)"
  unfolding clr_run_def by (metis le_Suc_ex nat_add_left_cancel_less)

lemma prev_clr_loop_spec:
  assumes "fbs_inv bs" "0 < count" "n \<le> fbs_width bs" "f < n" "f \<notin> set (fbs bs)"
    and "\<And>p. p + count \<le> n \<Longrightarrow> f + 1 < p + count \<Longrightarrow> \<not> clr_run bs count p"
  shows "prev_clr_loop E (fbs bs) count f f = pos_of (find (clr_run bs count) (rev [0..<n + 1 - count]))"
  using assms(4-)
proof (induction f rule: less_induct)
  case (less f)
  have ok: "j1_ok (fbs bs)" and w: "n \<le> 2 ^ 31" "f < 2 ^ 31" using assms(1,3) less.prems(1) by (auto simp: fbs_inv_def)
  have f64: "f + 1 < W64" using w by (simp add: W64_def)
  define l where "l = (case j1_prev (fbs bs) f of None \<Rightarrow> 0 | Some k \<Rightarrow> k + 1)"
  have l: "l \<le> f" "\<forall>x. l \<le> x \<and> x \<le> f \<longrightarrow> x \<notin> set (fbs bs)" "l = 0 \<or> l - 1 \<in> set (fbs bs)"
  proof -
    show "l \<le> f" using j1_present.prev_Some [OF ok] by (auto simp: l_def Suc_le_eq split: option.splits)
    show "l = 0 \<or> l - 1 \<in> set (fbs bs)" using j1_present.prev_Some [OF ok] by (auto simp: l_def split: option.splits)
    show "\<forall>x. l \<le> x \<and> x \<le> f \<longrightarrow> x \<notin> set (fbs bs)"
      using j1_present.prev_Some [OF ok, of f] j1_present.prev_None [OF ok, of f] less.prems(2)
      by (auto simp: l_def Suc_le_eq le_less split: option.splits)
  qed
  have step: "prev_clr_loop E (fbs bs) count f f =
     (if f + 1 - l \<ge> count then s32 (sub64 (f + 1) count) else
      case j1_prev_empty (fbs bs) l of None \<Rightarrow> - 1 | Some g \<Rightarrow> prev_clr_loop E (fbs bs) count g g)"
    using l(1) f64
    by (subst prev_clr_loop.simps) (auto simp: J1P_def J1PE_def l_def Let_def sub64_id split: option.splits)
  show ?case
  proof (cases "count \<le> f + 1 - l")
    case True
    have run: "clr_run bs count (f + 1 - count)" using True l(1,2) by (intro clr_runI) auto
    have "find (clr_run bs count) (rev [0..<n + 1 - count]) = Some (f + 1 - count)"
      unfolding find_rev_upt
    proof (intro conjI allI impI)
      fix q assume q: "f + 1 - count < q \<and> q < n + 1 - count"
      then show "\<not> clr_run bs count q" using less.prems(1) True by (intro less.prems(3)) auto
    qed (use run True less.prems(1) in auto)
    moreover have "s32 (sub64 (f + 1) count) = int (f + 1 - count)"
      using True f64 w assms(2) by (simp add: sub64_id s32_id)
    ultimately show ?thesis using step True by simp
  next
    case False
    have none: "\<not> clr_run bs count p" if p: "p + count \<le> n" "l < p + count" for p
    proof (cases "f + 1 < p + count")
      case True
      then show ?thesis using p less.prems(3) by blast
    next
      case False
      with \<open>\<not> count \<le> f + 1 - l\<close> have "p < l" by linarith
      moreover from this l(3) have "l - 1 \<in> set (fbs bs)" by simp
      moreover have "p \<le> l - 1" "l - 1 < p + count" using p \<open>p < l\<close> by auto
      ultimately show ?thesis using clr_runD by blast
    qed
    show ?thesis
    proof (cases "j1_prev_empty (fbs bs) l")
      case None
      have all: "x \<in> set (fbs bs)" if "x < l" for x using j1_absent.prev_None [OF ok None that] by simp
      have "\<not> clr_run bs count p" if p: "p + count \<le> n" for p
      proof (cases "l < p + count")
        case False
        then have "p \<in> set (fbs bs)" using all assms(2) by simp
        then show ?thesis using clr_runD [of bs count p p] assms(2) by auto
      qed (use none p in blast)
      then have "find (clr_run bs count) (rev [0..<n + 1 - count]) = None" using assms(2) by (auto simp: find_None_all)
      then show ?thesis using step False None by simp
    next
      case (Some g)
      from j1_absent.prev_Some [OF ok Some] have g: "g < l" "g \<notin> set (fbs bs)"
        "\<forall>j. g < j \<and> j < l \<longrightarrow> j \<in> set (fbs bs)" by auto
      have "prev_clr_loop E (fbs bs) count g g = pos_of (find (clr_run bs count) (rev [0..<n + 1 - count]))"
      proof (rule less.IH)
        show "g < f" "g < n" "g \<notin> set (fbs bs)" using g l(1) less.prems(1) by auto
        fix p assume p: "p + count \<le> n" "g + 1 < p + count"
        show "\<not> clr_run bs count p"
        proof (cases "l < p + count")
          case False
          with p have "g < p + count - 1" "p + count - 1 < l" using assms(2) by auto
          then have "p + count - 1 \<in> set (fbs bs)" using g(3) by blast
          moreover have "p \<le> p + count - 1" "p + count - 1 < p + count" using assms(2) by simp_all
          ultimately show ?thesis using clr_runD by blast
        qed (use none p in blast)
      qed
      then show ?thesis using step False Some by simp
    qed
  qed
qed

lemma first_clr_loop_spec:
  assumes "fbs_inv bs" "0 < count" "i \<le> f" "f \<notin> set (fbs bs)"
    and "\<And>p. i \<le> p \<Longrightarrow> p < f \<Longrightarrow> p + count \<le> fbs_width bs \<Longrightarrow> \<not> clr_run bs count p"
  shows "first_clr_loop E bs count f f = pos_of (find (clr_run bs count) [i..<fbs_width bs + 1 - count])"
  using assms(3-)
proof (induction "fbs_width bs - f" arbitrary: f rule: less_induct)
  case less
  have ok: "j1_ok (fbs bs)" and below: "\<forall>x \<in> set (fbs bs). x < fbs_width bs" and w: "fbs_width bs \<le> 2 ^ 31"
    using assms(1) by (auto simp: fbs_inv_def)
  have w64: "fbs_width bs < W64" using w by (simp add: W64_def)
  show ?case
  proof (cases "f < fbs_width bs")
    case False
    then have "find (clr_run bs count) [i..<fbs_width bs + 1 - count] = None"
      using less.prems(3) assms(2) by (auto simp: find_None_all)
    with False show ?thesis by (simp add: first_clr_loop.simps)
  next
    case True
    define l where "l = (case j1_next (fbs bs) f of None \<Rightarrow> fbs_width bs - 1 | Some k \<Rightarrow> k - 1)"
    have lf: "f \<le> l" using True j1_present.next_Some [OF ok, of f] by (fastforce simp: l_def split: option.splits)
    have lw: "l < fbs_width bs"
      using True j1_present.next_Some [OF ok, of f] below by (fastforce simp: l_def split: option.splits)
    have clr: "x \<notin> set (fbs bs)" if "f \<le> x" "x \<le> l" for x
    proof (cases "x = f")
      case False
      with that have "f < x" by simp
      with that show ?thesis
        using j1_present.next_Some [OF ok, of f] j1_present.next_None [OF ok, of f x] w64 lw
        by (fastforce simp: l_def split: option.splits)
    qed (use less.prems(2) in simp)
    have end_set: "l + 1 = fbs_width bs \<or> l + 1 \<in> set (fbs bs)"
      using True j1_present.next_Some [OF ok, of f] by (fastforce simp: l_def split: option.splits)
    have step: "first_clr_loop E bs count f f =
       (if l + 1 - f \<ge> count then s32 f else
        case j1_next_empty (fbs bs) l of None \<Rightarrow> - 1 | Some g \<Rightarrow> first_clr_loop E bs count g g)"
      using True lf lw w64
      by (subst first_clr_loop.simps) (auto simp: J1N_def J1NE_def l_def Let_def sub64_id split: option.splits)
    show ?thesis
    proof (cases "count \<le> l + 1 - f")
      case c: True
      then have "clr_run bs count f" using clr by (intro clr_runI) auto
      then have "find (clr_run bs count) [i..<fbs_width bs + 1 - count] = Some f"
        unfolding find_upt using less.prems c lw assms(2) lf by (auto simp: less_diff_conv)
      then show ?thesis using step c True w by (simp add: s32_id)
    next
      case c: False
      have none: "\<not> clr_run bs count p" if p: "f \<le> p" "p \<le> l" "p + count \<le> fbs_width bs" for p
      proof -
        have "l + 1 < p + count" using c p by linarith
        with end_set p have "l + 1 \<in> set (fbs bs)" by auto
        then show ?thesis using clr_runD [of bs count p "l + 1"] \<open>l + 1 < p + count\<close> p by auto
      qed
      have upto: "\<not> clr_run bs count p" if "i \<le> p" "p \<le> l" "p + count \<le> fbs_width bs" for p
        using that none less.prems(3) by (cases "f \<le> p") auto
      show ?thesis
      proof (cases "j1_next_empty (fbs bs) l")
        case None
        have "fbs_width bs \<in> set (fbs bs)" using j1_absent.next_None [OF ok None lw w64] by simp
        with below show ?thesis by blast
      next
        case (Some g)
        from j1_absent.next_Some [OF ok Some] have g: "l < g" "g \<notin> set (fbs bs)"
          "\<forall>j. l < j \<and> j < g \<longrightarrow> j \<in> set (fbs bs)" by auto
        have "first_clr_loop E bs count g g = pos_of (find (clr_run bs count) [i..<fbs_width bs + 1 - count])"
        proof (rule less.hyps)
          show "fbs_width bs - g < fbs_width bs - f" "i \<le> g" "g \<notin> set (fbs bs)" using g lf True less.prems(1) by auto
          fix p assume p: "i \<le> p" "p < g" "p + count \<le> fbs_width bs"
          show "\<not> clr_run bs count p"
          proof (cases "p \<le> l")
            case False
            with p g(3) have "p \<in> set (fbs bs)" by simp
            then show ?thesis using clr_runD [of bs count p p] assms(2) by auto
          qed (use upto p in blast)
        qed
        then show ?thesis using step c Some by simp
      qed
    qed
  qed
qed

section \<open>Properties\<close>

lemma fbs_free_at_width: "fbs_inv bs \<Longrightarrow> fbs_width bs \<notin> set (fbs bs) \<and> fbs_width bs < W64"
  by (auto simp: fbs_inv_def W64_def)

lemma clr_run_past:
  assumes "\<forall>j. f < j \<and> j < n \<longrightarrow> j \<in> set (fbs bs)" "0 < count" "p + count \<le> n" "f + 1 < p + count"
  shows "\<not> clr_run bs count p"
proof -
  have "f < p + count - 1" "p + count - 1 < n" using assms(2-4) by linarith+
  then have "p + count - 1 \<in> set (fbs bs)" using assms(1) by blast
  moreover have "p \<le> p + count - 1" "p + count - 1 < p + count" using assms(2) by simp_all
  ultimately show ?thesis using clr_runD by blast
qed

lemma prev_clr_small:
  assumes "fbs_inv bs" "0 < count" "position \<le> int (fbs_width bs)" "position \<le> 0 \<or> nat position < count"
  shows "bf_fbs_prev_clr_contiguous E bs position count = Inr (- 1)"
proof -
  have "u32_of_int position = nat position" if "0 < position"
    using that assms(1,3) by (intro u32_of_int_id) (auto simp: fbs_inv_def W32_def)
  moreover have "u32_of_int (position - 1) = nat (position - 1)" if "0 < position"
    using that assms(1,3) by (intro u32_of_int_id) (auto simp: fbs_inv_def W32_def)
  moreover have "nat (position - 1) < fbs_width bs" if "0 < position" using that assms(3) by linarith
  ultimately show ?thesis using assms(2-4) by (auto simp: bf_fbs_prev_clr_contiguous_def)
qed

lemma prev_clr_start:
  assumes "fbs_inv bs" "0 < count" "0 < n" "n \<le> fbs_width bs" "count \<le> n"
  shows "bf_fbs_prev_clr_contiguous E bs (int n) count =
     (case j1_last_empty (fbs bs) (n - 1) of None \<Rightarrow> Inr (- 1)
      | Some f \<Rightarrow> if count = 1 then Inr (s32 f) else Inr (prev_clr_loop E (fbs bs) count f f))"
proof -
  have "n \<le> 2 ^ 31" using assms(1,4) by (simp add: fbs_inv_def)
  then have conv: "u32_of_int (int n - 1) = n - 1" "u32_of_int (int n - 1 + 1) = n" "u64_of_int (int n - 1) = n - 1"
    using assms(3) by (simp_all add: u32_of_int_id u64_of_int_id W32_def W64_def nat_diff_distrib)
  then show ?thesis using assms(2-5) less_le_trans [of "n - 1" n "fbs_width bs"]
    by (cases "j1_last_empty (fbs bs) (n - 1)") (simp_all add: bf_fbs_prev_clr_contiguous_def J1LE_def not_le)
qed

text \<open>C18: \<open>bf_fbs_prev_clr_contiguous\<close> returns the greatest position from which \<open>count\<close> clear
  bits lie below \<open>position\<close>, and -1 exactly when there is none.\<close>

theorem fbs_prev_clr_contiguous_greatest:
  assumes "fbs_inv bs" "0 < count" "position \<le> int (fbs_width bs)"
  shows "bf_fbs_prev_clr_contiguous E bs position count =
    Inr (pos_of (find (clr_run bs count) (rev [0..<nat position + 1 - count])))"
proof (cases "position \<le> 0 \<or> nat position < count")
  case True
  then have "find (clr_run bs count) (rev [0..<nat position + 1 - count]) = None" using assms(2) by (auto simp: find_None_all)
  then show ?thesis using prev_clr_small [OF assms True] by simp
next
  case False
  define n where "n = nat position"
  have n: "position = int n" "0 < n" "n \<le> fbs_width bs" "n \<le> 2 ^ 31" "count \<le> n"
    using False assms by (auto simp: n_def fbs_inv_def)
  note go = prev_clr_start [OF assms(1,2) n(2,3,5), of E]
  show ?thesis
  proof (cases "j1_last_empty (fbs bs) (n - 1)")
    case None
    have "x \<in> set (fbs bs)" if "x < n" for x using j1_last_empty_None [OF None, of x] that by simp
    then have "\<not> clr_run bs count p" if "p + count \<le> n" for p
      using clr_runD [of bs count p p] that assms(2) by auto
    then have "find (clr_run bs count) (rev [0..<n + 1 - count]) = None" using assms(2) by (auto simp: find_None_all)
    then show ?thesis using go None n(1) by simp
  next
    case (Some f)
    then have f: "f < n" "f \<notin> set (fbs bs)" "\<forall>j. f < j \<and> j < n \<longrightarrow> j \<in> set (fbs bs)"
      using j1_last_empty_Some [OF Some] n(2) by auto
    note no = clr_run_past [OF f(3) assms(2)]
    show ?thesis
    proof (cases "count = 1")
      case True
      have "find (clr_run bs 1) (rev [0..<n]) = Some f"
        unfolding find_rev_upt using f by (auto simp: clr_run_def)
      moreover have "s32 f = int f" using f(1) n(4) by (simp add: s32_id)
      ultimately show ?thesis using go Some True n(1) by simp
    next
      case False
      then show ?thesis using go Some prev_clr_loop_spec [OF assms(1,2) n(3) f(1,2) no] n(1) by simp
    qed
  qed
qed

lemma first_clr_start:
  assumes "fbs_inv bs" "0 < count" "- 1 \<le> position" "position < 2 ^ 31 - 1"
  shows "bf_fbs_first_clr_contiguous E bs position count =
     (if add32 (nat (position + 1)) count > fbs_width bs then Inr (- 1) else
      case j1_first_empty (fbs bs) (nat (position + 1)) of None \<Rightarrow> Inr (- 1)
      | Some f \<Rightarrow> if f \<ge> fbs_width bs then Inr (- 1) else
          if count = 1 then Inr (s32 f) else Inr (first_clr_loop E bs count f f))"
proof -
  define i where "i = nat (position + 1)"
  have i: "position + 1 = int i" "i < 2 ^ 31" using assms(3,4) by (auto simp: i_def)
  have conv: "inc_int position = Inr (int i)" "u32_of_int (int i) = i" "u64_of_int (int i) = i"
    using i assms(4) by (simp_all add: inc_int_def u32_of_int_id u64_of_int_id W32_def W64_def)
  then show ?thesis
    using assms(2) by (simp add: bf_fbs_first_clr_contiguous_def J1FE_def i_def [symmetric] split: option.splits)
qed

lemma no_room: "fbs_width bs < i + count \<Longrightarrow> find (clr_run bs count) [i..<fbs_width bs + 1 - count] = None"
  by (auto simp: find_None_all)

lemma first_clr_at:
  assumes "0 < count" "i \<le> f" "f \<notin> set (fbs bs)" "\<forall>j. i \<le> j \<and> j < f \<longrightarrow> j \<in> set (fbs bs)" "fbs_width bs \<le> f \<or> count = 1"
  shows "find (clr_run bs count) [i..<fbs_width bs + 1 - count] = (if fbs_width bs \<le> f then None else Some f)"
proof -
  have no: "\<not> clr_run bs count p" if "i \<le> p" "p < f" for p
    using clr_runD [of bs count p p] assms(1,4) that by auto
  show ?thesis
  proof (cases "fbs_width bs \<le> f")
    case True
    then show ?thesis using no assms(1) by (auto simp: find_None_all)
  next
    case False
    with assms(5) have "count = 1" by simp
    then have "find (clr_run bs count) [i..<fbs_width bs + 1 - count] = Some f"
      unfolding find_upt using False assms(2,3) no by (auto simp: clr_run_def)
    with False show ?thesis by simp
  qed
qed

text \<open>C19: \<open>bf_fbs_first_clr_contiguous\<close> returns the least position above \<open>position\<close> from which
  \<open>count\<close> bits within the width are clear, and -1 exactly when there is none, also when
  \<open>position + count\<close> wraps around.\<close>

theorem fbs_first_clr_contiguous_least:
  assumes "fbs_inv bs" "0 < count" "- 1 \<le> position" "position < 2 ^ 31 - 1"
  shows "bf_fbs_first_clr_contiguous E bs position count =
    Inr (pos_of (find (clr_run bs count) [nat (position + 1)..<fbs_width bs + 1 - count]))"
proof -
  define i where "i = nat (position + 1)"
  have ok: "j1_ok (fbs bs)" and w: "fbs_width bs \<le> 2 ^ 31" using assms(1) by (auto simp: fbs_inv_def)
  note go = first_clr_start [OF assms, of E, folded i_def]
  show ?thesis
  proof (cases "add32 i count > fbs_width bs")
    case True
    moreover have "add32 i count \<le> i + count" by (simp add: add32_def)
    ultimately show ?thesis using go no_room [of bs i count] by (simp add: i_def [symmetric])
  next
    case fits: False
    show ?thesis
    proof (cases "j1_first_empty (fbs bs) i")
      case None
      have "\<not> i \<le> fbs_width bs"
        using j1_absent.first_None [OF ok None, of "fbs_width bs"] fbs_free_at_width [OF assms(1)] by auto
      then show ?thesis using go fits None no_room [of bs i count] by (simp add: i_def [symmetric])
    next
      case (Some f)
      from j1_absent.first_Some [OF ok Some] have f: "i \<le> f" "f \<notin> set (fbs bs)"
        "\<forall>j. i \<le> j \<and> j < f \<longrightarrow> j \<in> set (fbs bs)" by auto
      have no: "\<not> clr_run bs count p" if "i \<le> p" "p < f" for p
        using clr_runD [of bs count p p] f(3) that assms(2) by auto
      show ?thesis
      proof (cases "fbs_width bs \<le> f \<or> count = 1")
        case True
        moreover have "s32 f = int f" if "\<not> fbs_width bs \<le> f" using that w by (simp add: s32_id)
        ultimately show ?thesis using go fits Some first_clr_at [OF assms(2) f True] by (auto simp: i_def [symmetric])
      next
        case False
        then show ?thesis
          using go fits Some first_clr_loop_spec [OF assms(1,2) f(1,2) no] by (simp add: i_def [symmetric])
      qed
    qed
  qed
qed

text \<open>\<open>bf_fbs_first_set\<close> returns the least position above \<open>position\<close> whose bit is set, and
  -1 exactly when there is none.\<close>

lemma fbs_first_set_least:
  assumes "fbs_inv bs" "- 1 \<le> position" "position < 2 ^ 31 - 1"
  shows "bf_fbs_first_set E bs position =
    Inr (pos_of (find (\<lambda>p. p \<in> set (fbs bs)) [nat (position + 1)..<fbs_width bs]))"
proof -
  define i where "i = nat (position + 1)"
  have i: "position + 1 = int i" "i < 2 ^ 31" using assms(2,3) by (auto simp: i_def)
  have conv: "inc_int position = Inr (int i)" "u32_of_int (int i) = i" "u64_of_int (int i) = i"
    using i assms(3) by (simp_all add: inc_int_def u32_of_int_id u64_of_int_id W32_def W64_def)
  have ok: "j1_ok (fbs bs)" and w: "fbs_width bs \<le> 2 ^ 31" and below: "\<forall>x \<in> set (fbs bs). x < fbs_width bs"
    using assms(1) by (auto simp: fbs_inv_def)
  show ?thesis
  proof (cases "j1_first (fbs bs) i")
    case None
    have "x \<notin> set (fbs bs)" if "i \<le> x" for x
      using j1_present.first_None [OF ok None that] below fbs_free_at_width [OF assms(1)] by force
    then have "find (\<lambda>p. p \<in> set (fbs bs)) [i..<fbs_width bs] = None" by (auto simp: find_None_all)
    then show ?thesis using conv None by (simp add: bf_fbs_first_set_def J1F_def i_def [symmetric])
  next
    case (Some k)
    from j1_present.first_Some [OF ok Some] have k: "i \<le> k" "k \<in> set (fbs bs)" "\<forall>j. i \<le> j \<and> j < k \<longrightarrow> j \<notin> set (fbs bs)" by auto
    then have f: "find (\<lambda>p. p \<in> set (fbs bs)) [i..<fbs_width bs] = Some k"
      unfolding find_upt using below by auto
    moreover have "\<not> i > fbs_width bs" "s32 k = int k" using k below w by (force, force intro: s32_id)
    ultimately show ?thesis using conv Some by (simp add: bf_fbs_first_set_def J1F_def i_def [symmetric])
  qed
qed

text \<open>Starting from \<open>bf_fbs_init\<close>, a set keeps its invariant: \<open>bf_fbs_set\<close> returns the old value
  of the bit, and afterwards \<open>bf_fbs_get\<close> reads the new value there and the old ones elsewhere.\<close>

lemma fbs_set_get:
  assumes "quiet E" "fbs_inv bs" "0 \<le> position" "position < int (fbs_width bs)" "val \<in> {0, 1}"
  shows "\<exists>bs'. bf_fbs_set E bs position val = Inr (nat position \<in> set (fbs bs), bs') \<and>
    fbs_inv bs' \<and> fbs_width bs' = fbs_width bs \<and>
    (\<forall>q < fbs_width bs. bf_fbs_get E bs' (int q) =
       (if int q = position then Inr (val = 1) else bf_fbs_get E bs (int q)))"
proof -
  define i where "i = nat position"
  have i: "position = int i" "i < fbs_width bs" "fbs_width bs \<le> 2 ^ 31" using assms by (auto simp: i_def fbs_inv_def)
  have conv: "u32_of_int (int q) = q" "u64_of_int (int q) = q" if "q < fbs_width bs" for q
    using that i(3) by (simp_all add: u32_of_int_id u64_of_int_id W32_def W64_def)
  have ok: "j1_ok (fbs bs)" using assms(2) by (simp add: fbs_inv_def)
  define bs' where "bs' = bs\<lparr>fbs := (if val = 1 then j1_put i (fbs bs) else remove1 i (fbs bs))\<rparr>"
  have "bf_fbs_set E bs position val = Inr (i \<in> set (fbs bs), bs')"
    using assms(1,5) i conv [OF i(2)]
    by (auto simp: bf_fbs_set_def J1S_def J1U_def bs'_def j1_put_def remove1_idem)
  moreover have "fbs_inv bs'" using assms(2) i ok fbs_free_at_width [OF assms(2)]
    by (auto simp: fbs_inv_def bs'_def j1_ok_put j1_ok_remove set_j1_remove)
  moreover have "bf_fbs_get E bs' (int q) = (if int q = position then Inr (val = 1) else bf_fbs_get E bs (int q))"
    if "q < fbs_width bs" for q
    using that i conv [OF that] assms(5) ok by (auto simp: bf_fbs_get_def J1T_def bs'_def set_j1_remove)
  ultimately show ?thesis by (intro exI [of _ bs']) (simp add: bs'_def i_def)
qed

text \<open>An insertion that Judy cannot make (JERR) looks like one that found the bit clear, and is lost.\<close>

lemma fbs_set_no_memory:
  assumes "j1_err E JIns (fbs bs) (u64_of_int position)" "0 \<le> position" "position < int (fbs_width bs)" "fbs_width bs < W32"
  shows "bf_fbs_set E bs position 1 = Inr (False, bs)"
proof -
  have "u32_of_int position < fbs_width bs" using assms(2-4) by (subst u32_of_int_id) auto
  with assms show ?thesis by (simp add: bf_fbs_set_def J1S_def)
qed

section \<open>Concrete cases\<close>

definition fbs_ex :: bf_fbitset_t where
  "fbs_ex = \<lparr>fbs_width = 10, fbs = [1, 4, 5, 9]\<rparr>"

lemma fbs_ex_inv: "fbs_inv fbs_ex"
  by (simp add: fbs_inv_def fbs_ex_def j1_ok_def W64_def)

lemma fbs_prev_clr_contiguous_greatest_witness:
  "bf_fbs_prev_clr_contiguous env0 fbs_ex 9 2 = Inr (pos_of (find (clr_run fbs_ex 2) (rev [0..<nat 9 + 1 - 2]))) \<and>
    find (clr_run fbs_ex 2) (rev [0..<nat 9 + 1 - 2]) = Some 7"
  using fbs_prev_clr_contiguous_greatest [OF fbs_ex_inv, of 2 9 env0]
  by (simp add: fbs_ex_def clr_run_def find_rev_upt less_Suc_eq numeral_2_eq_2)

lemma fbs_first_clr_contiguous_least_witness:
  "bf_fbs_first_clr_contiguous env0 fbs_ex (- 1) 3 = Inr (pos_of (find (clr_run fbs_ex 3) [nat (- 1 + 1)..<fbs_width fbs_ex + 1 - 3]))"
  using fbs_first_clr_contiguous_least [OF fbs_ex_inv, of 3 "- 1" env0] by simp

lemma fbs_first_set_least_witness:
  "bf_fbs_first_set env0 fbs_ex 1 = Inr (pos_of (find (\<lambda>p. p \<in> set (fbs fbs_ex)) [nat (1 + 1)..<fbs_width fbs_ex]))"
  by (rule fbs_first_set_least [OF fbs_ex_inv]) simp_all

lemma fbs_set_get_witness:
  "\<exists>bs'. bf_fbs_set env0 fbs_ex 4 0 = Inr (nat 4 \<in> set (fbs fbs_ex), bs') \<and>
    fbs_inv bs' \<and> fbs_width bs' = fbs_width fbs_ex \<and>
    (\<forall>q < fbs_width fbs_ex. bf_fbs_get env0 bs' (int q) =
       (if int q = 4 then Inr (0 = (1 :: int)) else bf_fbs_get env0 fbs_ex (int q)))"
  by (rule fbs_set_get [OF _ fbs_ex_inv]) (simp_all add: fbs_ex_def)

end
