(* ===== verification/Bitset.thy ===== *)
theory Bitset
  imports Prelude Judy "HOL-Library.Word" "HOL-Library.Signed_Division"
begin

unbundle bit_operations_syntax

text \<open>
  src/bitset/bitset.c: a bit set in an array of 64-bit words that the caller provides. A
  \<open>bf_bitset_t\<close> is its width and the words of the array; reading or writing outside the array is
  \<open>Bad_access\<close>, shifting by less than 0 or more than 63 is \<open>Undefined_shift\<close>. Every function is
  modelled; the two sets of \<open>bf_bs_copy\<close> and \<open>bf_bs_copy_range\<close> do not share their arrays.
  The pointers to sets and words that the functions take are not NULL, so that their assertions on them hold.
  Array indexes are \<open>int\<close> here because the C code divides \<open>int\<close> positions (\<open>sdiv\<close>, \<open>smod\<close>).
\<close>

record bf_bitset_t =
  bs_width :: nat
  bs :: "64 word list"

text \<open>Reading and writing \<open>a[i]\<close>, shifting a \<open>uint64_t\<close>.\<close>

definition rd :: "64 word list \<Rightarrow> int \<Rightarrow> 64 word res" where
  "rd a i = (if 0 \<le> i \<and> i < int (length a) then Inr (a ! nat i) else Inl Bad_access)"

definition wr :: "64 word list \<Rightarrow> int \<Rightarrow> 64 word \<Rightarrow> 64 word list res" where
  "wr a i w = (if 0 \<le> i \<and> i < int (length a) then Inr (a[nat i := w]) else Inl Bad_access)"

definition upd :: "64 word list \<Rightarrow> int \<Rightarrow> (64 word \<Rightarrow> 64 word) \<Rightarrow> 64 word list res" where
  "upd a i f = bnd (rd a i) (\<lambda>w. wr a i (f w))"

definition shl64 :: "64 word \<Rightarrow> int \<Rightarrow> 64 word res" where
  "shl64 w k = (if 0 \<le> k \<and> k < 64 then Inr (push_bit (nat k) w) else Inl Undefined_shift)"

definition shr64 :: "64 word \<Rightarrow> int \<Rightarrow> 64 word res" where
  "shr64 w k = (if 0 \<le> k \<and> k < 64 then Inr (drop_bit (nat k) w) else Inl Undefined_shift)"

text \<open>The compiler builtins: one plus the index of the least set bit (0 for 0), number of set bits.\<close>

definition builtin_ffsll :: "64 word \<Rightarrow> nat" where
  "builtin_ffsll w = (case find (bit w) [0..<64] of None \<Rightarrow> 0 | Some k \<Rightarrow> k + 1)"

definition builtin_popcountll :: "64 word \<Rightarrow> nat" where
  "builtin_popcountll w = length (filter (bit w) [0..<64])"

section \<open>The functions\<close>

definition bs_length :: "bf_bitset_t \<Rightarrow> nat" where
  "bs_length b = add32 (bs_width b) 63 div 64"

definition bf_bs_init :: "env \<Rightarrow> bf_bitset_t \<Rightarrow> int \<Rightarrow> 64 word list \<Rightarrow> bf_bitset_t res" where
  "bf_bs_init E b width m =
     bnd (c_assert E (width > 0)) (\<lambda>_. Inr (b\<lparr>bs := m, bs_width := u32_of_int width\<rparr>))"

text \<open>The declaration macro: an array of zeros of the size that \<open>BF_BITSET_ARRAY_SIZE\<close> computes, then
  \<open>bf_bs_init\<close>. The width is an \<open>int\<close>.\<close>

definition BF_BITSET_ARRAY_SIZE :: "int \<Rightarrow> int res" where
  "BF_BITSET_ARRAY_SIZE width =
     (if width + (64 - 1) > 2147483647 then Inl Signed_overflow else Inr ((width + (64 - 1)) div 64))"

definition BF_BITSET :: "env \<Rightarrow> bf_bitset_t \<Rightarrow> int \<Rightarrow> bf_bitset_t res" where
  "BF_BITSET E var width =
     bnd (BF_BITSET_ARRAY_SIZE width) (\<lambda>n. bf_bs_init E var width (replicate (nat n) 0))"

definition pos_asserts :: "env \<Rightarrow> bf_bitset_t \<Rightarrow> int \<Rightarrow> unit res" where
  "pos_asserts E b position =
     bnd (c_assert E (position \<ge> 0)) (\<lambda>_. c_assert E (u32_of_int position < bs_width b))"

definition bf_bs_set :: "env \<Rightarrow> bf_bitset_t \<Rightarrow> int \<Rightarrow> int \<Rightarrow> (bool \<times> bf_bitset_t) res" where
  "bf_bs_set E b position val =
     bnd (pos_asserts E b position) (\<lambda>_.
     if position < 0 \<or> u32_of_int position \<ge> bs_width b then Inr (False, b) else
     let idx = position div 64; shift = position mod 64; tmp = push_bit (nat shift) 1 in
     bnd (rd (bs b) idx) (\<lambda>w.
     let prev = w AND tmp \<noteq> 0 in
     if val \<noteq> 0 \<and> \<not> prev then bnd (wr (bs b) idx (w OR tmp)) (\<lambda>a. Inr (prev, b\<lparr>bs := a\<rparr>))
     else if val = 0 \<and> prev then bnd (wr (bs b) idx (w AND NOT tmp)) (\<lambda>a. Inr (prev, b\<lparr>bs := a\<rparr>))
     else Inr (prev, b)))"

definition bf_bs_get :: "env \<Rightarrow> bf_bitset_t \<Rightarrow> int \<Rightarrow> bool res" where
  "bf_bs_get E b position =
     bnd (pos_asserts E b position) (\<lambda>_.
     if position < 0 \<or> u32_of_int position \<ge> bs_width b then Inr False else
     let idx = position div 64; shift = position mod 64 in
     bnd (rd (bs b) idx) (\<lambda>w. Inr (drop_bit (nat shift) w AND 1 \<noteq> 0)))"

definition top_word_mask :: "bf_bitset_t \<Rightarrow> 64 word" where
  "top_word_mask b = (let x = bs_width b mod 64 in if x \<noteq> 0 then push_bit x 1 - 1 else 0xFFFFFFFFFFFFFFFF)"

text \<open>\<open>bs->bs[len - 1] &= top_word_mask(bs)\<close>\<close>

definition mask_top :: "bf_bitset_t \<Rightarrow> bf_bitset_t res" where
  "mask_top b = bnd (upd (bs b) (int (sub64 (bs_length b) 1)) (\<lambda>w. w AND top_word_mask b)) (\<lambda>a. Inr (b\<lparr>bs := a\<rparr>))"

text \<open>\<open>memset\<close> of \<open>n\<close> whole words.\<close>

definition memset_words :: "64 word list \<Rightarrow> 64 word \<Rightarrow> nat \<Rightarrow> 64 word list res" where
  "memset_words a w n = (if n \<le> length a then Inr (replicate n w @ drop n a) else Inl Bad_access)"

definition bf_bs_set_all :: "env \<Rightarrow> bf_bitset_t \<Rightarrow> int \<Rightarrow> bf_bitset_t res" where
  "bf_bs_set_all E b val =
     (let len = bs_length b in
      if val = 1 then bnd (memset_words (bs b) 0xFFFFFFFFFFFFFFFF len) (\<lambda>a. mask_top (b\<lparr>bs := a\<rparr>))
      else if val = 0 then bnd (memset_words (bs b) 0 len) (\<lambda>a. Inr (b\<lparr>bs := a\<rparr>))
      else bnd (c_assert E (val = 1 \<or> val = 0)) (\<lambda>_. Inr b))"

text \<open>The search of \<open>bf_bs_first_set\<close> and \<open>bf_bs_first_clr\<close>: \<open>f\<close> is the identity or the
  complement. The result is converted from \<open>size_t\<close> to \<open>int\<close>.\<close>

definition search_loop :: "bf_bitset_t \<Rightarrow> (64 word \<Rightarrow> 64 word) \<Rightarrow> nat \<Rightarrow> nat \<Rightarrow> (int + unit) res" where
  "search_loop b f lo hi =
     for_loop lo hi (\<lambda>i _. bnd (rd (bs b) (int i)) (\<lambda>w.
       let x = builtin_ffsll (f w) in if x \<noteq> 0 then Inr (Inl (s32 (64 * i + x - 1))) else Inr (Inr ()))) ()"

definition search_words :: "bf_bitset_t \<Rightarrow> (64 word \<Rightarrow> 64 word) \<Rightarrow> int \<Rightarrow> (int \<times> bf_bitset_t) res" where
  "search_words b f position =
     (let len = bs_length b; i = nat (position div 64); shift = position mod 64 in
      bnd (mask_top b) (\<lambda>b.
      bnd (rd (bs b) (int i)) (\<lambda>w.
      let x = builtin_ffsll (drop_bit (nat shift) (f w)) in
      if x \<noteq> 0 then Inr (s32 (64 * i + x - 1 + nat shift), b) else
      if i = sub64 len 1 then Inr (- 1, b) else
      bnd (search_loop b f (i + 1) (sub64 len 1)) (\<lambda>c. case c of Inl r \<Rightarrow> Inr (r, b) | Inr _ \<Rightarrow>
      let i = max (i + 1) (sub64 len 1) in
      bnd (rd (bs b) (int i)) (\<lambda>w.
      let x = builtin_ffsll (f w) in
      if x \<noteq> 0 \<and> 64 * i + x - 1 < bs_width b then Inr (s32 (64 * i + x - 1), b) else Inr (- 1, b))))))"

definition bf_bs_first_set :: "env \<Rightarrow> bf_bitset_t \<Rightarrow> int \<Rightarrow> (int \<times> bf_bitset_t) res" where
  "bf_bs_first_set E b position =
     bnd (inc_int position) (\<lambda>position.
     bnd (c_assert E (position \<ge> 0)) (\<lambda>_.
     bnd (c_assert E (u32_of_int position \<le> bs_width b)) (\<lambda>_.
     if position < 0 \<or> u32_of_int position \<ge> bs_width b then Inr (- 1, b)
     else search_words b (\<lambda>w. w) position)))"

definition bf_bs_first_clr :: "env \<Rightarrow> bf_bitset_t \<Rightarrow> int \<Rightarrow> (int \<times> bf_bitset_t) res" where
  "bf_bs_first_clr E b position =
     bnd (inc_int position) (\<lambda>position.
     bnd (c_assert E (position \<ge> 0)) (\<lambda>_.
     bnd (c_assert E (u32_of_int position \<le> bs_width b)) (\<lambda>_.
     if position < 0 \<or> u32_of_int position \<ge> bs_width b then Inr (- 1, b)
     else search_words b (\<lambda>w. NOT w) position)))"

definition bf_bs_all_1s :: "bf_bitset_t \<Rightarrow> bool res" where
  "bf_bs_all_1s b =
     (let n = sub64 (bs_length b) 1 in
      bnd (for_loop 0 n (\<lambda>i _. bnd (rd (bs b) (int i)) (\<lambda>w. Inr (if w \<noteq> 0xFFFFFFFFFFFFFFFF then Inl False else Inr ()))) ()) (\<lambda>c.
      case c of Inl r \<Rightarrow> Inr r | Inr _ \<Rightarrow>
      bnd (rd (bs b) (int n)) (\<lambda>w.
      let left_over = bs_width b mod 64 in
      Inr (if left_over \<noteq> 0 then w = push_bit left_over 1 - 1 else w = 0xFFFFFFFFFFFFFFFF))))"

definition bf_bs_all_0s :: "bf_bitset_t \<Rightarrow> (bool \<times> bf_bitset_t) res" where
  "bf_bs_all_0s b =
     bnd (mask_top b) (\<lambda>b.
     bnd (for_loop 0 (bs_length b) (\<lambda>i _. bnd (rd (bs b) (int i)) (\<lambda>w. Inr (if w \<noteq> 0 then Inl False else Inr ()))) ()) (\<lambda>c.
     Inr (case c of Inl r \<Rightarrow> r | Inr _ \<Rightarrow> True, b)))"

text \<open>The tests of \<open>bf_bs_get_word\<close> and \<open>bf_bs_set_word\<close>, and the number of bits from
  \<open>position\<close> on that they use. Sums of an offset in the word and a size are exact.\<close>

definition word_asserts :: "env \<Rightarrow> bf_bitset_t \<Rightarrow> int \<Rightarrow> int \<Rightarrow> unit res" where
  "word_asserts E b position n =
     bnd (pos_asserts E b position) (\<lambda>_. bnd (c_assert E (n > 0)) (\<lambda>_. c_assert E (n \<le> 64)))"

definition clip :: "bf_bitset_t \<Rightarrow> int \<Rightarrow> int \<Rightarrow> int" where
  "clip b position n =
     (let left = sub32 (bs_width b) (u32_of_int position) in
      if left < u32_of_int n then s32 left else n)"

definition bf_bs_set_word :: "env \<Rightarrow> bf_bitset_t \<Rightarrow> int \<Rightarrow> int \<Rightarrow> 64 word \<Rightarrow> bf_bitset_t res" where
  "bf_bs_set_word E b position n val =
     bnd (word_asserts E b position n) (\<lambda>_.
     let n = clip b position n; mod_bit_offset = position smod 64; idx = position sdiv 64 in
     bnd (if n < 64
          then bnd (shl64 1 n) (\<lambda>one. bnd (shl64 (one - 1) mod_bit_offset) (\<lambda>m.
               bnd (upd (bs b) idx (\<lambda>w. w AND NOT m)) (\<lambda>a. Inr (val AND (one - 1), a))))
          else bnd (shl64 0xFFFFFFFFFFFFFFFF mod_bit_offset) (\<lambda>m.
               bnd (upd (bs b) idx (\<lambda>w. w AND NOT m)) (\<lambda>a. Inr (val, a)))) (\<lambda>(val, a).
     bnd (shl64 val mod_bit_offset) (\<lambda>v.
     bnd (upd a idx (\<lambda>w. w OR v)) (\<lambda>a.
     let spill = mod_bit_offset + n - 64 in
     if spill > 0 then
       bnd (shl64 1 spill) (\<lambda>one.
       bnd (upd a (idx + 1) (\<lambda>w. w AND NOT (one - 1))) (\<lambda>a.
       bnd (shr64 val (n - spill)) (\<lambda>v.
       bnd (upd a (idx + 1) (\<lambda>w. w OR v)) (\<lambda>a. Inr (b\<lparr>bs := a\<rparr>)))))
     else Inr (b\<lparr>bs := a\<rparr>)))))"

definition bf_bs_get_word :: "env \<Rightarrow> bf_bitset_t \<Rightarrow> int \<Rightarrow> int \<Rightarrow> 64 word res" where
  "bf_bs_get_word E b bit_offset n_bits =
     bnd (word_asserts E b bit_offset n_bits) (\<lambda>_.
     let n_bits = clip b bit_offset n_bits in
     bnd (rd (bs b) (bit_offset sdiv 64)) (\<lambda>word.
     let mod_bit_offset = bit_offset smod 64 in
     bnd (if mod_bit_offset \<noteq> 0 then
            bnd (shr64 word mod_bit_offset) (\<lambda>word.
            let spill = mod_bit_offset + n_bits - 64 in
            if spill > 0 then
              bnd (rd (bs b) (bit_offset sdiv 64 + 1)) (\<lambda>word2.
              bnd (shl64 word2 (n_bits - spill)) (\<lambda>v. Inr (word OR v)))
            else Inr word)
          else Inr word) (\<lambda>word.
     if n_bits < 64 then bnd (shl64 1 n_bits) (\<lambda>one. Inr (word AND (one - 1))) else Inr word)))"

definition bf_bs_equal :: "env \<Rightarrow> bf_bitset_t \<Rightarrow> bf_bitset_t \<Rightarrow> (bool \<times> bf_bitset_t \<times> bf_bitset_t) res" where
  "bf_bs_equal E x y =
     (if bs_width x \<noteq> bs_width y then Inr (False, x, y) else
      bnd (mask_top x) (\<lambda>x. bnd (mask_top y) (\<lambda>y.
      bnd (for_loop 0 (bs_length x) (\<lambda>i _.
        bnd (bf_bs_get_word E x (s32 (mul32 i 64)) 64) (\<lambda>xx.
        bnd (bf_bs_get_word E y (s32 (mul32 i 64)) 64) (\<lambda>yy.
        Inr (if xx \<noteq> yy then Inl False else Inr ())))) ()) (\<lambda>c.
      Inr (case c of Inl r \<Rightarrow> r | Inr _ \<Rightarrow> True, x, y)))))"

definition bf_bs_copy :: "env \<Rightarrow> bf_bitset_t \<Rightarrow> bf_bitset_t \<Rightarrow> bf_bitset_t res" where
  "bf_bs_copy E dst src =
     bnd (c_assert E (bs_width src = bs_width dst)) (\<lambda>_.
     let n = bs_width src div 64 in
     bnd (for_loop 0 n (\<lambda>i a. bnd (rd (bs src) (int i)) (\<lambda>w. bnd (wr a (int i) w) (\<lambda>a. Inr (Inr a)))) (bs dst)) (\<lambda>c.
     case c of Inl a \<Rightarrow> Inr (dst\<lparr>bs := a\<rparr>) | Inr a \<Rightarrow>
     bnd (rd (bs src) (int n)) (\<lambda>w.
     bnd (wr a (int n) (w AND (push_bit (bs_width src mod 64) 1 - 1))) (\<lambda>a. Inr (dst\<lparr>bs := a\<rparr>)))))"

definition bf_bs_copy_range ::
  "env \<Rightarrow> bf_bitset_t \<Rightarrow> nat \<Rightarrow> bf_bitset_t \<Rightarrow> nat \<Rightarrow> nat \<Rightarrow> bf_bitset_t res" where
  "bf_bs_copy_range E dst dst_offset src src_offset n_bits =
     bnd (c_assert E (bs_width src > sub32 (add32 src_offset n_bits) 1)) (\<lambda>_.
     bnd (c_assert E (bs_width dst > sub32 (add32 dst_offset n_bits) 1)) (\<lambda>_.
     let n = bs_width src div 64 in
     bnd (for_loop 0 n (\<lambda>i dst.
       bnd (bf_bs_get_word E src (s32 (src_offset + i * 64)) 64) (\<lambda>x.
       bnd (bf_bs_set_word E dst (s32 (dst_offset + i * 64)) 64 x) (\<lambda>dst. Inr (Inr dst)))) dst) (\<lambda>c.
     case c of Inl dst \<Rightarrow> Inr dst | Inr dst \<Rightarrow>
     bnd (bf_bs_get_word E src (s32 (src_offset + n * 64)) (int (n_bits mod 64))) (\<lambda>x.
     bf_bs_set_word E dst (s32 (dst_offset + n * 64)) (int (n_bits mod 64)) x))))"

definition bf_bs_pop_count :: "bf_bitset_t \<Rightarrow> (int \<times> bf_bitset_t) res" where
  "bf_bs_pop_count b =
     bnd (mask_top b) (\<lambda>b.
     bnd (for_loop 0 (bs_length b) (\<lambda>i cnt. bnd (rd (bs b) (int i)) (\<lambda>w.
       Inr (Inr (cnt + int (builtin_popcountll w))))) 0) (\<lambda>c.
     Inr (case c of Inl r \<Rightarrow> r | Inr cnt \<Rightarrow> cnt, b)))"

section \<open>Well-formed sets, bit by bit\<close>

text \<open>The array has the words that the width needs (it may be larger), and the bits of the last of
  them above the width are clear. A width comes from a positive \<open>int\<close>.\<close>

definition bs_words :: "bf_bitset_t \<Rightarrow> nat" where
  "bs_words b = (bs_width b + 63) div 64"

definition bs_shape :: "bf_bitset_t \<Rightarrow> bool" where
  "bs_shape b \<longleftrightarrow> 0 < bs_width b \<and> bs_width b < 2147483648 \<and> bs_words b \<le> length (bs b)"

definition bs_bit :: "bf_bitset_t \<Rightarrow> nat \<Rightarrow> bool" where
  "bs_bit b j = bit (bs b ! (j div 64)) (j mod 64)"

definition bs_inv :: "bf_bitset_t \<Rightarrow> bool" where
  "bs_inv b \<longleftrightarrow> bs_shape b \<and> (\<forall>j. bs_width b \<le> j \<and> j < 64 * bs_words b \<longrightarrow> \<not> bs_bit b j)"

lemma bs_length_eq: "bs_shape b \<Longrightarrow> bs_length b = bs_words b"
  by (simp add: bs_length_def bs_words_def bs_shape_def add32_id W32_def)

lemma all_ones_word: "(0xFFFFFFFFFFFFFFFF :: 64 word) = - 1"
  by simp

lemma one_shift_minus_1: "push_bit n 1 - 1 = (mask n :: 64 word)"
  by (simp add: mask_eq_exp_minus_1 push_bit_of_1)

lemma bit_top_word_mask: "bit (top_word_mask b) k \<longleftrightarrow> k < 64 \<and> (bs_width b mod 64 = 0 \<or> k < bs_width b mod 64)"
  by (simp add: top_word_mask_def one_shift_minus_1 Let_def bit_mask_iff all_ones_word del: push_bit_of_1)

lemma rd_ok [simp]: "i < length a \<Longrightarrow> rd a (int i) = Inr (a ! i)"
  by (simp add: rd_def)

lemma wr_ok [simp]: "i < length a \<Longrightarrow> wr a (int i) w = Inr (a[i := w])"
  by (simp add: wr_def)

lemma upd_ok [simp]: "i < length a \<Longrightarrow> upd a (int i) f = Inr (a[i := f (a ! i)])"
  by (simp add: upd_def)

lemma words_bound: "j < bs_width b \<Longrightarrow> j div 64 < bs_words b"
  by (simp add: bs_words_def)

lemma bs_shape_words: "bs_shape b \<Longrightarrow> j < bs_width b \<Longrightarrow> j div 64 < length (bs b)"
  using words_bound [of j b] by (simp add: bs_shape_def)

lemma bs_words_pos: "bs_shape b \<Longrightarrow> 0 < bs_words b"
  unfolding bs_words_def bs_shape_def by linarith

lemma bs_words_le: "bs_shape b \<Longrightarrow> bs_words b \<le> 33554432"
  unfolding bs_words_def bs_shape_def by linarith

lemma last_word: "bs_shape b \<Longrightarrow> sub64 (bs_length b) 1 = bs_words b - 1"
  using bs_words_pos [of b] bs_words_le [of b] by (simp add: bs_length_eq sub64_id W64_def)

lemma last_word_bits:
  assumes "0 < bs_width b" "k < 64"
  shows "64 * (bs_words b - 1) + k < bs_width b \<longleftrightarrow> bs_width b mod 64 = 0 \<or> k < bs_width b mod 64"
proof -
  define q r where "q = bs_width b div 64" and "r = bs_width b mod 64"
  have w: "bs_width b = 64 * q + r" "r < 64" by (simp_all add: q_def r_def)
  show ?thesis
  proof (cases "r = 0")
    case True
    then have "bs_words b = q" "0 < q" unfolding bs_words_def using assms(1) w by simp_all
    then show ?thesis using assms(2) w True unfolding r_def [symmetric] by simp
  next
    case False
    then have "bs_words b = q + 1" unfolding bs_words_def w(1) using w(2) by (intro div_nat_eqI) simp_all
    then show ?thesis using w False unfolding r_def [symmetric] by simp
  qed
qed

lemma bs_bit_word: "k < 64 \<Longrightarrow> bs_bit b (64 * i + k) = bit (bs b ! i) k"
  by (simp add: bs_bit_def)

lemma mask_top_inv: "bs_inv b \<Longrightarrow> mask_top b = Inr b"
proof -
  assume inv: "bs_inv b"
  then have sh: "bs_shape b" by (simp add: bs_inv_def)
  define n where "n = bs_words b - 1"
  have n: "n < length (bs b)" using sh bs_words_pos [OF sh] unfolding n_def bs_shape_def by linarith
  have "bs b ! n AND top_word_mask b = bs b ! n"
  proof (rule bit_eqI)
    fix k assume k: "possible_bit TYPE(64 word) k"
    then have k: "k < 64" by simp
    have "64 * n + k < 64 * bs_words b" using bs_words_pos [OF sh] k unfolding n_def by linarith
    then have "bit (bs b ! n) k \<longrightarrow> 64 * n + k < bs_width b"
      using inv bs_bit_word [OF k, of b n] unfolding bs_inv_def by (metis not_le)
    then show "bit (bs b ! n AND top_word_mask b) k = bit (bs b ! n) k"
      using last_word_bits [of b k] k sh by (auto simp: bit_and_iff bit_top_word_mask n_def bs_shape_def)
  qed
  with n show ?thesis unfolding mask_top_def last_word [OF sh] n_def [symmetric] by simp
qed

lemma bs_bit_upd: "i < length (bs b) \<Longrightarrow>
   bs_bit (b\<lparr>bs := (bs b)[i := w]\<rparr>) j = (if j div 64 = i then bit w (j mod 64) else bs_bit b j)"
  by (simp add: bs_bit_def)

lemma int_div_64: "int j div 64 = int (j div 64)" "int j mod 64 = int (j mod 64)"
  by (simp_all add: zdiv_int zmod_int)

lemma pos_asserts_ok: "bs_shape b \<Longrightarrow> j < bs_width b \<Longrightarrow> pos_asserts E b (int j) = Inr () \<and> u32_of_int (int j) = j"
  by (simp add: pos_asserts_def u32_of_int_id bs_shape_def W32_def)

lemma and_1_bit: "(drop_bit k w AND 1 \<noteq> 0) = bit (w :: 64 word) k"
  by (simp add: and_one_eq bit_iff_odd_drop_bit odd_iff_mod_2_eq_one)

lemma and_push_1: "(w AND push_bit k 1 \<noteq> 0) = (k < 64 \<and> bit (w :: 64 word) k)"
proof -
  have "bit (w AND push_bit k 1) j \<longleftrightarrow> j = k \<and> j < 64 \<and> bit w j" for j
    by (auto simp: bit_simps)
  then show ?thesis by (metis bit_0_eq bit_eq_iff zero_word_def bot_apply bot_bool_def possible_bit_word)
qed

section \<open>Searching\<close>

lemma ffsll_0: "builtin_ffsll w = 0 \<longleftrightarrow> (\<forall>k < 64. \<not> bit w k)"
  by (auto simp: builtin_ffsll_def find_None_all find_upt split: option.splits)

lemma ffsll_Suc: "builtin_ffsll w = Suc k \<longleftrightarrow> k < 64 \<and> bit w k \<and> (\<forall>j < k. \<not> bit w j)"
proof (cases "find (bit w) [0..<64]")
  case None
  then have "builtin_ffsll w = 0" "\<forall>k < 64. \<not> bit w k" by (simp add: builtin_ffsll_def, auto simp: find_None_all)
  then show ?thesis by auto
next
  case (Some m)
  then have "m < 64" "bit w m" "\<forall>j < m. \<not> bit w j" by (auto simp: find_upt)
  then show ?thesis using Some by (auto simp: builtin_ffsll_def) (meson linorder_neqE_nat)
qed

definition word_bit :: "(64 word \<Rightarrow> 64 word) \<Rightarrow> bf_bitset_t \<Rightarrow> nat \<Rightarrow> bool" where
  "word_bit f b j = bit (f (bs b ! (j div 64))) (j mod 64)"

lemma word_bit_at: "k < 64 \<Longrightarrow> word_bit f b (64 * i + k) = bit (f (bs b ! i)) k"
  by (simp add: word_bit_def)

lemma zero_word_bits: "builtin_ffsll (f (bs b ! (q div 64))) = 0 \<Longrightarrow> \<not> word_bit f b q"
  by (simp add: ffsll_0 word_bit_def)

lemma first_in_word:
  assumes "builtin_ffsll (f (bs b ! i)) = Suc k" "lo \<le> 64 * i + k"
    and "\<And>q. lo \<le> q \<Longrightarrow> q div 64 < i \<Longrightarrow> \<not> word_bit f b q"
  shows "k < 64 \<and> word_bit f b (64 * i + k) \<and> (\<forall>q. lo \<le> q \<and> q < 64 * i + k \<longrightarrow> \<not> word_bit f b q)"
proof (intro conjI allI impI)
  show k: "k < 64" "word_bit f b (64 * i + k)" using assms(1) by (auto simp: ffsll_Suc word_bit_at)
  fix q assume q: "lo \<le> q \<and> q < 64 * i + k"
  show "\<not> word_bit f b q"
  proof (cases "q div 64 < i")
    case False
    with q k(1) have "q div 64 = i" by linarith
    with q mult_div_mod_eq [of 64 q] have "q mod 64 < k" by linarith
    then show ?thesis using assms(1) \<open>q div 64 = i\<close> by (auto simp: ffsll_Suc word_bit_def)
  qed (use q assms(3) in blast)
qed

definition search_result :: "bf_bitset_t \<Rightarrow> nat \<Rightarrow> nat option \<Rightarrow> int" where
  "search_result b pos r = (case r of None \<Rightarrow> - 1
     | Some p \<Rightarrow> if p < bs_width b \<or> pos div 64 = bs_words b - 1 then int p else - 1)"

lemma bs_words_64: "bs_shape b \<Longrightarrow> i < bs_words b \<Longrightarrow> k < 64 \<Longrightarrow> 64 * i + k < 2147483648"
  using bs_words_le [of b] by linarith

lemma before_last: "bs_shape b \<Longrightarrow> i < bs_words b - 1 \<Longrightarrow> k < 64 \<Longrightarrow> 64 * i + k < bs_width b"
  using last_word_bits [of b 0] unfolding bs_shape_def bs_words_def by linarith

lemma search_words_first:
  assumes "bs_shape b" "mask_top b = Inr b" "pos < bs_width b"
    and "builtin_ffsll (drop_bit (pos mod 64) (f (bs b ! (pos div 64)))) = Suc k"
  shows "search_words b f (int pos) = Inr (search_result b pos (find (word_bit f b) [pos..<64 * bs_words b]), b)"
proof -
  define i where "i = pos div 64"
  define w where "w = f (bs b ! i)"
  have i: "i < bs_words b" "i < length (bs b)" "pos = 64 * i + pos mod 64"
    using words_bound [OF assms(3)] bs_shape_words [OF assms(1,3)] by (simp_all add: i_def)
  have k: "bit w (pos mod 64 + k)" "\<forall>j < k. \<not> bit w (pos mod 64 + j)"
    using assms(4) by (auto simp: ffsll_Suc bit_drop_bit_eq w_def i_def)
  then have k64: "pos mod 64 + k < 64" using bit_imp_le_length by fastforce
  have found: "find (word_bit f b) [pos..<64 * bs_words b] = Some (pos + k)"
    unfolding find_upt
  proof (intro conjI allI impI)
    have e: "pos + k = 64 * i + (pos mod 64 + k)" using i(3) by linarith
    show "word_bit f b (pos + k)" using k(1) word_bit_at [OF k64, of f b i] unfolding e by (simp add: w_def)
    show "pos + k < 64 * bs_words b" using i k64 by linarith
    fix q assume q: "pos \<le> q \<and> q < pos + k"
    then have "q - pos < k" by linarith
    then have "\<not> bit w (pos mod 64 + (q - pos))" using k(2) by blast
    moreover have "q = 64 * i + (pos mod 64 + (q - pos))" "pos mod 64 + (q - pos) < 64" using q i(3) k64 by linarith+
    ultimately show "\<not> word_bit f b q" using word_bit_at [of "pos mod 64 + (q - pos)" f b i] by (simp add: w_def)
  qed simp
  have "pos + k < bs_width b \<or> i = bs_words b - 1"
    using before_last [OF assms(1), of i "pos mod 64 + k"] k64 i by linarith
  moreover have "s32 (64 * i + Suc k - 1 + pos mod 64) = int (pos + k)"
    using bs_words_64 [OF assms(1) i(1) k64] i(3) by (subst s32_id) linarith+
  ultimately show ?thesis
    using assms(2,4) i(2) found
    by (simp add: search_words_def int_div_64 Let_def search_result_def i_def)
qed

lemma search_words_spec:
  assumes "bs_shape b" "mask_top b = Inr b" "pos < bs_width b"
  shows "search_words b f (int pos) = Inr (search_result b pos (find (word_bit f b) [pos..<64 * bs_words b]), b)"
proof (cases "builtin_ffsll (drop_bit (pos mod 64) (f (bs b ! (pos div 64))))")
  case (Suc k)
  then show ?thesis by (rule search_words_first [OF assms])
next
  case z: 0
  define i n where "i = pos div 64" and "n = bs_words b - 1"
  have i: "i \<le> n" "n < length (bs b)" "n < bs_words b" "i < length (bs b)"
    using words_bound [OF assms(3)] bs_words_pos [OF assms(1)] assms(1) unfolding i_def n_def bs_shape_def by linarith+
  have none_i: "\<not> word_bit f b q" if "pos \<le> q" "q div 64 = i" for q
  proof -
    have "pos mod 64 \<le> q mod 64" "q mod 64 < 64"
      using that mult_div_mod_eq [of 64 q] mult_div_mod_eq [of 64 pos] unfolding i_def by linarith+
    then have "\<not> bit (drop_bit (pos mod 64) (f (bs b ! i))) (q mod 64 - pos mod 64)"
      using z by (simp add: ffsll_0 i_def)
    with \<open>pos mod 64 \<le> q mod 64\<close> show ?thesis using that(2) by (simp add: bit_drop_bit_eq word_bit_def)
  qed
  define P where "P = (\<lambda>j. builtin_ffsll (f (bs b ! j)) \<noteq> 0)"
  have loop: "search_loop b f (i + 1) n =
     Inr (case find P [i + 1..<n] of Some j \<Rightarrow> Inl (s32 (64 * j + builtin_ffsll (f (bs b ! j)) - 1)) | None \<Rightarrow> Inr ())"
    unfolding search_loop_def using i(2) by (intro for_loop_search) (simp add: P_def Let_def)
  have go: "search_words b f (int pos) = (if i = n then Inr (- 1, b) else
      case find P [i + 1..<n] of Some j \<Rightarrow> Inr (s32 (64 * j + builtin_ffsll (f (bs b ! j)) - 1), b) | None \<Rightarrow>
      Inr (if P n \<and> 64 * n + builtin_ffsll (f (bs b ! n)) - 1 < bs_width b
           then s32 (64 * n + builtin_ffsll (f (bs b ! n)) - 1) else - 1, b))"
    unfolding search_words_def Let_def last_word [OF assms(1)] n_def [symmetric]
    using z i loop by (simp add: assms(2) int_div_64 i_def [symmetric] P_def split: option.splits)
  have found: "find (word_bit f b) [pos..<64 * bs_words b] = Some (64 * j + k)"
    if "i < j" "j \<le> n" "builtin_ffsll (f (bs b ! j)) = Suc k" "\<And>j'. i < j' \<Longrightarrow> j' < j \<Longrightarrow> \<not> P j'" for j k
  proof -
    have lo: "pos \<le> 64 * j + k" using that(1) unfolding i_def by linarith
    have "k < 64 \<and> word_bit f b (64 * j + k) \<and> (\<forall>q. pos \<le> q \<and> q < 64 * j + k \<longrightarrow> \<not> word_bit f b q)"
    proof (rule first_in_word [of f b j k pos, OF that(3) lo])
      fix q assume q: "pos \<le> q" "q div 64 < j"
      then have "i \<le> q div 64" unfolding i_def by (intro div_le_mono)
      then show "\<not> word_bit f b q"
        using none_i [OF q(1)] that(4) [of "q div 64"] q(2) zero_word_bits [of f b q] by (cases "q div 64 = i") (auto simp: P_def)
    qed
    moreover have "64 * j + k < 64 * bs_words b" if "k < 64" using that \<open>j \<le> n\<close> i(3) by linarith
    ultimately show ?thesis unfolding find_upt using lo by blast
  qed
  show ?thesis
  proof (cases "i = n")
    case True
    have "\<not> word_bit f b q" if "pos \<le> q" "q < 64 * bs_words b" for q
    proof -
      have "q div 64 = i" using that True i(1) unfolding i_def n_def by linarith
      then show ?thesis using none_i that(1) by blast
    qed
    then have "find (word_bit f b) [pos..<64 * bs_words b] = None" by (auto simp: find_None_all)
    then show ?thesis using go True by (simp add: search_result_def)
  next
    case False
    show ?thesis
    proof (cases "find P [i + 1..<n]")
      case (Some j)
      then have j: "i < j" "j < n" "P j" "\<And>j'. i < j' \<Longrightarrow> j' < j \<Longrightarrow> \<not> P j'" by (auto simp: find_upt Suc_le_eq)
      then obtain k where k: "builtin_ffsll (f (bs b ! j)) = Suc k" by (auto simp: P_def gr0_conv_Suc)
      then have k64: "k < 64" by (simp add: ffsll_Suc)
      have "64 * j + k < bs_width b" using before_last [OF assms(1) _ k64, of j] j(2) by (simp add: n_def)
      moreover from this have "s32 (64 * j + Suc k - 1) = int (64 * j + k)" using assms(1) by (subst s32_id) (auto simp: bs_shape_def)
      ultimately show ?thesis using go False Some k found [OF j(1) _ k j(4)] j(2) by (simp add: search_result_def)
    next
      case None
      then have no: "\<And>j'. i < j' \<Longrightarrow> j' < n \<Longrightarrow> \<not> P j'" by (auto simp: find_None_all)
      show ?thesis
      proof (cases "P n")
        case True
        then obtain k where k: "builtin_ffsll (f (bs b ! n)) = Suc k" by (auto simp: P_def gr0_conv_Suc)
        have "s32 (64 * n + Suc k - 1) = int (64 * n + k)" if "64 * n + k < bs_width b"
          using assms(1) that by (subst s32_id) (auto simp: bs_shape_def)
        then show ?thesis using go False None True k found [OF _ _ k no] i(1) by (simp add: search_result_def i_def n_def)
      next
        case last: False
        have "\<not> word_bit f b q" if "pos \<le> q" "q < 64 * bs_words b" for q
        proof -
          have "i \<le> q div 64" "q div 64 \<le> n" using that unfolding i_def n_def by (auto intro: div_le_mono)
          then consider "q div 64 = i" | "\<not> P (q div 64)" using no [of "q div 64"] last by (cases "q div 64 = n") fastforce+
          then show ?thesis using none_i [OF that(1)] zero_word_bits [of f b q] by cases (auto simp: P_def)
        qed
        then have "find (word_bit f b) [pos..<64 * bs_words b] = None" by (auto simp: find_None_all)
        then show ?thesis using go False None last by (simp add: search_result_def)
      qed
    qed
  qed
qed

end
