(* ===== verification/Bitset_Ops.thy ===== *)
theory Bitset_Ops
  imports Bitset
begin

text \<open>
  What each function of src/bitset/bitset.c does to the bits of a set: single bits, words of up to
  64 bits at any offset (which may spill into the next word of the array), tests and counts over
  all words, and the copies.
\<close>

lemma find_extend_upt:
  assumes "a \<le> b" "b \<le> c"
  shows "find P [a..<c] = (case find P [a..<b] of Some p \<Rightarrow> Some p | None \<Rightarrow> find P [b..<c])"
  using upt_add_eq_append [OF assms(1), of "c - b"] assms(2) by (simp add: find_append)

lemma find_cong_upt: "(\<And>i. a \<le> i \<Longrightarrow> i < b \<Longrightarrow> P i = Q i) \<Longrightarrow> find P [a..<b] = find Q [a..<b]"
  by (intro find_cong) auto

lemma width_words: "bs_width b \<le> 64 * bs_words b"
  unfolding bs_words_def by linarith

lemma last_word_index:
  assumes "pos < bs_width b"
  shows "pos div 64 = bs_words b - 1 \<and> bs_width b < 64 * bs_words b \<longleftrightarrow> pos div 64 = bs_width b div 64"
proof -
  define q r where "q = bs_width b div 64" and "r = bs_width b mod 64"
  have w: "bs_width b = 64 * q + r" "r < 64" by (simp_all add: q_def r_def)
  show ?thesis
  proof (cases "r = 0")
    case True
    then have "bs_words b = q" "pos div 64 < q" unfolding bs_words_def using assms w by auto
    then show ?thesis using w True unfolding q_def [symmetric] by simp
  next
    case False
    then have "bs_words b = q + 1" unfolding bs_words_def w(1) using w(2) by (intro div_nat_eqI) simp_all
    then show ?thesis using w False unfolding q_def [symmetric] by simp
  qed
qed

lemma bs_step_position:
  assumes "bs_shape b" "- 1 \<le> position" "position < int (bs_width b)"
  obtains "inc_int position = Inr (int (nat (position + 1)))" "u32_of_int (position + 1) = nat (position + 1)"
    "nat (position + 1) \<le> bs_width b" "position + 1 = int (nat (position + 1))"
  using assms by (auto simp: inc_int_def u32_of_int_id bs_shape_def W32_def)

section \<open>Single bits\<close>

lemma bs_set_ok:
  assumes "bs_shape b" "j < bs_width b"
  shows "\<exists>b'. bf_bs_set E b (int j) val = Inr (bs_bit b j, b') \<and> bs_width b' = bs_width b \<and>
    length (bs b') = length (bs b) \<and> (\<forall>q. bs_bit b' q = (if q = j then val \<noteq> 0 else bs_bit b q))"
proof -
  define i k where "i = j div 64" and "k = j mod 64"
  define w where "w = bs b ! i"
  have i: "i < length (bs b)" "k < 64" "j = 64 * i + k" using bs_shape_words [OF assms] by (simp_all add: i_def k_def)
  define w' where "w' = (if val \<noteq> 0 then w OR push_bit k 1 else w AND NOT (push_bit k 1))"
  define b' where "b' = b\<lparr>bs := (bs b)[i := w']\<rparr>"
  have bits: "bit w' m = (if m = k then val \<noteq> 0 else bit w m)" if "m < 64" for m
    using that by (auto simp: w'_def bit_simps)
  have same: "w' = w" if "val \<noteq> 0 \<longleftrightarrow> bit w k"
    using that by (intro bit_word_eqI) (auto simp: bits)
  have "bs_bit b' q = (if q = j then val \<noteq> 0 else bs_bit b q)" for q
  proof (cases "q div 64 = i")
    case True
    then have "q = j \<longleftrightarrow> q mod 64 = k" using i(3) mult_div_mod_eq [of 64 q] by (auto simp: k_def)
    then show ?thesis using True i(1) bits [of "q mod 64"] by (simp add: b'_def bs_bit_upd w_def bs_bit_def)
  next
    case False
    then show ?thesis using i(1) by (auto simp: b'_def bs_bit_upd i_def)
  qed
  moreover have "b = b'" if "val \<noteq> 0 \<longleftrightarrow> bit w k" using same [OF that] by (simp add: b'_def w_def)
  then have "bf_bs_set E b (int j) val = Inr (bit w k, b')"
    using pos_asserts_ok [OF assms, of E] i(1,2) assms(2)
    by (auto simp: bf_bs_set_def int_div_64 Let_def i_def [symmetric] k_def [symmetric] w_def [symmetric] and_push_1
        b'_def w'_def simp del: push_bit_of_1)
  ultimately show ?thesis by (intro exI [of _ b']) (simp add: b'_def bs_bit_def w_def i_def k_def)
qed

lemma bs_get_ok: "bs_shape b \<Longrightarrow> j < bs_width b \<Longrightarrow> bf_bs_get E b (int j) = Inr (bs_bit b j)"
  using pos_asserts_ok [of b j E] bs_shape_words [of b j]
  by (simp add: bf_bs_get_def int_div_64 Let_def and_1_bit bs_bit_def)

section \<open>Words at any offset\<close>

lemma sdiv_64: "int j sdiv 64 = int (j div 64)" "int j smod 64 = int (j mod 64)"
  by (cases "j = 0"; simp add: signed_divide_int_def signed_modulo_int_def zdiv_int zmod_int)+

text \<open>The number of bits that a word access at \<open>off\<close> reaches.\<close>

definition reach :: "bf_bitset_t \<Rightarrow> nat \<Rightarrow> nat \<Rightarrow> nat" where
  "reach b off n = min n (bs_width b - off)"

lemma clip_reach:
  assumes "bs_shape b" "off < bs_width b" "n \<le> 64"
  shows "clip b (int off) (int n) = int (reach b off n)"
proof -
  have "u32_of_int (int off) = off" "u32_of_int (int n) = n" using assms by (auto simp: u32_of_int_id bs_shape_def W32_def)
  moreover have "sub32 (bs_width b) off = bs_width b - off"
    using assms by (intro sub32_id) (auto simp: bs_shape_def W32_def)
  moreover have "s32 (bs_width b - off) = int (bs_width b - off)" using assms by (intro s32_id) (auto simp: bs_shape_def)
  ultimately show ?thesis by (simp add: clip_def Let_def reach_def min_def)
qed

lemma word_asserts_ok:
  "bs_shape b \<Longrightarrow> off < bs_width b \<Longrightarrow> 0 < n \<Longrightarrow> n \<le> 64 \<Longrightarrow> word_asserts E b (int off) (int n) = Inr ()"
  using pos_asserts_ok [of b off E] by (simp add: word_asserts_def)

lemma reach_bounds:
  "off < bs_width b \<Longrightarrow> 0 < n \<Longrightarrow> n \<le> 64 \<Longrightarrow> 0 < reach b off n \<and> reach b off n \<le> 64 \<and> off + reach b off n \<le> bs_width b"
  by (auto simp: reach_def)

text \<open>The word after the one at \<open>off\<close> exists when the access spills into it.\<close>

lemma next_word:
  assumes "bs_shape b" "off + n \<le> bs_width b" "64 < off mod 64 + n"
  shows "Suc (off div 64) < length (bs b)"
proof -
  have "Suc (off div 64) \<le> (off + n - 1) div 64" using assms(3) mult_div_mod_eq [of 64 off] by linarith
  moreover have "(off + n - 1) div 64 < length (bs b)" using assms by (intro bs_shape_words) auto
  ultimately show ?thesis by linarith
qed

lemma bs_bit_off:
  assumes "off mod 64 + k < 128"
  shows "bs_bit b (off + k) = (if off mod 64 + k < 64 then bit (bs b ! (off div 64)) (off mod 64 + k)
    else bit (bs b ! Suc (off div 64)) (off mod 64 + k - 64))"
proof (cases "off mod 64 + k < 64")
  case True
  then have "(off + k) div 64 = off div 64" using mult_div_mod_eq [of 64 off] by linarith
  then have "(off + k) mod 64 = off mod 64 + k" using mult_div_mod_eq [of 64 "off + k"] mult_div_mod_eq [of 64 off] by linarith
  with \<open>(off + k) div 64 = off div 64\<close> True show ?thesis by (simp add: bs_bit_def)
next
  case False
  with assms have "(off + k) div 64 = Suc (off div 64)" using mult_div_mod_eq [of 64 off] by linarith
  then have "(off + k) mod 64 = off mod 64 + k - 64" using mult_div_mod_eq [of 64 "off + k"] mult_div_mod_eq [of 64 off] by linarith
  with \<open>(off + k) div 64 = Suc (off div 64)\<close> False show ?thesis by (simp add: bs_bit_def)
qed

lemma get_word_ok:
  assumes "bs_shape b" "off < bs_width b" "0 < n" "n \<le> 64"
  shows "\<exists>w. bf_bs_get_word E b (int off) (int n) = Inr w \<and>
    (\<forall>k < 64. bit w k = (k < reach b off n \<and> bs_bit b (off + k)))"
proof -
  define i m r where "i = off div 64" and "m = off mod 64" and "r = reach b off n"
  have r: "0 < r" "r \<le> 64" "off + r \<le> bs_width b" using reach_bounds [OF assms(2-4)] by (simp_all add: r_def)
  have i: "i < length (bs b)" "m < 64" using bs_shape_words [OF assms(1,2)] by (simp_all add: i_def m_def)
  have i2: "Suc i < length (bs b)" if "64 < m + r" using next_word [OF assms(1) r(3)] that by (simp add: i_def m_def)
  define u where "u = (if m = 0 then bs b ! i else if 64 < m + r
     then drop_bit m (bs b ! i) OR push_bit (64 - m) (bs b ! Suc i) else drop_bit m (bs b ! i))"
  define w where "w = (if r < 64 then u AND mask r else u)"
  have "bf_bs_get_word E b (int off) (int n) = Inr w"
  proof -
    have "rd (bs b) (int i + 1) = Inr (bs b ! Suc i)" if "64 < m + r" using rd_ok [OF i2 [OF that]] by (simp add: add.commute)
    moreover have "shl64 (bs b ! Suc i) (64 - int m) = Inr (push_bit (64 - m) (bs b ! Suc i))" if "m \<noteq> 0"
      using that i(2) by (simp add: shl64_def nat_diff_distrib)
    ultimately show ?thesis
      using i r by (simp add: bf_bs_get_word_def word_asserts_ok [OF assms] clip_reach [OF assms(1,2,4)] r_def [symmetric] sdiv_64
        i_def [symmetric] m_def [symmetric] Let_def shr64_def shl64_def u_def w_def one_shift_minus_1 del: push_bit_of_1)
  qed
  moreover have "bit w k = (k < r \<and> bs_bit b (off + k))" if "k < 64" for k
    using bs_bit_off [of off k b] that i(2) r(2) unfolding i_def [symmetric] m_def [symmetric]
    by (auto simp: w_def u_def bit_simps add.commute dest: bit_imp_le_length)
  ultimately show ?thesis unfolding r_def by blast
qed

text \<open>The two words that \<open>bf_bs_set_word\<close> writes.\<close>

definition low_part :: "nat \<Rightarrow> nat \<Rightarrow> 64 word \<Rightarrow> 64 word \<Rightarrow> 64 word" where
  "low_part m r val w = (w AND NOT (push_bit m (mask r))) OR push_bit m (val AND mask r)"

definition high_part :: "nat \<Rightarrow> nat \<Rightarrow> 64 word \<Rightarrow> 64 word \<Rightarrow> 64 word" where
  "high_part m r val w = (w AND NOT (mask (m + r - 64))) OR drop_bit (64 - m) (val AND mask r)"

lemma bit_low_part: "k < 64 \<Longrightarrow> bit (low_part m r val w) k = (if m \<le> k \<and> k < m + r then bit val (k - m) else bit w k)"
  by (auto simp: low_part_def bit_simps)

lemma bit_high_part:
  "m < 64 \<Longrightarrow> r \<le> 64 \<Longrightarrow> k < 64 \<Longrightarrow>
    bit (high_part m r val w) k = (if k < m + r - 64 then bit val (64 - m + k) else bit w k)"
  by (auto simp: high_part_def bit_simps)

lemma mask_64: "mask 64 = (- 1 :: 64 word)"
  by (rule bit_word_eqI) (simp add: bit_simps)

lemma set_word_eval:
  assumes "bs_shape b" "off < bs_width b" "0 < n" "n \<le> 64"
    and "i = off div 64" "m = off mod 64" "r = reach b off n"
  shows "bf_bs_set_word E b (int off) (int n) val = Inr (b\<lparr>bs :=
    (if 64 < m + r then (bs b)[i := low_part m r val (bs b ! i), Suc i := high_part m r val (bs b ! Suc i)]
     else (bs b)[i := low_part m r val (bs b ! i)])\<rparr>)"
proof -
  have r: "0 < r" "r \<le> 64" "off + r \<le> bs_width b" using reach_bounds [OF assms(2-4)] assms(7) by simp_all
  have i: "i < length (bs b)" "m < 64" using bs_shape_words [OF assms(1,2)] assms(5,6) by simp_all
  have i2: "Suc i < length (bs b)" if "64 < m + r" using next_word [OF assms(1) r(3)] that assms(5,6) by simp
  define a where "a = (bs b)[i := bs b ! i AND NOT (push_bit m (mask r))]"
  have first: "(if int r < 64
          then bnd (shl64 1 (int r)) (\<lambda>one. bnd (shl64 (one - 1) (int m)) (\<lambda>m.
               bnd (upd (bs b) (int i) (\<lambda>w. w AND NOT m)) (\<lambda>a. Inr (val AND (one - 1), a))))
          else bnd (shl64 0xFFFFFFFFFFFFFFFF (int m)) (\<lambda>m.
               bnd (upd (bs b) (int i) (\<lambda>w. w AND NOT m)) (\<lambda>a. Inr (val, a)))) = Inr (val AND mask r, a)"
  proof (cases "r = 64")
    case True
    then show ?thesis using i by (simp add: shl64_def a_def mask_64 all_ones_word)
  next
    case False
    then show ?thesis using i r by (simp add: shl64_def a_def one_shift_minus_1 del: push_bit_of_1)
  qed
  have second: "upd a (int i) (\<lambda>w. w OR push_bit m (val AND mask r)) = Inr ((bs b)[i := low_part m r val (bs b ! i)])"
    using i by (simp add: a_def low_part_def)
  have idx: "upd a' (int i + 1) f = Inr (a'[Suc i := f (a' ! Suc i)])" if "Suc i < length a'" for a' f
    using upd_ok [OF that, of f] by (simp add: add.commute)
  show ?thesis
    using i r first second i2
    by (simp add: bf_bs_set_word_def word_asserts_ok [OF assms(1-4)] clip_reach [OF assms(1,2,4)] assms(7) [symmetric]
      sdiv_64 assms(5,6) [symmetric] Let_def shl64_def shr64_def idx high_part_def one_shift_minus_1 nat_diff_distrib
      nat_add_distrib del: push_bit_of_1)
qed

lemma set_word_ok:
  assumes "bs_shape b" "off < bs_width b" "0 < n" "n \<le> 64"
  shows "\<exists>b'. bf_bs_set_word E b (int off) (int n) val = Inr b' \<and> bs_width b' = bs_width b \<and>
    length (bs b') = length (bs b) \<and>
    (\<forall>j. bs_bit b' j = (if off \<le> j \<and> j < off + reach b off n then bit val (j - off) else bs_bit b j))"
proof -
  define i m r where "i = off div 64" and "m = off mod 64" and "r = reach b off n"
  have r: "0 < r" "r \<le> 64" "off + r \<le> bs_width b" using reach_bounds [OF assms(2-4)] r_def by simp_all
  have i: "i < length (bs b)" "m < 64" "off = 64 * i + m"
    using bs_shape_words [OF assms(1,2)] by (simp_all add: i_def m_def)
  have i2: "Suc i < length (bs b)" if "64 < m + r" using next_word [OF assms(1) r(3)] that i_def m_def by simp
  define a where "a = (if 64 < m + r then (bs b)[i := low_part m r val (bs b ! i), Suc i := high_part m r val (bs b ! Suc i)]
     else (bs b)[i := low_part m r val (bs b ! i)])"
  have "bs_bit (b\<lparr>bs := a\<rparr>) j = (if off \<le> j \<and> j < off + r then bit val (j - off) else bs_bit b j)" for j
  proof -
    define q k where "q = j div 64" and "k = j mod 64"
    have j: "j = 64 * q + k" "k < 64" by (simp_all add: q_def k_def)
    have at: "bs_bit c j = bit (bs c ! q) k" for c by (simp add: bs_bit_def q_def k_def)
    consider "q = i" | "q = Suc i" "64 < m + r" | "q \<noteq> i" "q = Suc i \<longrightarrow> m + r \<le> 64" by linarith
    then show ?thesis
    proof cases
      case 1
      then have "off \<le> j \<and> j < off + r \<longleftrightarrow> m \<le> k \<and> k < m + r" "j - off = k - m" using i(3) j(1) by auto
      with 1 i(1) j(2) show ?thesis by (simp add: at a_def bit_low_part)
    next
      case 2
      then have "off \<le> j \<and> j < off + r \<longleftrightarrow> k < m + r - 64" "j - off = 64 - m + k" using i j by auto
      with 2 i2 i(2) r(2) j(2) show ?thesis by (simp add: at a_def bit_high_part)
    next
      case 3
      then have "\<not> (off \<le> j \<and> j < off + r)" using i(2,3) j r(2) by linarith
      with 3 show ?thesis by (auto simp: at a_def)
    qed
  qed
  moreover have "length a = length (bs b)" by (simp add: a_def)
  moreover have "bf_bs_set_word E b (int off) (int n) val = Inr (b\<lparr>bs := a\<rparr>)"
    unfolding a_def by (rule set_word_eval [OF assms i_def m_def r_def])
  ultimately show ?thesis unfolding r_def [symmetric] by (intro exI [of _ "b\<lparr>bs := a\<rparr>"]) simp
qed

section \<open>Whole sets\<close>

lemma bs_inv_cong:
  "bs_inv b \<Longrightarrow> bs_width b' = bs_width b \<Longrightarrow> length (bs b') = length (bs b) \<Longrightarrow>
    (\<And>j. bs_width b \<le> j \<Longrightarrow> bs_bit b' j = bs_bit b j) \<Longrightarrow> bs_inv b'"
  by (simp add: bs_inv_def bs_shape_def bs_words_def)

lemma bs_words_offset: "bs_shape b \<Longrightarrow> i < bs_words b \<Longrightarrow> 64 * i < bs_width b"
  unfolding bs_words_def by linarith

lemma word_in_array: "bs_shape b \<Longrightarrow> i < bs_words b \<Longrightarrow> i < length (bs b)"
  unfolding bs_shape_def by linarith

lemma mask_top_shape:
  assumes "bs_shape b"
  shows "\<exists>b'. mask_top b = Inr b' \<and> bs_inv b' \<and> bs_width b' = bs_width b \<and> length (bs b') = length (bs b) \<and>
    (\<forall>j < bs_width b. bs_bit b' j = bs_bit b j)"
proof -
  define n where "n = bs_words b - 1"
  have n: "n < length (bs b)" "n < bs_words b" using assms bs_words_pos [OF assms] unfolding n_def bs_shape_def by linarith+
  define b' where "b' = b\<lparr>bs := (bs b)[n := bs b ! n AND top_word_mask b]\<rparr>"
  have bits: "bs_bit b' j = (bs_bit b j \<and> j < bs_width b)" if "j < 64 * bs_words b" for j
  proof (cases "j div 64 = n")
    case True
    then have j: "j = 64 * n + j mod 64" by auto
    have "j < bs_width b \<longleftrightarrow> bs_width b mod 64 = 0 \<or> j mod 64 < bs_width b mod 64"
      using last_word_bits [of b "j mod 64"] assms j unfolding n_def bs_shape_def by simp
    then show ?thesis using True n(1) unfolding b'_def
      by (simp add: bs_bit_upd bit_and_iff bit_top_word_mask) (simp add: bs_bit_def)
  next
    case False
    then have "j div 64 < n" using that n(2) unfolding n_def by linarith
    then have "j < bs_width b" using before_last [OF assms, of "j div 64" "j mod 64"] by (simp add: n_def)
    then show ?thesis using False n(1) by (simp add: b'_def bs_bit_upd)
  qed
  have "mask_top b = Inr b'" using n(1) unfolding mask_top_def last_word [OF assms] n_def [symmetric] by (simp add: b'_def)
  moreover have "bs_inv b'" using bits assms by (auto simp: bs_inv_def bs_shape_def bs_words_def b'_def)
  moreover have "\<forall>j < bs_width b. bs_bit b' j = bs_bit b j" using bits width_words [of b] by simp
  ultimately show ?thesis by (intro exI [of _ b']) (simp add: b'_def)
qed

lemma set_all_ok:
  assumes "bs_shape b" "val = 0 \<or> val = 1"
  shows "\<exists>b'. bf_bs_set_all E b val = Inr b' \<and> bs_inv b' \<and> bs_width b' = bs_width b \<and>
    (\<forall>j < bs_width b. bs_bit b' j = (val = 1))"
proof -
  define n where "n = bs_words b"
  have n: "n \<le> length (bs b)" using assms(1) by (simp add: n_def bs_shape_def)
  define fill where "fill = (\<lambda>w. b\<lparr>bs := replicate n w @ drop n (bs b)\<rparr>)"
  have shape: "bs_shape (fill w)" "bs_width (fill w) = bs_width b" for w
    using assms(1) n by (simp_all add: fill_def bs_shape_def bs_words_def)
  have bit: "bs_bit (fill w) j = bit w (j mod 64)" if "j < 64 * n" for w j
  proof -
    have "j div 64 < n" using that by linarith
    then show ?thesis by (simp add: fill_def bs_bit_def nth_append)
  qed
  show ?thesis
  proof (cases "val = 1")
    case True
    from mask_top_shape [OF shape(1), of "- 1"] obtain b' where
      b': "mask_top (fill (- 1)) = Inr b'" "bs_inv b'" "bs_width b' = bs_width b"
      "\<forall>j < bs_width b. bs_bit b' j = bs_bit (fill (- 1)) j" using shape(2) by auto
    have "bf_bs_set_all E b val = mask_top (fill (- 1))"
      using True n by (simp add: bf_bs_set_all_def memset_words_def bs_length_eq [OF assms(1)] n_def [symmetric] fill_def all_ones_word)
    moreover have "bs_bit (fill (- 1)) j" if "j < bs_width b" for j
      using that bit [of j "- 1"] width_words [of b] by (simp add: n_def)
    ultimately show ?thesis using b' True by (intro exI [of _ b']) simp
  next
    case False
    then have "bf_bs_set_all E b val = Inr (fill 0)"
      using n assms(2) by (simp add: bf_bs_set_all_def memset_words_def bs_length_eq [OF assms(1)] n_def [symmetric] fill_def)
    moreover have "\<not> bs_bit (fill 0) j" if "j < 64 * n" for j using bit [OF that, of 0] by simp
    moreover have "bs_words (fill 0) = n" using shape(2) by (simp add: n_def bs_words_def)
    ultimately show ?thesis using shape(1) [of 0] shape(2) [of 0] False width_words [of b]
      by (intro exI [of _ "fill 0"]) (auto simp: bs_inv_def n_def)
  qed
qed

text \<open>A test of all words is a test of all bits.\<close>

lemma all_words_iff:
  "(\<forall>i < n. \<forall>k < 64. P (64 * i + k)) \<longleftrightarrow> (\<forall>j < 64 * n. P (j :: nat))"
proof (intro iffI allI impI)
  fix j assume "\<forall>i < n. \<forall>k < 64. P (64 * i + k)" "j < 64 * n"
  moreover have "j div 64 < n" "j mod 64 < 64" "j = 64 * (j div 64) + j mod 64" using \<open>j < 64 * n\<close> by auto
  ultimately show "P j" by metis
qed auto

lemma word_zero_iff: "(bs b ! i = 0) = (\<forall>k < 64. \<not> bs_bit b (64 * i + k))"
  by (auto simp: bs_bit_word intro!: bit_word_eqI)

lemma all_0s_ok: "bs_inv b \<Longrightarrow> bf_bs_all_0s b = Inr (\<forall>j < bs_width b. \<not> bs_bit b j, b)"
proof -
  assume inv: "bs_inv b"
  then have sh: "bs_shape b" by (simp add: bs_inv_def)
  have "for_loop 0 (bs_words b) (\<lambda>i _. bnd (rd (bs b) (int i)) (\<lambda>w. Inr (if w \<noteq> 0 then Inl False else Inr ()))) () =
      Inr (case find (\<lambda>i. bs b ! i \<noteq> 0) [0..<bs_words b] of Some i \<Rightarrow> Inl False | None \<Rightarrow> Inr ())"
    by (rule for_loop_search) (simp add: word_in_array [OF sh])
  then have "bf_bs_all_0s b = Inr (find (\<lambda>i. bs b ! i \<noteq> 0) [0..<bs_words b] = None, b)"
    by (simp add: bf_bs_all_0s_def mask_top_inv [OF inv] bs_length_eq [OF sh] split: option.splits)
  also have "find (\<lambda>i. bs b ! i \<noteq> 0) [0..<bs_words b] = None \<longleftrightarrow> (\<forall>j < 64 * bs_words b. \<not> bs_bit b j)"
    using all_words_iff [of "bs_words b" "\<lambda>j. \<not> bs_bit b j"] by (simp add: find_None_all word_zero_iff Ball_def)
  also have "\<dots> \<longleftrightarrow> (\<forall>j < bs_width b. \<not> bs_bit b j)"
    using inv width_words [of b] unfolding bs_inv_def by (meson le_less_trans less_le_trans not_le)
  finally show ?thesis .
qed

lemma word_ones_iff: "(bs b ! i = - 1) = (\<forall>k < 64. bs_bit b (64 * i + k))"
  by (auto simp: bs_bit_word intro!: bit_word_eqI)

lemma last_ones_iff:
  assumes "bs_inv b" "n = bs_words b - 1"
  shows "(if bs_width b mod 64 \<noteq> 0 then bs b ! n = push_bit (bs_width b mod 64) 1 - 1 else bs b ! n = 0xFFFFFFFFFFFFFFFF) \<longleftrightarrow>
    (\<forall>k < 64. 64 * n + k < bs_width b \<longrightarrow> bs_bit b (64 * n + k))"
proof -
  have sh: "bs_shape b" using assms(1) by (simp add: bs_inv_def)
  have tw: "(if bs_width b mod 64 \<noteq> 0 then bs b ! n = push_bit (bs_width b mod 64) 1 - 1 else bs b ! n = 0xFFFFFFFFFFFFFFFF) \<longleftrightarrow>
      bs b ! n = top_word_mask b" by (simp add: top_word_mask_def Let_def)
  have lb: "64 * n + k < bs_width b \<longleftrightarrow> bit (top_word_mask b) k" if "k < 64" for k
    using last_word_bits [of b k] sh that unfolding assms(2) bs_shape_def by (simp add: bit_top_word_mask)
  have out: "\<not> bs_bit b (64 * n + k)" if "k < 64" "\<not> 64 * n + k < bs_width b" for k
    using assms(1) that bs_words_pos [OF sh] unfolding bs_inv_def assms(2) by auto
  show ?thesis unfolding tw
  proof (intro iffI allI impI)
    assume "\<forall>k < 64. 64 * n + k < bs_width b \<longrightarrow> bs_bit b (64 * n + k)"
    then have "bit (bs b ! n) k = bit (top_word_mask b) k" if "k < 64" for k
      using lb [OF that] out [OF that] bs_bit_word [OF that, of b n] that by blast
    then show "bs b ! n = top_word_mask b" by (intro bit_word_eqI) simp
  qed (use lb bs_bit_word [of _ b n] in auto)
qed

lemma all_1s_ok: "bs_inv b \<Longrightarrow> bf_bs_all_1s b = Inr (\<forall>j < bs_width b. bs_bit b j)"
proof -
  assume inv: "bs_inv b"
  then have sh: "bs_shape b" by (simp add: bs_inv_def)
  define n where "n = bs_words b - 1"
  have n: "n < bs_words b" "Suc n = bs_words b" using bs_words_pos [OF sh] by (simp_all add: n_def)
  define L where "L = (\<forall>k < 64. 64 * n + k < bs_width b \<longrightarrow> bs_bit b (64 * n + k))"
  have "for_loop 0 n (\<lambda>i _. bnd (rd (bs b) (int i)) (\<lambda>w. Inr (if w \<noteq> 0xFFFFFFFFFFFFFFFF then Inl False else Inr ()))) () =
      Inr (case find (\<lambda>i. bs b ! i \<noteq> - 1) [0..<n] of Some i \<Rightarrow> Inl False | None \<Rightarrow> Inr ())"
    using n(1) by (intro for_loop_search) (simp add: word_in_array [OF sh] all_ones_word)
  then have "bf_bs_all_1s b = Inr (find (\<lambda>i. bs b ! i \<noteq> - 1) [0..<n] = None \<and> L)"
    using word_in_array [OF sh n(1)] last_ones_iff [OF inv n_def] unfolding bf_bs_all_1s_def Let_def last_word [OF sh] n_def [symmetric] L_def
    by (simp split: option.splits)
  also have "find (\<lambda>i. bs b ! i \<noteq> - 1) [0..<n] = None \<longleftrightarrow> (\<forall>j < 64 * n. bs_bit b j)"
    using all_words_iff [of n "bs_bit b"] by (simp add: find_None_all word_ones_iff Ball_def)
  also have "(\<forall>j < 64 * n. bs_bit b j) \<and> L \<longleftrightarrow> (\<forall>j < bs_width b. bs_bit b j)"
  proof (intro iffI conjI allI impI)
    fix j assume a: "(\<forall>j < 64 * n. bs_bit b j) \<and> L" "j < bs_width b"
    then have "j < 64 * n + 64" using width_words [of b] n(2) by linarith
    then show "bs_bit b j"
      using a unfolding L_def by (cases "j < 64 * n") (auto dest: spec [of _ "j - 64 * n"])
  next
    fix j assume "\<forall>j < bs_width b. bs_bit b j" "j < 64 * n"
    then show "bs_bit b j" using bs_words_offset [OF sh n(1)] by simp
  qed (simp add: L_def)
  finally show ?thesis .
qed

lemma popcount_card: "builtin_popcountll (bs b ! i) = card {j. 64 * i \<le> j \<and> j < 64 * Suc i \<and> bs_bit b j}"
proof -
  have "{j. 64 * i \<le> j \<and> j < 64 * Suc i \<and> bs_bit b j} = (\<lambda>k. 64 * i + k) ` {k. k < 64 \<and> bit (bs b ! i) k}"
  proof (intro set_eqI iffI)
    fix j assume j: "j \<in> {j. 64 * i \<le> j \<and> j < 64 * Suc i \<and> bs_bit b j}"
    then have "j = 64 * i + (j - 64 * i)" "j - 64 * i < 64" by auto
    moreover from this j have "bit (bs b ! i) (j - 64 * i)" using bs_bit_word [of "j - 64 * i" b i] by simp
    ultimately show "j \<in> (\<lambda>k. 64 * i + k) ` {k. k < 64 \<and> bit (bs b ! i) k}" by blast
  qed (auto simp: bs_bit_word)
  then have "card {j. 64 * i \<le> j \<and> j < 64 * Suc i \<and> bs_bit b j} = card {k. k < 64 \<and> bit (bs b ! i) k}"
    by (simp add: card_image)
  also have "{k. k < 64 \<and> bit (bs b ! i) k} = set (filter (bit (bs b ! i)) [0..<64])" by auto
  also have "card \<dots> = length (filter (bit (bs b ! i)) [0..<64])" by (rule distinct_card) simp
  finally show ?thesis by (simp add: builtin_popcountll_def)
qed

lemma pop_count_ok: "bs_inv b \<Longrightarrow> bf_bs_pop_count b = Inr (int (card {j. j < bs_width b \<and> bs_bit b j}), b)"
proof -
  assume inv: "bs_inv b"
  then have sh: "bs_shape b" by (simp add: bs_inv_def)
  define I where "I = (\<lambda>i cnt. cnt = int (card {j. j < 64 * i \<and> bs_bit b j}))"
  have "\<exists>s'. for_loop 0 (bs_words b) (\<lambda>i cnt. bnd (rd (bs b) (int i)) (\<lambda>w.
       Inr (Inr (cnt + int (builtin_popcountll w)) :: int + int))) 0 = Inr (Inr s') \<and> I (bs_words b) s'"
  proof (rule for_loop_fold)
    fix i cnt assume i: "0 \<le> i" "i < bs_words b" "I i cnt"
    define A where "A = {j. j < 64 * i \<and> bs_bit b j}"
    define B where "B = {j. 64 * i \<le> j \<and> j < 64 * Suc i \<and> bs_bit b j}"
    have "{j. j < 64 * Suc i \<and> bs_bit b j} = A \<union> B" by (auto simp: A_def B_def)
    moreover have "card (A \<union> B) = card A + card B"
      by (rule card_Un_disjoint) (auto simp: A_def B_def)
    ultimately have "card {j. j < 64 * Suc i \<and> bs_bit b j} = card {j. j < 64 * i \<and> bs_bit b j} + builtin_popcountll (bs b ! i)"
      by (simp only: popcount_card A_def B_def)
    then show "\<exists>s'. bnd (rd (bs b) (int i)) (\<lambda>w. Inr (Inr (cnt + int (builtin_popcountll w)) :: int + int)) = Inr (Inr s') \<and> I (Suc i) s'"
      using i(3) by (simp add: word_in_array [OF sh i(2)] I_def del: mult_Suc_right)
  qed (simp_all add: I_def)
  then obtain c where c: "for_loop 0 (bs_words b) (\<lambda>i cnt. bnd (rd (bs b) (int i)) (\<lambda>w.
       Inr (Inr (cnt + int (builtin_popcountll w)) :: int + int))) 0 = Inr (Inr c)" "I (bs_words b) c" by blast
  have "j < 64 * bs_words b \<and> bs_bit b j \<longleftrightarrow> j < bs_width b \<and> bs_bit b j" for j
  proof (cases "j < bs_width b")
    case True
    then show ?thesis using width_words [of b] by simp
  next
    case False
    then have "j < 64 * bs_words b \<longrightarrow> \<not> bs_bit b j" using inv by (simp add: bs_inv_def)
    with False show ?thesis by blast
  qed
  then have "c = int (card {j. j < bs_width b \<and> bs_bit b j})" using c(2) by (simp only: I_def)
  then show ?thesis
    unfolding bf_bs_pop_count_def mask_top_inv [OF inv] bnd_simps bs_length_eq [OF sh] c(1) by simp
qed

section \<open>Two sets\<close>

lemma word_offset:
  assumes "bs_shape b" "i < bs_words b"
  shows "s32 (mul32 i 64) = int (64 * i)"
proof -
  have "64 * i < 2147483648" using bs_words_64 [OF assms, of 0] by simp
  then show ?thesis by (simp add: mul32_id W32_def s32_id mult.commute)
qed

lemma bit_words_iff: "(v :: 64 word) = w \<longleftrightarrow> (\<forall>k < 64. bit v k = bit w k)"
  by (auto intro: bit_word_eqI)

lemma bs_equal_ok:
  assumes "bs_inv x" "bs_inv y" "bs_width x = bs_width y"
  shows "bf_bs_equal E x y = Inr (\<forall>j < bs_width x. bs_bit x j = bs_bit y j, x, y)"
proof -
  have sh: "bs_shape x" "bs_shape y" using assms by (simp_all add: bs_inv_def)
  have words: "bs_words y = bs_words x" using assms(3) by (simp add: bs_words_def)
  define D where "D = (\<lambda>i. \<exists>k < 64. 64 * i + k < bs_width x \<and> bs_bit x (64 * i + k) \<noteq> bs_bit y (64 * i + k))"
  have body: "bnd (bf_bs_get_word E x (s32 (mul32 i 64)) 64) (\<lambda>xx. bnd (bf_bs_get_word E y (s32 (mul32 i 64)) 64) (\<lambda>yy.
        Inr (if xx \<noteq> yy then Inl False else Inr ()))) = Inr (if D i then Inl False else Inr ())" if i: "i < bs_words x" for i
  proof -
    have off: "64 * i < bs_width x" by (rule bs_words_offset [OF sh(1) i])
    from get_word_ok [OF sh(1) off, of 64 E] obtain v where v: "bf_bs_get_word E x (int (64 * i)) 64 = Inr v"
      "\<forall>k < 64. bit v k = (k < reach x (64 * i) 64 \<and> bs_bit x (64 * i + k))" by auto
    from get_word_ok [OF sh(2), of "64 * i" 64 E] off assms(3) obtain w where w: "bf_bs_get_word E y (int (64 * i)) 64 = Inr w"
      "\<forall>k < 64. bit w k = (k < reach y (64 * i) 64 \<and> bs_bit y (64 * i + k))" by auto
    have "v \<noteq> w \<longleftrightarrow> D i"
      using v(2) w(2) assms(3) unfolding bit_words_iff D_def by (auto simp: reach_def)
    then show ?thesis unfolding word_offset [OF sh(1) i] v(1) w(1) by simp
  qed
  have "for_loop 0 (bs_words x) (\<lambda>i _. bnd (bf_bs_get_word E x (s32 (mul32 i 64)) 64) (\<lambda>xx.
        bnd (bf_bs_get_word E y (s32 (mul32 i 64)) 64) (\<lambda>yy. Inr (if xx \<noteq> yy then Inl False else Inr ())))) () =
      Inr (case find D [0..<bs_words x] of Some i \<Rightarrow> Inl False | None \<Rightarrow> Inr ())"
    by (rule for_loop_search) (rule body)
  then have "bf_bs_equal E x y = Inr (find D [0..<bs_words x] = None, x, y)"
    using assms(3) by (simp add: bf_bs_equal_def mask_top_inv [OF assms(1)] mask_top_inv [OF assms(2)] bs_length_eq [OF sh(1)] split: option.splits)
  also have "find D [0..<bs_words x] = None \<longleftrightarrow> (\<forall>j < 64 * bs_words x. j < bs_width x \<longrightarrow> bs_bit x j = bs_bit y j)"
    using all_words_iff [of "bs_words x" "\<lambda>j. j < bs_width x \<longrightarrow> bs_bit x j = bs_bit y j"]
    by (simp add: find_None_all D_def Ball_def) blast
  also have "\<dots> \<longleftrightarrow> (\<forall>j < bs_width x. bs_bit x j = bs_bit y j)"
    using width_words [of x] less_le_trans by blast
  finally show ?thesis .
qed

lemma copy_loop_ok:
  assumes "n \<le> length a" "n \<le> length c"
  shows "\<exists>r. for_loop 0 n (\<lambda>i s. bnd (rd c (int i)) (\<lambda>w. bnd (wr s (int i) w) (\<lambda>s. Inr (Inr s)))) a =
    Inr (Inr r :: 'b + 64 word list) \<and> length r = length a \<and> (\<forall>i. r ! i = (if i < n then c ! i else a ! i))"
proof -
  define I where "I = (\<lambda>n (r :: 64 word list). length r = length a \<and> (\<forall>i. r ! i = (if i < n then c ! i else a ! i)))"
  have "\<exists>r. for_loop 0 n (\<lambda>i s. bnd (rd c (int i)) (\<lambda>w. bnd (wr s (int i) w) (\<lambda>s. Inr (Inr s)))) a =
    Inr (Inr r :: 'b + 64 word list) \<and> I n r"
  proof (rule for_loop_fold)
    fix i s assume "0 \<le> i" "i < n" "I i s"
    then show "\<exists>s'. bnd (rd c (int i)) (\<lambda>w. bnd (wr s (int i) w) (\<lambda>s. Inr (Inr s))) = Inr (Inr s') \<and> I (Suc i) s'"
      using assms by (auto simp: I_def nth_list_update)
  qed (simp_all add: I_def)
  then show ?thesis by (simp add: I_def)
qed

lemma bs_copy_ok:
  assumes "bs_inv src" "bs_shape dst" "bs_width src = bs_width dst" "bs_width src mod 64 \<noteq> 0"
  shows "\<exists>dst'. bf_bs_copy E dst src = Inr dst' \<and> bs_inv dst' \<and> bs_width dst' = bs_width src \<and>
    (\<forall>j < bs_width src. bs_bit dst' j = bs_bit src j)"
proof -
  define q r where "q = bs_width src div 64" and "r = bs_width src mod 64"
  have w: "bs_width src = 64 * q + r" "r < 64" "r \<noteq> 0" using assms(4) by (simp_all add: q_def r_def)
  have words: "bs_words src = q + 1" "bs_words dst = q + 1"
    unfolding bs_words_def assms(3) [symmetric] w(1) using w(2,3) by (auto intro!: div_nat_eqI)
  have len: "q < length (bs src)" "q < length (bs dst)" using assms(1,2) words by (auto simp: bs_inv_def bs_shape_def)
  from copy_loop_ok [OF less_imp_le [OF len(2)] less_imp_le [OF len(1)]] obtain a where
    a: "for_loop 0 q (\<lambda>i s. bnd (rd (bs src) (int i)) (\<lambda>w. bnd (wr s (int i) w) (\<lambda>s. Inr (Inr s)))) (bs dst) =
      Inr (Inr a :: 64 word list + 64 word list)"
    "length a = length (bs dst)" "\<forall>i. a ! i = (if i < q then bs src ! i else bs dst ! i)" by blast
  define dst' where "dst' = dst\<lparr>bs := a[q := bs src ! q AND mask r]\<rparr>"
  have "bf_bs_copy E dst src = Inr dst'"
    using assms(3) a len unfolding bf_bs_copy_def Let_def q_def [symmetric] r_def [symmetric] one_shift_minus_1
    by (simp add: dst'_def)
  moreover have bits: "bs_bit dst' j = (j < bs_width src \<and> bs_bit src j)" if "j < 64 * (q + 1)" for j
  proof (cases "j div 64 = q")
    case True
    then have "j < bs_width src \<longleftrightarrow> j mod 64 < r" using w(1) mult_div_mod_eq [of 64 j] by linarith
    with True len(2) a(2) show ?thesis by (auto simp: dst'_def bs_bit_def bit_simps)
  next
    case False
    moreover have "j div 64 < q + 1" using that by (intro less_mult_imp_div_less) (simp add: mult.commute)
    ultimately have "j div 64 < q" by simp
    then have "j < bs_width src" using w(1) by linarith
    with \<open>j div 64 \<noteq> q\<close> len(2) a(2,3) \<open>j div 64 < q\<close> show ?thesis by (simp add: dst'_def bs_bit_def)
  qed
  have "bs_inv dst'"
    using assms(2,3) words(2) bits a(2) by (auto simp: bs_inv_def bs_shape_def bs_words_def dst'_def)
  moreover have "\<forall>j < bs_width src. bs_bit dst' j = bs_bit src j" using bits width_words [of src] words(1) by simp
  ultimately show ?thesis using assms(3) by (intro exI [of _ dst']) (simp add: dst'_def)
qed

lemma bs_copy_bad:
  assumes "bs_shape src" "bs_shape dst" "bs_width src = bs_width dst" "bs_width src mod 64 = 0"
    "length (bs src) = bs_words src"
  shows "bf_bs_copy E dst src = Inl Bad_access"
proof -
  have n: "bs_words src = bs_width src div 64" "bs_words dst = bs_words src"
    using assms(3,4) unfolding bs_words_def by auto
  from copy_loop_ok [of "bs_width src div 64" "bs dst" "bs src"] assms(2,5) n obtain a where
    "for_loop 0 (bs_width src div 64) (\<lambda>i s. bnd (rd (bs src) (int i)) (\<lambda>w. bnd (wr s (int i) w) (\<lambda>s. Inr (Inr s)))) (bs dst) =
      Inr (Inr a :: 64 word list + 64 word list)" by (auto simp: bs_shape_def)
  then show ?thesis using assms(3,5) n by (simp add: bf_bs_copy_def Let_def rd_def)
qed

text \<open>One transfer of at most 64 bits, as in the body of \<open>bf_bs_copy_range\<close>.\<close>

lemma transfer_ok:
  assumes "bs_shape src" "bs_inv dst" "0 < n" "n \<le> 64" "so + n \<le> bs_width src" "d + n \<le> bs_width dst"
  shows "\<exists>dst'. bnd (bf_bs_get_word E src (int so) (int n)) (\<lambda>x. bf_bs_set_word E dst (int d) (int n) x) = Inr dst' \<and>
    bs_inv dst' \<and> bs_width dst' = bs_width dst \<and>
    (\<forall>j. bs_bit dst' j = (if d \<le> j \<and> j < d + n then bs_bit src (so + (j - d)) else bs_bit dst j))"
proof -
  have sh: "bs_shape dst" using assms(2) by (simp add: bs_inv_def)
  have r: "reach src so n = n" "reach dst d n = n" using assms by (auto simp: reach_def)
  from get_word_ok [OF assms(1) _ assms(3,4), of so E] assms(3,5) r(1) obtain x where
    x: "bf_bs_get_word E src (int so) (int n) = Inr x" "\<forall>k < 64. bit x k = (k < n \<and> bs_bit src (so + k))" by auto
  from set_word_ok [OF sh _ assms(3,4), of d E x] assms(3,6) r(2) obtain dst' where
    d: "bf_bs_set_word E dst (int d) (int n) x = Inr dst'" "bs_width dst' = bs_width dst" "length (bs dst') = length (bs dst)"
    "\<forall>j. bs_bit dst' j = (if d \<le> j \<and> j < d + n then bit x (j - d) else bs_bit dst j)" by auto
  have "bs_inv dst'" using assms(2,6) d by (auto intro: bs_inv_cong)
  moreover have "\<forall>j. bs_bit dst' j = (if d \<le> j \<and> j < d + n then bs_bit src (so + (j - d)) else bs_bit dst j)"
    using d(4) x(2) assms(4) by auto
  ultimately show ?thesis using x(1) d(1,2) by simp
qed

lemma range_asserts:
  assumes "bs_shape b" "0 < n" "off + n \<le> bs_width b"
  shows "sub32 (add32 off n) 1 < bs_width b \<and> off < 2147483648"
proof -
  have "add32 off n = off + n" using assms by (intro add32_id) (auto simp: bs_shape_def W32_def)
  moreover have "sub32 (off + n) 1 = off + n - 1" using assms by (intro sub32_id) (auto simp: bs_shape_def W32_def)
  ultimately show ?thesis using assms by (simp add: bs_shape_def)
qed

text \<open>The loop of \<open>bf_bs_copy_range\<close> moves whole words, as many as the source has.\<close>

lemma copy_words:
  assumes "bs_shape src" "bs_inv dst" "so + 64 * q \<le> bs_width src" "d + 64 * q \<le> bs_width dst"
  shows "\<exists>u. for_loop 0 q (\<lambda>i dst. bnd (bf_bs_get_word E src (s32 (so + i * 64)) 64) (\<lambda>x.
       bnd (bf_bs_set_word E dst (s32 (d + i * 64)) 64 x) (\<lambda>dst. Inr (Inr dst :: bf_bitset_t + bf_bitset_t)))) dst = Inr (Inr u) \<and>
    bs_inv u \<and> bs_width u = bs_width dst \<and>
    (\<forall>j. bs_bit u j = (if d \<le> j \<and> j < d + 64 * q then bs_bit src (so + (j - d)) else bs_bit dst j))"
proof -
  let ?I = "\<lambda>i u. bs_inv u \<and> bs_width u = bs_width dst \<and>
    (\<forall>j. bs_bit u j = (if d \<le> j \<and> j < d + 64 * i then bs_bit src (so + (j - d)) else bs_bit dst j))"
  have lt: "bs_width src < 2147483648" "bs_width dst < 2147483648" using assms(1,2) by (simp_all add: bs_shape_def bs_inv_def)
  have "\<exists>u. for_loop 0 q (\<lambda>i dst. bnd (bf_bs_get_word E src (s32 (so + i * 64)) 64) (\<lambda>x.
       bnd (bf_bs_set_word E dst (s32 (d + i * 64)) 64 x) (\<lambda>dst. Inr (Inr dst :: bf_bitset_t + bf_bitset_t)))) dst = Inr (Inr u) \<and> ?I q u"
  proof (rule for_loop_fold)
    fix i u assume i: "i < q" and I: "?I i u"
    have le: "so + i * 64 + 64 \<le> bs_width src" "d + i * 64 + 64 \<le> bs_width u" using i I assms(3,4) by auto
    from transfer_ok [OF assms(1) _ _ _ le, of E] I obtain v where
      v: "bnd (bf_bs_get_word E src (int (so + i * 64)) 64) (\<lambda>x. bf_bs_set_word E u (int (d + i * 64)) 64 x) = Inr v"
      "bs_inv v" "bs_width v = bs_width u"
      "\<forall>j. bs_bit v j = (if d + i * 64 \<le> j \<and> j < d + i * 64 + 64 then bs_bit src (so + i * 64 + (j - (d + i * 64))) else bs_bit u j)"
      by auto
    have "s32 (so + i * 64) = int (so + i * 64)" "s32 (d + i * 64) = int (d + i * 64)" using le lt I by (simp_all add: s32_id)
    then have "bnd (bf_bs_get_word E src (s32 (so + i * 64)) 64) (\<lambda>x.
       bnd (bf_bs_set_word E u (s32 (d + i * 64)) 64 x) (\<lambda>dst. Inr (Inr dst :: bf_bitset_t + bf_bitset_t))) = Inr (Inr v)"
      using v(1) by (auto simp: bnd_eq_Inr_iff)
    moreover have "bs_bit v j = (if d \<le> j \<and> j < d + 64 * Suc i then bs_bit src (so + (j - d)) else bs_bit dst j)" for j
      using v(4) I by (auto simp: algebra_simps)
    ultimately show "\<exists>v. bnd (bf_bs_get_word E src (s32 (so + i * 64)) 64) (\<lambda>x.
       bnd (bf_bs_set_word E u (s32 (d + i * 64)) 64 x) (\<lambda>dst. Inr (Inr dst :: bf_bitset_t + bf_bitset_t))) = Inr (Inr v) \<and> ?I (Suc i) v"
      using v(2,3) I by (intro exI [of _ v]) simp
  qed (use assms(2) in auto)
  then show ?thesis .
qed

lemma get_no_bits: "asserts E \<Longrightarrow> bf_bs_get_word E b p 0 = Inl Assert_failed"
  by (simp add: bf_bs_get_word_def word_asserts_def pos_asserts_def c_assert_def)

lemma bs_copy_range_ok:
  assumes "bs_shape src" "bs_inv dst" "0 < n"
  defines "m \<equiv> 64 * (bs_width src div 64) + n mod 64"
  assumes "so + m \<le> bs_width src" "d + m \<le> bs_width dst" "n \<le> bs_width src"
  shows "if n mod 64 \<noteq> 0
    then \<exists>dst'. bf_bs_copy_range E dst d src so n = Inr dst' \<and> bs_inv dst' \<and> bs_width dst' = bs_width dst \<and>
      (\<forall>j. bs_bit dst' j = (if d \<le> j \<and> j < d + m then bs_bit src (so + (j - d)) else bs_bit dst j))
    else asserts E \<longrightarrow> bf_bs_copy_range E dst d src so n = Inl Assert_failed"
proof -
  define q where "q = bs_width src div 64"
  have m: "m = 64 * q + n mod 64" by (simp add: m_def q_def)
  have sh: "bs_shape dst" using assms(2) by (simp add: bs_inv_def)
  have "n div 64 \<le> q" using assms(7) by (simp add: q_def div_le_mono)
  then have "64 * (n div 64) + n mod 64 \<le> m" unfolding m by (intro add_le_mono mult_le_mono) simp_all
  then have "n \<le> m" by simp
  then have le: "so + n \<le> bs_width src" "d + n \<le> bs_width dst" using assms(5,6) by linarith+
  have q: "so + 64 * q \<le> bs_width src" "d + 64 * q \<le> bs_width dst" using assms(5,6) by (auto simp: m)
  from copy_words [OF assms(1,2) q, of E] obtain u where
    u: "for_loop 0 q (\<lambda>i dst. bnd (bf_bs_get_word E src (s32 (so + i * 64)) 64) (\<lambda>x.
       bnd (bf_bs_set_word E dst (s32 (d + i * 64)) 64 x) (\<lambda>dst. Inr (Inr dst :: bf_bitset_t + bf_bitset_t)))) dst = Inr (Inr u)"
    "bs_inv u" "bs_width u = bs_width dst"
    "\<forall>j. bs_bit u j = (if d \<le> j \<and> j < d + 64 * q then bs_bit src (so + (j - d)) else bs_bit dst j)" by blast
  have eq: "bf_bs_copy_range E dst d src so n =
    bnd (bf_bs_get_word E src (s32 (so + q * 64)) (int (n mod 64))) (\<lambda>x. bf_bs_set_word E u (s32 (d + q * 64)) (int (n mod 64)) x)"
    using range_asserts [OF assms(1,3) le(1)] range_asserts [OF sh assms(3) le(2)]
    unfolding bf_bs_copy_range_def Let_def q_def [symmetric] u(1) by simp
  show ?thesis
  proof (cases "n mod 64 = 0")
    case True
    then show ?thesis by (simp add: eq get_no_bits)
  next
    case False
    have "so + q * 64 + n mod 64 \<le> bs_width src" "d + q * 64 + n mod 64 \<le> bs_width u"
      using assms(5,6) u(3) by (simp_all add: m)
    from transfer_ok [OF assms(1) u(2) _ _ this, of E] False obtain v where
      v: "bnd (bf_bs_get_word E src (int (so + q * 64)) (int (n mod 64))) (\<lambda>x. bf_bs_set_word E u (int (d + q * 64)) (int (n mod 64)) x) = Inr v"
      "bs_inv v" "bs_width v = bs_width u"
      "\<forall>j. bs_bit v j = (if d + q * 64 \<le> j \<and> j < d + q * 64 + n mod 64 then bs_bit src (so + q * 64 + (j - (d + q * 64))) else bs_bit u j)"
      by auto
    have "bs_width src < 2147483648" "bs_width dst < 2147483648" using assms(1) sh by (simp_all add: bs_shape_def)
    then have "s32 (so + q * 64) = int (so + q * 64)" "s32 (d + q * 64) = int (d + q * 64)" using q by (simp_all add: s32_id)
    then have "bf_bs_copy_range E dst d src so n = Inr v" using v(1) by (simp add: eq)
    moreover have "bs_bit v j = (if d \<le> j \<and> j < d + m then bs_bit src (so + (j - d)) else bs_bit dst j)" for j
      using v(4) u(4) by (auto simp: m)
    ultimately show ?thesis using False v(2,3) u(3) by auto
  qed
qed

end
