(* ===== verification/Bitset_Props.thy ===== *)
theory Bitset_Props
  imports Bitset_Ops
begin

text \<open>
  The properties of src/bitset/bitset.c, over the bits of a set (\<open>bs_bit\<close>): searches, single bits,
  words, tests and counts, the copies and where they go wrong.
\<close>

definition bs_ex :: bf_bitset_t where
  "bs_ex = \<lparr>bs_width = 70, bs = [0xF0, 0x3F]\<rparr>"

lemma bs_ex_inv: "bs_inv bs_ex"
proof -
  have "\<not> bs_bit bs_ex j" if "70 \<le> j" "j < 128" for j
  proof -
    have d: "j div 64 = 1" using that by linarith
    moreover have "6 \<le> j mod 64" using that(1) d mult_div_mod_eq [of 64 j] by linarith
    moreover have "\<not> bit (0x3F :: 64 word) k" if "6 \<le> k" for k
    proof -
      have "(0x3F :: 64 word) = mask 6" by (simp add: mask_eq_exp_minus_1)
      then show ?thesis using that by (simp only: bit_mask_iff) simp
    qed
    ultimately show ?thesis by (simp add: bs_bit_def bs_ex_def)
  qed
  then show ?thesis by (auto simp: bs_inv_def bs_shape_def bs_words_def bs_ex_def)
qed

lemma first_set_ok:
  assumes "bs_inv b" "- 1 \<le> position" "position < int (bs_width b)"
  shows "bf_bs_first_set E b position =
    Inr (pos_of (find (bs_bit b) [nat (position + 1)..<bs_width b]), b)"
proof -
  define i where "i = nat (position + 1)"
  have sh: "bs_shape b" using assms(1) by (simp add: bs_inv_def)
  have i: "inc_int position = Inr (int i)" "u32_of_int (int i) = i" "i \<le> bs_width b"
    by (rule bs_step_position [OF sh assms(2,3)]; simp add: i_def)+
  show ?thesis
  proof (cases "i < bs_width b")
    case False
    then show ?thesis using i by (simp add: bf_bs_first_set_def i_def [symmetric])
  next
    case True
    have "word_bit (\<lambda>w. w) b = bs_bit b" by (simp add: fun_eq_iff word_bit_def bs_bit_def)
    moreover have "find (bs_bit b) [bs_width b..<64 * bs_words b] = None"
      using assms(1) by (auto simp: find_None_all bs_inv_def)
    ultimately have "find (word_bit (\<lambda>w. w) b) [i..<64 * bs_words b] = find (bs_bit b) [i..<bs_width b]"
      using find_extend_upt [OF i(3) width_words, of "bs_bit b"] by (simp split: option.splits)
    moreover have "search_result b i (find (bs_bit b) [i..<bs_width b]) = pos_of (find (bs_bit b) [i..<bs_width b])"
    proof (cases "find (bs_bit b) [i..<bs_width b]")
      case (Some p)
      then have "p < bs_width b" by (simp add: find_upt)
      with Some show ?thesis by (simp add: search_result_def)
    qed (simp add: search_result_def)
    ultimately show ?thesis
      using i True search_words_spec [OF sh mask_top_inv [OF assms(1)] True]
      by (simp add: bf_bs_first_set_def i_def [symmetric])
  qed
qed

text \<open>\<open>bf_bs_first_set\<close> returns the least position above \<open>position\<close> whose bit is set, and -1
  exactly when there is none; the set does not change.\<close>

lemma bs_first_set_least:
  assumes "bs_inv b" "- 1 \<le> position" "position < int (bs_width b)"
  shows "bf_bs_first_set E b position =
    Inr (pos_of (find (bs_bit b) [nat (position + 1)..<bs_width b]), b)"
  using assms by (rule first_set_ok)

text \<open>\<open>bf_bs_first_clr\<close> returns the least position above \<open>position\<close> whose bit is clear. When
  there is none it returns -1, except when the search starts in the last, incomplete word: then it
  returns the width, a position outside the set.\<close>

lemma bs_first_clr_least:
  assumes "bs_inv b" "- 1 \<le> position" "position < int (bs_width b)"
  shows "bf_bs_first_clr E b position =
    Inr (case find (\<lambda>p. \<not> bs_bit b p) [nat (position + 1)..<bs_width b] of
        Some p \<Rightarrow> int p
      | None \<Rightarrow> if nat (position + 1) < bs_width b \<and> nat (position + 1) div 64 = bs_width b div 64
               then int (bs_width b) else - 1, b)"
proof -
  define i where "i = nat (position + 1)"
  define P where "P = (\<lambda>p. \<not> bs_bit b p)"
  have sh: "bs_shape b" using assms(1) by (simp add: bs_inv_def)
  have i: "inc_int position = Inr (int i)" "u32_of_int (int i) = i" "i \<le> bs_width b"
    by (rule bs_step_position [OF sh assms(2,3)]; simp add: i_def)+
  show ?thesis
  proof (cases "i < bs_width b")
    case False
    then show ?thesis using i by (simp add: bf_bs_first_clr_def i_def [symmetric])
  next
    case True
    have "find (word_bit (\<lambda>w. NOT w) b) [i..<64 * bs_words b] = find P [i..<64 * bs_words b]"
      by (rule find_cong_upt) (simp add: word_bit_def bs_bit_def bit_not_iff P_def)
    also have "\<dots> = (case find P [i..<bs_width b] of Some p \<Rightarrow> Some p | None \<Rightarrow> find P [bs_width b..<64 * bs_words b])"
      by (rule find_extend_upt [OF i(3) width_words])
    also have "find P [bs_width b..<64 * bs_words b] = (if bs_width b < 64 * bs_words b then Some (bs_width b) else None)"
      using assms(1) by (auto simp: upt_conv_Cons bs_inv_def P_def)
    finally have f: "find (word_bit (\<lambda>w. NOT w) b) [i..<64 * bs_words b] =
       (case find P [i..<bs_width b] of Some p \<Rightarrow> Some p
        | None \<Rightarrow> if bs_width b < 64 * bs_words b then Some (bs_width b) else None)" .
    have "search_result b i (find (word_bit (\<lambda>w. NOT w) b) [i..<64 * bs_words b]) =
      (case find P [i..<bs_width b] of Some p \<Rightarrow> int p
       | None \<Rightarrow> if i div 64 = bs_width b div 64 then int (bs_width b) else - 1)"
    proof (cases "find P [i..<bs_width b]")
      case None
      then show ?thesis using last_word_index [OF True] by (auto simp: f search_result_def)
    next
      case (Some p)
      then have "p < bs_width b" by (simp add: find_upt)
      with Some show ?thesis by (simp add: f search_result_def)
    qed
    then show ?thesis
      using i True search_words_spec [OF sh mask_top_inv [OF assms(1)] True]
      by (simp add: bf_bs_first_clr_def i_def [symmetric] P_def)
  qed
qed

text \<open>C20: The two searches of a bit set. \<open>bf_bs_first_set\<close> returns the least position strictly above
  \<open>position\<close> whose bit is set (the header says that the search starts at \<open>position\<close>), and -1 exactly
  when there is none. \<open>bf_bs_first_clr\<close> returns the least position strictly above \<open>position\<close> whose bit is
  clear; when there is none it returns -1, except when the search starts in the last, incomplete word:
  then it returns the width, a position outside the set. Neither changes the set.\<close>

theorem bs_searches_least:
  assumes "bs_inv b" "- 1 \<le> position" "position < int (bs_width b)"
  shows "bf_bs_first_set E b position = Inr (pos_of (find (bs_bit b) [nat (position + 1)..<bs_width b]), b) \<and>
    bf_bs_first_clr E b position =
      Inr (case find (\<lambda>p. \<not> bs_bit b p) [nat (position + 1)..<bs_width b] of
          Some p \<Rightarrow> int p
        | None \<Rightarrow> if nat (position + 1) < bs_width b \<and> nat (position + 1) div 64 = bs_width b div 64
                 then int (bs_width b) else - 1, b)"
  using bs_first_set_least [OF assms] bs_first_clr_least [OF assms] by blast

lemma bs_searches_least_witness:
  "bf_bs_first_set env0 bs_ex 7 = Inr (pos_of (find (bs_bit bs_ex) [nat (7 + 1)..<bs_width bs_ex]), bs_ex) \<and>
   bf_bs_first_clr env0 bs_ex 64 = Inr (70, bs_ex)"
proof -
  have "find (\<lambda>p. \<not> bs_bit bs_ex p) [nat (64 + 1)..<bs_width bs_ex] = None"
    by (simp add: bs_ex_def bs_bit_def upt_rec)
  then show ?thesis
    using bs_searches_least [OF bs_ex_inv, of 7 env0] bs_searches_least [OF bs_ex_inv, of 64 env0] by (simp add: bs_ex_def)
qed

text \<open>\<open>bf_bs_set\<close> returns the old value of the bit and changes only this bit, which
  \<open>bf_bs_get\<close> then reads.\<close>

lemma bs_set_get:
  assumes "bs_inv b" "j < bs_width b"
  shows "\<exists>b'. bf_bs_set E b (int j) val = Inr (bs_bit b j, b') \<and> bs_inv b' \<and> bs_width b' = bs_width b \<and>
    (\<forall>q < bs_width b. bf_bs_get E b' (int q) = Inr (if q = j then val \<noteq> 0 else bs_bit b q))"
proof -
  have sh: "bs_shape b" using assms(1) by (simp add: bs_inv_def)
  from bs_set_ok [OF sh assms(2), of E val] obtain b' where
    b': "bf_bs_set E b (int j) val = Inr (bs_bit b j, b')" "bs_width b' = bs_width b" "length (bs b') = length (bs b)"
    "\<forall>q. bs_bit b' q = (if q = j then val \<noteq> 0 else bs_bit b q)" by blast
  have inv: "bs_inv b'" using assms b' by (auto intro: bs_inv_cong)
  then have "bs_shape b'" by (simp add: bs_inv_def)
  with b' inv show ?thesis by (auto simp: bs_get_ok)
qed

lemma bs_set_get_witness:
  "\<exists>b'. bf_bs_set env0 bs_ex (int 65) 0 = Inr (bs_bit bs_ex 65, b') \<and> bs_inv b' \<and> bs_width b' = bs_width bs_ex \<and>
    (\<forall>q < bs_width bs_ex. bf_bs_get env0 b' (int q) = Inr (if q = 65 then (0 :: int) \<noteq> 0 else bs_bit bs_ex q))"
  by (rule bs_set_get [OF bs_ex_inv]) (simp add: bs_ex_def)

text \<open>C17: \<open>bf_bs_set_word\<close> writes the low bits of \<open>val\<close> from \<open>position\<close> on, as many as \<open>size\<close> says and
  the set has, also across the boundary of two words, and changes no other bit;
  \<open>bf_bs_get_word\<close> with the same arguments reads back what was written.\<close>

theorem bs_word_roundtrip:
  assumes "bs_inv b" "off < bs_width b" "0 < n" "n \<le> 64"
  shows "\<exists>b'. bf_bs_set_word E b (int off) (int n) val = Inr b' \<and> bs_inv b' \<and> bs_width b' = bs_width b \<and>
    (\<forall>j. bs_bit b' j = (if off \<le> j \<and> j < off + min n (bs_width b - off) then bit val (j - off) else bs_bit b j)) \<and>
    bf_bs_get_word E b' (int off) (int n) = Inr (val AND mask (min n (bs_width b - off)))"
proof -
  have sh: "bs_shape b" using assms(1) by (simp add: bs_inv_def)
  from set_word_ok [OF sh assms(2-4), of E val] obtain b' where
    b': "bf_bs_set_word E b (int off) (int n) val = Inr b'" "bs_width b' = bs_width b" "length (bs b') = length (bs b)"
    "\<forall>j. bs_bit b' j = (if off \<le> j \<and> j < off + reach b off n then bit val (j - off) else bs_bit b j)" by blast
  have inv: "bs_inv b'" using assms b' reach_bounds [OF assms(2-4)] by (auto intro: bs_inv_cong)
  then have sh': "bs_shape b'" by (simp add: bs_inv_def)
  have same: "reach b' off n = reach b off n" by (simp add: reach_def b'(2))
  from get_word_ok [OF sh', of off n E] assms(2-4) b'(2) obtain w where
    w: "bf_bs_get_word E b' (int off) (int n) = Inr w" "\<forall>k < 64. bit w k = (k < reach b off n \<and> bs_bit b' (off + k))"
    unfolding same by auto
  have "w = val AND mask (reach b off n)" unfolding bit_words_iff using w(2) b'(4) by (auto simp: bit_simps)
  with w(1) b'(1,2,4) inv show ?thesis unfolding reach_def by blast
qed

lemma bs_word_roundtrip_witness:
  "\<exists>b'. bf_bs_set_word env0 bs_ex (int 60) (int 64) 0x5A5 = Inr b' \<and> bs_inv b' \<and> bs_width b' = bs_width bs_ex \<and>
    (\<forall>j. bs_bit b' j = (if 60 \<le> j \<and> j < 60 + min 64 (bs_width bs_ex - 60) then bit (0x5A5 :: 64 word) (j - 60) else bs_bit bs_ex j)) \<and>
    bf_bs_get_word env0 b' (int 60) (int 64) = Inr (0x5A5 AND mask (min 64 (bs_width bs_ex - 60)))"
  by (rule bs_word_roundtrip [OF bs_ex_inv]) (simp_all add: bs_ex_def)

text \<open>C27: \<open>bf_bs_all_1s\<close>, \<open>bf_bs_all_0s\<close>, \<open>bf_bs_pop_count\<close> and \<open>bf_bs_equal\<close> answer for the bits below
  the width, and leave the sets alone.\<close>

theorem bs_tests_and_counts:
  assumes "bs_inv b" "bs_inv c" "bs_width c = bs_width b"
  shows "bf_bs_all_1s b = Inr (\<forall>j < bs_width b. bs_bit b j) \<and>
    bf_bs_all_0s b = Inr (\<forall>j < bs_width b. \<not> bs_bit b j, b) \<and>
    bf_bs_pop_count b = Inr (int (card {j. j < bs_width b \<and> bs_bit b j}), b) \<and>
    bf_bs_equal E b c = Inr (\<forall>j < bs_width b. bs_bit b j = bs_bit c j, b, c)"
  using all_1s_ok all_0s_ok pop_count_ok bs_equal_ok [of b c] assms by simp

lemma bs_tests_and_counts_witness:
  "bf_bs_all_1s bs_ex = Inr (\<forall>j < bs_width bs_ex. bs_bit bs_ex j) \<and>
    bf_bs_all_0s bs_ex = Inr (\<forall>j < bs_width bs_ex. \<not> bs_bit bs_ex j, bs_ex) \<and>
    bf_bs_pop_count bs_ex = Inr (int (card {j. j < bs_width bs_ex \<and> bs_bit bs_ex j}), bs_ex) \<and>
    bf_bs_equal env0 bs_ex bs_ex = Inr (\<forall>j < bs_width bs_ex. bs_bit bs_ex j = bs_bit bs_ex j, bs_ex, bs_ex)"
  by (rule bs_tests_and_counts [OF bs_ex_inv bs_ex_inv refl])

text \<open>C28: Setting up a bit set of a positive width. The declaration macro \<open>BF_BITSET\<close> reserves
  exactly the words that the width needs and leaves every bit clear; \<open>bf_bs_init\<close> over any array that is
  large enough, followed by \<open>bf_bs_set_all\<close>, makes every bit \<open>val\<close>. Both establish the
  invariant the other functions need.\<close>

theorem bs_set_up:
  assumes "0 < width" "width + 63 < 2 ^ 31" "nat width \<le> 64 * length m" "val = 0 \<or> val = 1"
  shows "(\<exists>b. BF_BITSET E b0 width = Inr b \<and> bs_inv b \<and> bs_width b = nat width \<and> length (bs b) = bs_words b \<and>
      (\<forall>j < 64 * bs_words b. \<not> bs_bit b j)) \<and>
    (\<exists>b b'. bf_bs_init E b0 width m = Inr b \<and> bf_bs_set_all E b val = Inr b' \<and> bs_inv b' \<and>
      bs_width b' = nat width \<and> (\<forall>j < nat width. bs_bit b' j = (val = 1)))"
proof
  have u: "u32_of_int width = nat width" using assms by (intro u32_of_int_id) (auto simp: W32_def)
  define k where "k = nat ((width + 63) div 64)"
  have k: "k = (nat width + 63) div 64" using assms(1) by (simp add: k_def nat_div_distrib nat_add_distrib)
  let ?b = "b0\<lparr>bs := replicate k 0, bs_width := nat width\<rparr>"
  have "BF_BITSET E b0 width = Inr ?b"
    using assms(1,2) by (simp add: BF_BITSET_def BF_BITSET_ARRAY_SIZE_def bf_bs_init_def u k_def)
  moreover have words: "bs_words ?b = k" by (simp add: bs_words_def k)
  moreover have "\<not> bs_bit ?b j" if "j < 64 * k" for j
    using that by (simp add: bs_bit_def less_mult_imp_div_less mult.commute)
  ultimately show "\<exists>b. BF_BITSET E b0 width = Inr b \<and> bs_inv b \<and> bs_width b = nat width \<and> length (bs b) = bs_words b \<and>
      (\<forall>j < 64 * bs_words b. \<not> bs_bit b j)"
    using assms(1,2) by (intro exI [of _ ?b]) (auto simp: bs_inv_def bs_shape_def)
  have "bs_shape (b0\<lparr>bs := m, bs_width := nat width\<rparr>)" using assms(1-3) by (auto simp: bs_shape_def bs_words_def)
  from set_all_ok [OF this assms(4), of E]
  show "\<exists>b b'. bf_bs_init E b0 width m = Inr b \<and> bf_bs_set_all E b val = Inr b' \<and> bs_inv b' \<and>
      bs_width b' = nat width \<and> (\<forall>j < nat width. bs_bit b' j = (val = 1))"
    using assms(1) by (auto simp: bf_bs_init_def u)
qed

lemma bs_set_up_witness:
  "(\<exists>b. BF_BITSET env0 bs_ex 100 = Inr b \<and> bs_inv b \<and> bs_width b = nat 100 \<and> length (bs b) = bs_words b \<and>
      (\<forall>j < 64 * bs_words b. \<not> bs_bit b j)) \<and>
    (\<exists>b b'. bf_bs_init env0 bs_ex 100 [7, 8] = Inr b \<and> bf_bs_set_all env0 b 1 = Inr b' \<and> bs_inv b' \<and>
      bs_width b' = nat 100 \<and> (\<forall>j < nat 100. bs_bit b' j = ((1 :: int) = 1)))"
  by (rule bs_set_up) simp_all

text \<open>\<open>bf_bs_copy\<close> copies all bits of a set whose width is not a multiple of 64; with one that is,
  it reads past the end of an array of the documented length.\<close>

lemma bs_copy_cases:
  assumes "bs_inv src" "bs_shape dst" "bs_width src = bs_width dst"
  shows "if bs_width src mod 64 \<noteq> 0
    then \<exists>dst'. bf_bs_copy E dst src = Inr dst' \<and> bs_inv dst' \<and> bs_width dst' = bs_width src \<and>
      (\<forall>j < bs_width src. bs_bit dst' j = bs_bit src j)
    else length (bs src) = bs_words src \<longrightarrow> bf_bs_copy E dst src = Inl Bad_access"
proof (cases "bs_width src mod 64 = 0")
  case True
  have "bs_shape src" using assms(1) by (simp add: bs_inv_def)
  with True bs_copy_bad [OF _ assms(2,3) True, of E] show ?thesis by simp
next
  case False
  with bs_copy_ok [OF assms False, of E] show ?thesis by simp
qed

lemma bs_small_inv: "bs_inv \<lparr>bs_width = 9, bs = [0]\<rparr>"
  by (auto simp: bs_inv_def bs_shape_def bs_words_def bs_bit_def)

text \<open>C39: The copies between two sets of one width \<open>w\<close>. \<open>bf_bs_copy\<close> copies all bits when the width is
  not a multiple of 64; when it is, it reads past the end of an array of the size the header
  documents. \<open>bf_bs_copy_range\<close> moves, where they fit, not the \<open>n\<close> bits it is asked for but
  \<open>m\<close> of them: all whole words of the source and the remainder of \<open>n\<close> by 64 (so \<open>n\<close> itself in
  sets of fewer than 64 bits), and no other bit; when \<open>n\<close> is a multiple of 64 it fails an assertion.\<close>

theorem bs_copies_spec:
  assumes "bs_inv src" "bs_inv dst" "bs_width src = w" "bs_width dst = w" "0 < n" "n \<le> w"
    and "m = 64 * (w div 64) + n mod 64" "so + m \<le> w" "d + m \<le> w"
  shows "(if w mod 64 \<noteq> 0
      then \<exists>dst'. bf_bs_copy E dst src = Inr dst' \<and> bs_inv dst' \<and> bs_width dst' = w \<and>
        (\<forall>j < w. bs_bit dst' j = bs_bit src j)
      else length (bs src) = bs_words src \<longrightarrow> bf_bs_copy E dst src = Inl Bad_access) \<and>
    (if n mod 64 \<noteq> 0
      then \<exists>dst'. bf_bs_copy_range E dst d src so n = Inr dst' \<and> bs_inv dst' \<and> bs_width dst' = w \<and>
        (\<forall>j. bs_bit dst' j = (if d \<le> j \<and> j < d + m then bs_bit src (so + (j - d)) else bs_bit dst j))
      else asserts E \<longrightarrow> bf_bs_copy_range E dst d src so n = Inl Assert_failed)"
proof -
  have sh: "bs_shape src" "bs_shape dst" using assms(1,2) by (simp_all add: bs_inv_def)
  note c = bs_copy_cases [OF assms(1) sh(2), of E, unfolded assms(3,4), OF refl]
  have "so + (64 * (bs_width src div 64) + n mod 64) \<le> bs_width src" "d + (64 * (bs_width src div 64) + n mod 64) \<le> bs_width dst"
    "n \<le> bs_width src" using assms by simp_all
  note r = bs_copy_range_ok [OF sh(1) assms(2,5) this, of E, unfolded assms(3,4), folded assms(7)]
  from c r show ?thesis by (rule conjI)
qed

lemma bs_copies_spec_witness:
  "(\<exists>dst'. bf_bs_copy env0 bs_ex bs_ex = Inr dst' \<and> bs_inv dst' \<and> bs_width dst' = 70 \<and>
      (\<forall>j < 70. bs_bit dst' j = bs_bit bs_ex j)) \<and>
   (\<exists>dst'. bf_bs_copy_range env0 bs_ex 3 bs_ex 1 2 = Inr dst' \<and> bs_inv dst' \<and> bs_width dst' = 70 \<and>
      (\<forall>j. bs_bit dst' j = (if 3 \<le> j \<and> j < 3 + 66 then bs_bit bs_ex (1 + (j - 3)) else bs_bit bs_ex j)))"
proof -
  have w: "bs_width bs_ex = 70" by (simp add: bs_ex_def)
  show ?thesis
    using bs_copies_spec [OF bs_ex_inv bs_ex_inv w w, where n = 2 and so = 1 and d = 3 and m = 66 and E = env0] by simp
qed

end
