(* ===== verification/Bit_Set.thy ===== *)
theory Bit_Set
  imports FBitset Bitset_Props
begin

text \<open>
  The contract that the two bit sets of the library share (bitset.c over an array of words, fbitset.c
  over a Judy1 array), and its interpretations: writing a bit returns the old one and changes no
  other, the search finds the least set bit. From it follows that the two are interchangeable.
\<close>

section \<open>The contract\<close>

text \<open>Writes on an abstract set of bits: the old values, and the bits.\<close>

fun bits_run :: "(nat \<Rightarrow> bool) \<Rightarrow> (nat \<times> bool) list \<Rightarrow> bool list \<times> (nat \<Rightarrow> bool)" where
  "bits_run f [] = ([], f)"
| "bits_run f ((i, v) # us) = (let (rs, g) = bits_run (f(i := v)) us in (f i # rs, g))"

text \<open>The last write to a bit is its value.\<close>

lemma bits_run_last: "snd (bits_run f us) j = (case map_of (rev us) j of None \<Rightarrow> f j | Some v \<Rightarrow> v)"
  by (induction us arbitrary: f) (auto simp: case_prod_unfold Let_def map_add_def split: option.splits)

locale bit_set =
  fixes ok :: "'s \<Rightarrow> bool"
    and size :: "'s \<Rightarrow> nat"
    and bit_at :: "'s \<Rightarrow> nat \<Rightarrow> bool"
    and put :: "'s \<Rightarrow> nat \<Rightarrow> bool \<Rightarrow> bool \<times> 's"
    and first_from :: "'s \<Rightarrow> nat \<Rightarrow> nat option"
  assumes put_law: "ok s \<Longrightarrow> i < size s \<Longrightarrow>
      \<exists>s'. put s i v = (bit_at s i, s') \<and> ok s' \<and> size s' = size s \<and> (\<forall>j < size s. bit_at s' j = (if j = i then v else bit_at s j))"
    and first_law: "ok s \<Longrightarrow> i < size s \<Longrightarrow> first_from s i = find (bit_at s) [i..<size s]"
begin

fun put_run :: "'s \<Rightarrow> (nat \<times> bool) list \<Rightarrow> bool list \<times> 's" where
  "put_run s [] = ([], s)"
| "put_run s ((i, v) # us) = (let (r, s') = put s i v; (rs, t) = put_run s' us in (r # rs, t))"

lemma put_run_spec:
  "ok s \<Longrightarrow> \<forall>(i, v) \<in> set us. i < size s \<Longrightarrow> \<forall>j < size s. bit_at s j = f j \<Longrightarrow>
    \<exists>t. put_run s us = (fst (bits_run f us), t) \<and> ok t \<and> size t = size s \<and> (\<forall>j < size s. bit_at t j = snd (bits_run f us) j)"
proof (induction us arbitrary: s f)
  case (Cons u us)
  obtain i v where u: "u = (i, v)" by (cases u)
  have i: "i < size s" using Cons.prems(2) by (simp add: u)
  from put_law [OF Cons.prems(1) i, of v] obtain s' where
    s': "put s i v = (bit_at s i, s')" "ok s'" "size s' = size s" "\<forall>j < size s. bit_at s' j = (if j = i then v else bit_at s j)" by blast
  have "\<forall>j < size s'. bit_at s' j = (f(i := v)) j" "\<forall>(i, v) \<in> set us. i < size s'" using s' Cons.prems(2,3) by (auto simp: u)
  from Cons.IH [OF s'(2) this(2,1)] obtain t where
    "put_run s' us = (fst (bits_run (f(i := v)) us), t)" "ok t" "size t = size s'"
    "\<forall>j < size s'. bit_at t j = snd (bits_run (f(i := v)) us) j" by blast
  with s' i Cons.prems(3) show ?case by (auto simp: u case_prod_unfold Let_def)
qed simp

lemma first_run:
  assumes "ok s" "\<forall>(i, v) \<in> set us. i < size s" "\<forall>j < size s. bit_at s j = f j" "i < size s"
  shows "first_from (snd (put_run s us)) i = find (snd (bits_run f us)) [i..<size s]"
proof -
  from put_run_spec [OF assms(1-3)] obtain t where
    t: "put_run s us = (fst (bits_run f us), t)" "ok t" "size t = size s" "\<forall>j < size s. bit_at t j = snd (bits_run f us) j" by blast
  have "find (bit_at t) [i..<size s] = find (snd (bits_run f us)) [i..<size s]"
    using t(4) by (intro find_cong) auto
  with first_law [OF t(2), of i] t assms(4) show ?thesis by simp
qed

end

section \<open>The two implementations\<close>

definition bs_put :: "env \<times> bf_bitset_t \<Rightarrow> nat \<Rightarrow> bool \<Rightarrow> bool \<times> env \<times> bf_bitset_t" where
  "bs_put s i v = (case s of (E, b) \<Rightarrow>
     (case bf_bs_set E b (int i) (of_bool v) of Inr (r, b') \<Rightarrow> (r, E, b') | Inl _ \<Rightarrow> (False, s)))"

definition bs_find :: "env \<times> bf_bitset_t \<Rightarrow> nat \<Rightarrow> nat option" where
  "bs_find s i = (case s of (E, b) \<Rightarrow>
     (case bf_bs_first_set E b (int i - 1) of Inr (p, _) \<Rightarrow> if p < 0 then None else Some (nat p) | Inl _ \<Rightarrow> None))"

definition fbs_put :: "env \<times> bf_fbitset_t \<Rightarrow> nat \<Rightarrow> bool \<Rightarrow> bool \<times> env \<times> bf_fbitset_t" where
  "fbs_put s i v = (case s of (E, b) \<Rightarrow>
     (case bf_fbs_set E b (int i) (of_bool v) of Inr (r, b') \<Rightarrow> (r, E, b') | Inl _ \<Rightarrow> (False, s)))"

definition fbs_find :: "env \<times> bf_fbitset_t \<Rightarrow> nat \<Rightarrow> nat option" where
  "fbs_find s i = (case s of (E, b) \<Rightarrow>
     (case bf_fbs_first_set E b (int i - 1) of Inr p \<Rightarrow> if p < 0 then None else Some (nat p) | Inl _ \<Rightarrow> None))"

lemma pos_of_back: "(if pos_of r < 0 then None else Some (nat (pos_of r))) = r"
  by (cases r) simp_all

lemma fbs_get_ok:
  assumes "fbs_inv b" "q < fbs_width b"
  shows "bf_fbs_get E b (int q) = Inr (q \<in> set (fbs b))"
proof -
  have "u32_of_int (int q) = q" "u64_of_int (int q) = q"
    using assms by (auto simp: fbs_inv_def u32_of_int_id u64_of_int_id W32_def W64_def)
  with assms(2) show ?thesis by (simp add: bf_fbs_get_def J1T_def)
qed

interpretation words: bit_set
  "\<lambda>(E, b). quiet E \<and> bs_inv b" "\<lambda>(E, b). bs_width b" "\<lambda>(E, b). bs_bit b" bs_put bs_find
proof (unfold_locales, goal_cases)
  case (1 s i v)
  obtain E b where s: "s = (E, b)" by (cases s)
  with 1 have b: "bs_inv b" "i < bs_width b" by auto
  from bs_set_get [OF b, of E "of_bool v"] obtain b' where
    b': "bf_bs_set E b (int i) (of_bool v) = Inr (bs_bit b i, b')" "bs_inv b'" "bs_width b' = bs_width b"
    "\<forall>q < bs_width b. bf_bs_get E b' (int q) = Inr (if q = i then v else bs_bit b q)" by auto
  have "\<forall>q < bs_width b. bs_bit b' q = (if q = i then v else bs_bit b q)"
    using b' bs_get_ok [of b' _ E] by (auto simp: bs_inv_def)
  with b' 1 show ?case by (simp add: s bs_put_def)
next
  case (2 s i)
  obtain E b where s: "s = (E, b)" by (cases s)
  with 2 have b: "bs_inv b" "i < bs_width b" by auto
  from first_set_ok [OF b(1), of "int i - 1" E] b(2) show ?case by (simp add: s bs_find_def pos_of_back)
qed

interpretation judy_bits: bit_set
  "\<lambda>(E, b). quiet E \<and> fbs_inv b" "\<lambda>(E, b). fbs_width b" "\<lambda>(E, b) j. j \<in> set (fbs b)" fbs_put fbs_find
proof (unfold_locales, goal_cases)
  case (1 s i v)
  obtain E b where s: "s = (E, b)" by (cases s)
  with 1 have b: "quiet E" "fbs_inv b" "i < fbs_width b" by auto
  from fbs_set_get [OF b(1,2), of "int i" "of_bool v"] b(3) obtain b' where
    b': "bf_fbs_set E b (int i) (of_bool v) = Inr (i \<in> set (fbs b), b')" "fbs_inv b'" "fbs_width b' = fbs_width b"
    "\<forall>q < fbs_width b. bf_fbs_get E b' (int q) = (if q = i then Inr v else bf_fbs_get E b (int q))" by auto
  have "\<forall>q < fbs_width b. q \<in> set (fbs b') \<longleftrightarrow> (if q = i then v else q \<in> set (fbs b))"
    using b' fbs_get_ok [OF b'(2), of _ E] fbs_get_ok [OF b(2), of _ E] by (auto split: if_splits)
  with b' b show ?case by (simp add: s fbs_put_def)
next
  case (2 s i)
  obtain E b where s: "s = (E, b)" by (cases s)
  with 2 have b: "fbs_inv b" "i < fbs_width b" "int i - 1 < 2 ^ 31 - 1" by (auto simp: fbs_inv_def)
  from fbs_first_set_least [OF b(1) _ b(3), of E] show ?case by (simp add: s fbs_find_def pos_of_back)
qed

section \<open>The implementations agree\<close>

fun bs_puts :: "env \<times> bf_bitset_t \<Rightarrow> (nat \<times> bool) list \<Rightarrow> bool list \<times> env \<times> bf_bitset_t" where
  "bs_puts s [] = ([], s)"
| "bs_puts s ((i, v) # us) = (let (r, s') = bs_put s i v; (rs, t) = bs_puts s' us in (r # rs, t))"

fun fbs_puts :: "env \<times> bf_fbitset_t \<Rightarrow> (nat \<times> bool) list \<Rightarrow> bool list \<times> env \<times> bf_fbitset_t" where
  "fbs_puts s [] = ([], s)"
| "fbs_puts s ((i, v) # us) = (let (r, s') = fbs_put s i v; (rs, t) = fbs_puts s' us in (r # rs, t))"

lemma bs_puts_run: "bs_puts s us = words.put_run s us"
proof (induction us arbitrary: s)
  case (Cons u us)
  then show ?case by (cases u) (simp add: case_prod_unfold Let_def)
qed simp

lemma fbs_puts_run: "fbs_puts s us = judy_bits.put_run s us"
proof (induction us arbitrary: s)
  case (Cons u us)
  then show ?case by (cases u) (simp add: case_prod_unfold Let_def)
qed simp

text \<open>C32: A bit set over an array of words and one over a Judy array, with the same width and the same
  bits, are interchangeable: any sequence of \<open>bf_bs_set\<close> calls returns the old bits that the sequence of
  \<open>bf_fbs_set\<close> calls returns (the bits of the abstract run), and afterwards \<open>bf_bs_first_set\<close> and
  \<open>bf_fbs_first_set\<close> find the same position from everywhere: the least one whose last write was 1, or that
  was set before and not written.\<close>

theorem bitsets_agree:
  assumes "quiet E" "bs_inv b" "fbs_inv c" "bs_width b = fbs_width c" "\<forall>j < bs_width b. bs_bit b j = (j \<in> set (fbs c))"
    and us: "\<forall>(i, v) \<in> set us. i < bs_width b" and i: "i < bs_width b"
  shows "fst (bs_puts (E, b) us) = fst (bits_run (bs_bit b) us) \<and> fst (fbs_puts (E, c) us) = fst (bits_run (bs_bit b) us) \<and>
    bs_find (snd (bs_puts (E, b) us)) i = fbs_find (snd (fbs_puts (E, c) us)) i \<and>
    bs_find (snd (bs_puts (E, b) us)) i =
      find (\<lambda>j. case map_of (rev us) j of None \<Rightarrow> bs_bit b j | Some v \<Rightarrow> v) [i..<bs_width b]"
proof -
  let ?f = "bs_bit b"
  have f: "\<forall>j < fbs_width c. (j \<in> set (fbs c)) = ?f j" using assms(4,5) by simp
  have 1: "\<exists>t. bs_puts (E, b) us = (fst (bits_run ?f us), t)"
    using words.put_run_spec [of "(E, b)" us ?f] assms by (auto simp: bs_puts_run)
  have 2: "\<exists>t. fbs_puts (E, c) us = (fst (bits_run ?f us), t)"
    using judy_bits.put_run_spec [of "(E, c)" us ?f] assms(1,3) us [unfolded assms(4)] f by (auto simp: fbs_puts_run)
  have 3: "bs_find (snd (bs_puts (E, b) us)) i = find (snd (bits_run ?f us)) [i..<bs_width b]"
    using words.first_run [of "(E, b)" us ?f i] assms by (auto simp: bs_puts_run)
  have 4: "fbs_find (snd (fbs_puts (E, c) us)) i = find (snd (bits_run ?f us)) [i..<bs_width b]"
    using judy_bits.first_run [of "(E, c)" us ?f i] assms(1,3) us [unfolded assms(4)] i [unfolded assms(4)] f
    by (simp add: fbs_puts_run assms(4))
  have 5: "snd (bits_run ?f us) = (\<lambda>j. case map_of (rev us) j of None \<Rightarrow> ?f j | Some v \<Rightarrow> v)"
    by (rule ext) (rule bits_run_last)
  from 1 2 have 6: "fst (bs_puts (E, b) us) = fst (bits_run ?f us)" "fst (fbs_puts (E, c) us) = fst (bits_run ?f us)"
    by (elim exE, simp)+
  show ?thesis unfolding 6 3 4 5 by blast
qed

text \<open>Two empty sets of 70 bits.\<close>

definition no_bits :: bf_bitset_t where
  "no_bits = \<lparr>bs_width = 70, bs = [0, 0]\<rparr>"

definition no_ids :: bf_fbitset_t where
  "no_ids = \<lparr>fbs_width = 70, fbs = []\<rparr>"

lemma no_bits_inv: "bs_inv no_bits" "bs_bit no_bits j = False" if "j < 70"
proof -
  have z: "bs_bit no_bits j = False" if "j < 128" for j
  proof -
    have "[0, 0] ! (j div 64) = (0 :: 64 word)" using that by (cases "j div 64") (auto simp: nth_Cons' less_mult_imp_div_less)
    then show ?thesis by (simp add: bs_bit_def no_bits_def)
  qed
  then show "bs_bit no_bits j = False" using that by simp
  show "bs_inv no_bits" using z by (auto simp: bs_inv_def bs_shape_def bs_words_def no_bits_def)
qed

definition writes :: "(nat \<times> bool) list" where
  "writes = [(65, True), (3, True), (65, False), (3, True)]"

theorem bitsets_agree_witness:
  "fst (bs_puts (env0, no_bits) writes) = [False, False, True, True] \<and>
    fst (fbs_puts (env0, no_ids) writes) = [False, False, True, True]"
proof -
  have n: "fbs_inv no_ids" "bs_width no_bits = fbs_width no_ids" "0 < bs_width no_bits" "bs_inv no_bits"
    "\<forall>j < bs_width no_bits. bs_bit no_bits j = (j \<in> set (fbs no_ids))" "\<forall>(i, v) \<in> set writes. i < bs_width no_bits"
    using no_bits_inv [of 0] no_bits_inv(2) by (simp_all add: fbs_inv_def no_ids_def no_bits_def writes_def)
  have r: "fst (bits_run (bs_bit no_bits) writes) = [False, False, True, True]"
    using no_bits_inv(2) by (simp add: writes_def)
  from bitsets_agree [OF quiet_env0 n(4,1,2,5,6,3)] r show ?thesis by simp
qed

end
