(* ===== verification/Container_Failures.thy ===== *)
theory Container_Failures
  imports Failures Id_Props
begin

text \<open>
  The id allocator when insertions fail: it hands out an id that it has not marked. (The map reports the
  failure, Map\_Client; the bit set loses a write, FBitset.)
\<close>

section \<open>Ids\<close>

text \<open>C36: \<open>bf_id_allocator_allocate\<close> when insertions into the Judy array may fail: it always returns the
  smallest free id, but when the insertion of this id fails the allocator is unchanged and does
  not know that the id is taken, so the next call hands out the same id again. When it succeeds, the id is
  marked and the invariant kept.\<close>

theorem id_allocate_failed_insertion:
  assumes "only_inserts E" "id_inv a" "p < id_size a" "p \<notin> set (PJ1Array a)" "\<forall>q < p. q \<in> set (PJ1Array a)"
  shows "if j1_err E JIns (PJ1Array a) p
    then bf_id_allocator_allocate E (Some a) = Inr (id_of_index a p, a) \<and>
      bf_id_allocator_is_set E (Some a) (id_of_index a p) = Inr 0
    else \<exists>b. bf_id_allocator_allocate E (Some a) = Inr (id_of_index a p, b) \<and> id_inv b \<and>
      bf_id_allocator_is_set E (Some b) (id_of_index b p) = Inr 1 \<and> set (PJ1Array b) = insert p (set (PJ1Array a))"
proof -
  have size: "id_size a < M1" and ok: "j1_ok (PJ1Array a)" using assms(2) by (simp_all add: id_inv_def)
  have p: "p < M1" "p < W64" using assms(3) size less_trans [OF less_M1 W32_less_W64, of p] by auto
  obtain k where k: "j1_first_empty (PJ1Array a) 0 = Some k" "k \<notin> set (PJ1Array a)" "\<forall>j. 0 \<le> j \<and> j < k \<longrightarrow> j \<in> set (PJ1Array a)"
    using j1_first_empty_spec [OF assms(2), of 0] by auto
  have "k = p" using k(2,3) assms(4,5) by (metis le0 linorder_neqE_nat)
  let ?s = "snd (J1S E (PJ1Array a) p)"
  have alloc: "bf_id_allocator_allocate E (Some a) = Inr (id_of_index a p, a\<lparr>PJ1Array := ?s\<rparr>)"
    using k(1) assms(3) id_result_ok(1) [OF assms(2,3)] unfolding \<open>k = p\<close>
    by (simp add: bf_id_allocator_allocate_def bf_id_allocator_allocate_contiguous_def J1FE_def)
  show ?thesis
  proof (cases "j1_err E JIns (PJ1Array a) p")
    case True
    then show ?thesis using alloc is_set_index [OF p(1), of E a] assms(4) by (simp add: J1S_def)
  next
    case False
    then have s: "?s = j1_put p (PJ1Array a)" using assms(4) by (simp add: J1S_def)
    then have "id_inv (a\<lparr>PJ1Array := ?s\<rparr>)" using assms(2,3) j1_ok_put [OF ok p(2)] by (simp add: id_inv_def)
    with alloc s False is_set_index [OF p(1), of E "a\<lparr>PJ1Array := ?s\<rparr>"] show ?thesis by simp
  qed
qed

lemma id_allocate_failed_insertion_witness:
  "bf_id_allocator_allocate env_dry (Some ids3) = Inr (1, ids3) \<and> bf_id_allocator_is_set env_dry (Some ids3) 1 = Inr 0"
proof -
  have "0 < id_size ids3" "0 \<notin> set (PJ1Array ids3)" "id_of_index ids3 0 = 1" "j1_err env_dry JIns (PJ1Array ids3) 0"
    by (simp_all add: ids3_def id_of_index_def)
  with id_allocate_failed_insertion [of env_dry ids3 0] show ?thesis by simp
qed

end
