(* ===== verification/Dll.thy ===== *)
theory Dll
  imports Judy
begin

text \<open>
  include/target-utils/list/bf\_list.h: macros for doubly linked lists of structs that have a next
  and a previous field. The previous field of the head points to the last element, the next
  field of the last element is NULL. The heap \<open>cells\<close> gives the two fields of the element at an
  address; 0 is NULL, and reading or writing a field through NULL or an address without an element is
  \<open>Bad_access\<close>. A macro is a function of the heap and the list variable \<open>l\<close> and returns both; the
  statements of the macro are the updates, in the order of the source. \<open>l\<close> and \<open>e\<close> are different
  variables here; \<open>dll_rem_head\<close> is the expansion of the removal with \<open>l\<close> in both places.
\<close>

record cell =
  nx :: nat
  pv :: nat

type_synonym cells = "nat \<Rightarrow> cell option"

definition cell_at :: "cells \<Rightarrow> nat \<Rightarrow> cell res" where
  "cell_at h e = (if e = 0 then Inl Bad_access else case h e of None \<Rightarrow> Inl Bad_access | Some c \<Rightarrow> Inr c)"

definition get_n :: "cells \<Rightarrow> nat \<Rightarrow> nat res" where
  "get_n h e = bnd (cell_at h e) (\<lambda>c. Inr (nx c))"

definition get_p :: "cells \<Rightarrow> nat \<Rightarrow> nat res" where
  "get_p h e = bnd (cell_at h e) (\<lambda>c. Inr (pv c))"

definition set_n :: "cells \<Rightarrow> nat \<Rightarrow> nat \<Rightarrow> cells res" where
  "set_n h e v = bnd (cell_at h e) (\<lambda>c. Inr (h(e \<mapsto> c\<lparr>nx := v\<rparr>)))"

definition set_p :: "cells \<Rightarrow> nat \<Rightarrow> nat \<Rightarrow> cells res" where
  "set_p h e v = bnd (cell_at h e) (\<lambda>c. Inr (h(e \<mapsto> c\<lparr>pv := v\<rparr>)))"

section \<open>The macros\<close>

definition dll_pp :: "env \<Rightarrow> cells \<Rightarrow> nat \<Rightarrow> nat \<Rightarrow> (cells \<times> nat) res" where
  "dll_pp E h l e =
     bnd (c_assert E (e \<noteq> 0)) (\<lambda>_.
     bnd (set_n h e l) (\<lambda>h.
     bnd (if l \<noteq> 0 then bnd (get_p h l) (\<lambda>v. bnd (set_p h e v) (\<lambda>h. set_p h l e))
          else set_p h e e) (\<lambda>h.
     Inr (h, e))))"

definition dll_last :: "cells \<Rightarrow> nat \<Rightarrow> nat res" where
  "dll_last h l = (if l \<noteq> 0 then get_p h l else Inr 0)"

definition dll_ap :: "env \<Rightarrow> cells \<Rightarrow> nat \<Rightarrow> nat \<Rightarrow> (cells \<times> nat) res" where
  "dll_ap E h l e =
     bnd (c_assert E (e \<noteq> 0)) (\<lambda>_.
     bnd (set_n h e 0) (\<lambda>h.
     if l \<noteq> 0 then
       bnd (get_p h l) (\<lambda>v. bnd (set_p h e v) (\<lambda>h.
       bnd (get_p h l) (\<lambda>v. bnd (c_assert E (v \<noteq> 0)) (\<lambda>_.
       bnd (get_p h l) (\<lambda>v. bnd (set_n h v e) (\<lambda>h.
       bnd (set_p h l e) (\<lambda>h. Inr (h, l))))))))
     else bnd (set_p h e e) (\<lambda>h. Inr (h, e))))"

definition dll_rem :: "env \<Rightarrow> cells \<Rightarrow> nat \<Rightarrow> nat \<Rightarrow> (cells \<times> nat) res" where
  "dll_rem E h l e =
     bnd (c_assert E (e \<noteq> 0)) (\<lambda>_.
     bnd (get_p h e) (\<lambda>ep.
     bnd (if ep = e then Inr (h, 0)
          else if e = l then
            bnd (get_n h e) (\<lambda>en. bnd (c_assert E (en \<noteq> 0)) (\<lambda>_.
            bnd (get_p h e) (\<lambda>ep. bnd (set_p h en ep) (\<lambda>h.
            bnd (get_n h e) (\<lambda>en. Inr (h, en))))))
          else
            bnd (c_assert E (ep \<noteq> 0)) (\<lambda>_.
            bnd (get_n h e) (\<lambda>en. bnd (set_n h ep en) (\<lambda>h.
            bnd (get_n h e) (\<lambda>en.
            if en \<noteq> 0 then bnd (get_p h e) (\<lambda>ep. bnd (set_p h en ep) (\<lambda>h. Inr (h, l)))
            else bnd (c_assert E (l \<noteq> 0)) (\<lambda>_. bnd (get_p h e) (\<lambda>ep. bnd (set_p h l ep) (\<lambda>h. Inr (h, l))))))))) (\<lambda>(h, l).
     bnd (set_p h e 0) (\<lambda>h. bnd (set_n h e 0) (\<lambda>h. Inr (h, l))))))"

definition dll_cat :: "env \<Rightarrow> cells \<Rightarrow> nat \<Rightarrow> nat \<Rightarrow> (cells \<times> nat \<times> nat) res" where
  "dll_cat E h f s =
     (if s \<noteq> 0 \<and> f \<noteq> 0 then
        bnd (get_p h f) (\<lambda>tmp. bnd (c_assert E (tmp \<noteq> 0)) (\<lambda>_.
        bnd (set_n h tmp s) (\<lambda>h.
        bnd (get_p h s) (\<lambda>v. bnd (set_p h f v) (\<lambda>h.
        bnd (set_p h s tmp) (\<lambda>h. Inr (h, f, 0)))))))
      else if s \<noteq> 0 then Inr (h, s, 0)
      else Inr (h, f, s))"

text \<open>\<open>BF_LIST_DLL_REM(l, l, n, p)\<close>: after \<open>(l) = (l)->n\<close> the two last statements write to the
  new head.\<close>

definition dll_rem_head :: "env \<Rightarrow> cells \<Rightarrow> nat \<Rightarrow> (cells \<times> nat) res" where
  "dll_rem_head E h l =
     bnd (c_assert E (l \<noteq> 0)) (\<lambda>_.
     bnd (get_p h l) (\<lambda>lp.
     bnd (if lp = l then Inr (h, 0)
          else bnd (get_n h l) (\<lambda>ln. bnd (c_assert E (ln \<noteq> 0)) (\<lambda>_. bnd (set_p h ln lp) (\<lambda>h. Inr (h, ln))))) (\<lambda>(h, l).
     bnd (set_p h l 0) (\<lambda>h. bnd (set_n h l 0) (\<lambda>h. Inr (h, l))))))"

section \<open>Lists in the heap\<close>

primrec seg :: "cells \<Rightarrow> nat \<Rightarrow> nat list \<Rightarrow> nat \<Rightarrow> bool" where
  "seg h p [] n = True"
| "seg h p (x # xs) n = (h x = Some \<lparr>nx = hd (xs @ [n]), pv = p\<rparr> \<and> seg h x xs n)"

definition dll :: "cells \<Rightarrow> nat \<Rightarrow> nat list \<Rightarrow> bool" where
  "dll h l xs \<longleftrightarrow> distinct xs \<and> 0 \<notin> set xs \<and> l = hd (xs @ [0]) \<and> seg h (last xs) xs 0"

lemma seg_frame [simp]: "y \<notin> set xs \<Longrightarrow> seg (h(y := c)) p xs n = seg h p xs n"
  by (induction xs arbitrary: p) auto

lemma seg_append: "seg h p (xs @ ys) n \<longleftrightarrow> seg h p xs (hd (ys @ [n])) \<and> seg h (last (p # xs)) ys n"
  by (induction xs arbitrary: p) (auto simp: hd_append)

lemma seg_snoc: "seg h p (xs @ [x]) n \<longleftrightarrow> seg h p xs x \<and> h x = Some \<lparr>nx = n, pv = last (p # xs)\<rparr>"
  by (simp add: seg_append)

text \<open>The end of a segment is stored in its last element only.\<close>

lemma seg_snoc_end: "x \<notin> set xs \<Longrightarrow> seg h p (xs @ [x]) n \<Longrightarrow> seg (h(x \<mapsto> \<lparr>nx = m, pv = last (p # xs)\<rparr>)) p (xs @ [x]) m"
  by (simp add: seg_snoc)

lemma cell_at_simps [simp]: "h e = Some c \<Longrightarrow> e \<noteq> 0 \<Longrightarrow> cell_at h e = Inr c"
  by (simp add: cell_at_def)

lemmas field_simps' = get_n_def get_p_def set_n_def set_p_def

lemma dll_Nil [simp]: "dll h l [] \<longleftrightarrow> l = 0"
  by (simp add: dll_def)

lemma seg_live: "seg h p xs n \<Longrightarrow> set xs \<subseteq> dom h"
  by (induction xs arbitrary: p) auto

lemma dll_live: "dll h l xs \<Longrightarrow> set xs \<subseteq> dom h"
  unfolding dll_def using seg_live by blast

text \<open>A list does not see the cells of other elements.\<close>

lemma seg_cong: "\<forall>a \<in> set xs. h' a = h a \<Longrightarrow> seg h' p xs n = seg h p xs n"
  by (induction xs arbitrary: p) auto

lemma dll_frame: "dll h l xs \<Longrightarrow> \<forall>a \<in> set xs. h' a = h a \<Longrightarrow> dll h' l xs"
  using seg_cong [of xs h' h] by (simp add: dll_def)

lemma dll_dom:
  assumes "\<forall>a. a \<notin> S \<longrightarrow> h' a = h a" "S \<subseteq> dom h" "S \<subseteq> dom h'"
  shows "dom h' = dom (h :: cells)"
proof (rule set_eqI)
  fix a
  show "a \<in> dom h' \<longleftrightarrow> a \<in> dom h" using assms by (cases "a \<in> S") (auto simp: domIff)
qed

lemma dll_pp_ok:
  assumes "dll h l xs" "e \<notin> set xs" "e \<noteq> 0" "h e = Some c"
  shows "\<exists>h'. dll_pp E h l e = Inr (h', e) \<and> dll h' e (e # xs) \<and> (\<forall>a. a \<notin> set (e # xs) \<longrightarrow> h' a = h a)"
proof (cases xs)
  case Nil
  with assms show ?thesis by (simp add: dll_pp_def field_simps' dll_def)
next
  case (Cons x ys)
  with assms show ?thesis by (auto simp: dll_pp_def field_simps' dll_def)
qed

lemma dll_last_ok: "dll h l xs \<Longrightarrow> dll_last h l = Inr (if xs = [] then 0 else last xs)"
  by (cases xs) (auto simp: dll_def dll_last_def field_simps')

lemma dll_ap_ok:
  assumes "dll h l xs" "e \<notin> set xs" "e \<noteq> 0" "h e = Some c"
  shows "\<exists>h' l'. dll_ap E h l e = Inr (h', l') \<and> dll h' l' (xs @ [e]) \<and> (\<forall>a. a \<notin> set (xs @ [e]) \<longrightarrow> h' a = h a)"
proof (cases xs)
  case Nil
  with assms show ?thesis by (simp add: dll_ap_def field_simps' dll_def)
next
  case (Cons x ys)
  show ?thesis
  proof (cases ys rule: rev_cases)
    case Nil
    with Cons assms show ?thesis by (auto simp: dll_ap_def field_simps' dll_def)
  next
    case (snoc zs z)
    with Cons assms show ?thesis by (auto simp: dll_ap_def field_simps' dll_def seg_append hd_append)
  qed
qed

lemma dll_rem_first:
  assumes "dll h l (e # xs)"
  shows "\<exists>h' l'. dll_rem E h l e = Inr (h', l') \<and> dll h' l' xs \<and> h' e = Some \<lparr>nx = 0, pv = 0\<rparr> \<and>
    (\<forall>a. a \<notin> set (e # xs) \<longrightarrow> h' a = h a)"
proof (cases xs)
  case Nil
  with assms show ?thesis by (auto simp: dll_rem_def field_simps' dll_def)
next
  case (Cons x ys)
  with assms show ?thesis by (auto simp: dll_rem_def field_simps' dll_def)
qed

lemma dll_rem_later:
  assumes "dll h l (x # as @ e # bs)"
  shows "\<exists>h' l'. dll_rem E h l e = Inr (h', l') \<and> dll h' l' (x # as @ bs) \<and> h' e = Some \<lparr>nx = 0, pv = 0\<rparr> \<and>
    (\<forall>a. a \<notin> set (x # as @ e # bs) \<longrightarrow> h' a = h a)"
proof (cases bs)
  case Nil
  with assms show ?thesis
    by (cases as rule: rev_cases) (auto simp: dll_rem_def field_simps' dll_def seg_append hd_append)
next
  case (Cons b ys)
  with assms show ?thesis
    by (cases as rule: rev_cases) (auto simp: dll_rem_def field_simps' dll_def seg_append hd_append)
qed

lemma dll_rem_ok:
  assumes "dll h l xs" "e \<in> set xs"
  shows "\<exists>h' l'. dll_rem E h l e = Inr (h', l') \<and> dll h' l' (remove1 e xs) \<and> h' e = Some \<lparr>nx = 0, pv = 0\<rparr> \<and>
    (\<forall>a. a \<notin> set xs \<longrightarrow> h' a = h a)"
proof -
  from split_list [OF assms(2)] obtain as bs where xs: "xs = as @ e # bs" by blast
  have d: "distinct xs" using assms(1) by (simp add: dll_def)
  show ?thesis
  proof (cases as)
    case Nil
    with dll_rem_first [of h l e bs E] assms(1) xs show ?thesis by simp
  next
    case (Cons x zs)
    then have "remove1 e xs = x # zs @ bs" using xs d by (simp add: remove1_append)
    with dll_rem_later [of h l x zs e bs E] assms(1) xs Cons show ?thesis by simp
  qed
qed

text \<open>\<open>BF_LIST_DLL_CAT\<close> moves the elements of the second list behind those of the first, empties the
  second and touches no other element.\<close>

lemma dll_cat_spec:
  assumes "dll h f xs" "dll h s ys" "set xs \<inter> set ys = {}"
  shows "\<exists>h' f'. dll_cat E h f s = Inr (h', f', 0) \<and> dll h' f' (xs @ ys) \<and>
    (\<forall>a. a \<notin> set (xs @ ys) \<longrightarrow> h' a = h a)"
proof (cases "xs = [] \<or> ys = []")
  case True
  with assms show ?thesis by (cases xs; cases ys) (auto simp: dll_cat_def dll_def)
next
  case False
  then obtain x as y bs where "xs = x # as" "ys = y # bs" by (auto simp: neq_Nil_conv)
  with assms show ?thesis
    by (cases as rule: rev_cases; cases bs rule: rev_cases)
      (auto simp: dll_cat_def field_simps' dll_def seg_append hd_append)
qed

section \<open>Sequences of macros\<close>

datatype dll_call = Prepend nat | Append nat | Remove nat

fun dll_call_ok :: "dll_call \<Rightarrow> nat list \<Rightarrow> bool" where
  "dll_call_ok (Prepend e) xs \<longleftrightarrow> e \<noteq> 0 \<and> e \<notin> set xs"
| "dll_call_ok (Append e) xs \<longleftrightarrow> e \<noteq> 0 \<and> e \<notin> set xs"
| "dll_call_ok (Remove e) xs \<longleftrightarrow> e \<in> set xs"

fun dll_call_spec :: "dll_call \<Rightarrow> nat list \<Rightarrow> nat list" where
  "dll_call_spec (Prepend e) xs = e # xs"
| "dll_call_spec (Append e) xs = xs @ [e]"
| "dll_call_spec (Remove e) xs = remove1 e xs"

fun dll_step :: "env \<Rightarrow> dll_call \<Rightarrow> cells \<times> nat \<Rightarrow> (cells \<times> nat) res" where
  "dll_step E (Prepend e) (h, l) = dll_pp E h l e"
| "dll_step E (Append e) (h, l) = dll_ap E h l e"
| "dll_step E (Remove e) (h, l) = dll_rem E h l e"

fun dll_calls_ok :: "dll_call list \<Rightarrow> nat list \<Rightarrow> bool" where
  "dll_calls_ok [] xs = True"
| "dll_calls_ok (c # cs) xs \<longleftrightarrow> dll_call_ok c xs \<and> dll_calls_ok cs (dll_call_spec c xs)"

fun dll_run :: "env \<Rightarrow> dll_call list \<Rightarrow> cells \<times> nat \<Rightarrow> (cells \<times> nat) res" where
  "dll_run E [] s = Inr s"
| "dll_run E (c # cs) s = bnd (dll_step E c s) (dll_run E cs)"

fun call_elem :: "dll_call \<Rightarrow> nat" where
  "call_elem (Prepend e) = e" | "call_elem (Append e) = e" | "call_elem (Remove e) = e"

lemma dll_step_ok:
  assumes "dll h l xs" "dll_call_ok c xs" "h (call_elem c) \<noteq> None"
  shows "\<exists>h' l'. dll_step E c (h, l) = Inr (h', l') \<and> dll h' l' (dll_call_spec c xs) \<and> dom h' = dom h \<and>
    (\<forall>a. a \<notin> insert (call_elem c) (set xs) \<longrightarrow> h' a = h a)"
proof (cases c)
  case (Prepend e)
  with assms dll_pp_ok [of h l xs e _ E] obtain h' where
    h': "dll_pp E h l e = Inr (h', e)" "dll h' e (e # xs)" "\<forall>a. a \<notin> set (e # xs) \<longrightarrow> h' a = h a" by auto
  have "dom h' = dom h" by (rule dll_dom [OF h'(3)]) (use dll_live [OF h'(2)] dll_live [OF assms(1)] assms(3) Prepend in auto)
  with h' Prepend show ?thesis by simp
next
  case (Append e)
  with assms dll_ap_ok [of h l xs e _ E] obtain h' l' where
    h': "dll_ap E h l e = Inr (h', l')" "dll h' l' (xs @ [e])" "\<forall>a. a \<notin> set (xs @ [e]) \<longrightarrow> h' a = h a" by auto
  have "dom h' = dom h" by (rule dll_dom [OF h'(3)]) (use dll_live [OF h'(2)] dll_live [OF assms(1)] assms(3) Append in auto)
  with h' Append show ?thesis by simp
next
  case (Remove e)
  with assms dll_rem_ok [of h l xs e E] obtain h' l' where
    h': "dll_rem E h l e = Inr (h', l')" "dll h' l' (remove1 e xs)" "h' e = Some \<lparr>nx = 0, pv = 0\<rparr>"
    "\<forall>a. a \<notin> set xs \<longrightarrow> h' a = h a" by auto
  have "set xs \<subseteq> insert e (set (remove1 e xs))" by (metis in_set_remove1 insert_iff subsetI)
  then have "dom h' = dom h" by (intro dll_dom [OF h'(4)]) (use dll_live [OF h'(2)] dll_live [OF assms(1)] h'(3) in auto)
  with h' Remove assms(2) show ?thesis by (simp add: insert_absorb)
qed

lemma dll_run_ok:
  "dll h l xs \<Longrightarrow> dll_calls_ok cs xs \<Longrightarrow> \<forall>c \<in> set cs. call_elem c \<in> dom h \<Longrightarrow>
    \<exists>h' l'. dll_run E cs (h, l) = Inr (h', l') \<and> dll h' l' (fold dll_call_spec cs xs)"
proof (induction cs arbitrary: h l xs)
  case (Cons c cs)
  from Cons.prems(2,3) have "dll_call_ok c xs" "h (call_elem c) \<noteq> None" by auto
  from dll_step_ok [OF Cons.prems(1) this] obtain h' l' where
    s: "dll_step E c (h, l) = Inr (h', l')" "dll h' l' (dll_call_spec c xs)" "dom h' = dom h" by blast
  from Cons.IH [OF s(2)] Cons.prems(2,3) s(1,3) show ?case by auto
qed simp

section \<open>Properties\<close>

text \<open>Any sequence of \<open>BF_LIST_DLL_PP\<close>, \<open>BF_LIST_DLL_AP\<close> (of elements that are not in the list) and
  \<open>BF_LIST_DLL_REM\<close> (of elements that are) keeps the links of the list, forwards and backwards, and
  leaves the elements in the order in which the same operations leave a sequence;
  \<open>BF_LIST_DLL_LAST\<close> then finds the last one.\<close>

lemma dll_run_refines:
  assumes "dll h l xs" "dll_calls_ok cs xs" "\<forall>c \<in> set cs. call_elem c \<in> dom h"
  shows "\<exists>h' l'. dll_run E cs (h, l) = Inr (h', l') \<and> dll h' l' (fold dll_call_spec cs xs) \<and>
    dll_last h' l' = Inr (if fold dll_call_spec cs xs = [] then 0 else last (fold dll_call_spec cs xs))"
  using dll_run_ok [OF assms, of E] dll_last_ok by blast

definition heap3 :: cells where
  "heap3 a = (if a \<le> 3 then Some \<lparr>nx = 7, pv = 8\<rparr> else None)"

lemma dll_run_refines_witness:
  "\<exists>h' l'. dll_run env0 [Append 1, Prepend 2, Append 3, Remove 1] (heap3, 0) = Inr (h', l') \<and> dll h' l' [2, 3] \<and>
    dll_last h' l' = Inr 3"
  using dll_run_refines [of heap3 0 "[]" "[Append 1, Prepend 2, Append 3, Remove 1]" env0]
  by (simp add: heap3_def dom_def)

definition heap_two :: cells where
  "heap_two = [1 \<mapsto> \<lparr>nx = 2, pv = 2\<rparr>, 2 \<mapsto> \<lparr>nx = 0, pv = 1\<rparr>, 3 \<mapsto> \<lparr>nx = 0, pv = 3\<rparr>]"

lemma dll_cat_spec_witness:
  "\<exists>h' f'. dll_cat env0 heap_two 1 3 = Inr (h', f', 0) \<and> dll h' f' ([1, 2] @ [3]) \<and>
    (\<forall>a. a \<notin> set ([1, 2] @ [3]) \<longrightarrow> h' a = heap_two a)"
  by (rule dll_cat_spec) (simp_all add: heap_two_def dll_def)

text \<open>\<open>BF_LIST_DLL_REM\<close> called with the list variable itself as the element advances the variable
  and then clears the links of the new head: the list loses every element behind it. On a list of
  one element it writes through NULL.\<close>

lemma dll_rem_head_breaks:
  assumes "dll h l (x # xs)"
  shows "dll_rem_head E h l = (case xs of [] \<Rightarrow> Inl Bad_access
    | y # ys \<Rightarrow> Inr (h(y \<mapsto> \<lparr>nx = 0, pv = 0\<rparr>), y))"
  using assms by (cases xs) (auto simp: dll_rem_head_def field_simps' dll_def cell_at_def)

lemma dll_rem_head_breaks_witness:
  "dll_rem_head env0 heap_two 1 = Inr (heap_two(2 \<mapsto> \<lparr>nx = 0, pv = 0\<rparr>), 2)"
  using dll_rem_head_breaks [of heap_two 1 1 "[2]" env0] by (simp add: heap_two_def dll_def)

end
