(* ===== verification/Dll_Lists.thy ===== *)
theory Dll_Lists
  imports Dll
begin

text \<open>
  Programs over several lists: any number of list variables (\<open>lists\<close>, from the number of a
  variable to its value) whose elements share one heap and one pair of link fields, so that an
  element is in at most one list at a time. A call works on one variable, and \<open>BF_LIST_DLL_CAT\<close>
  on two different ones. \<open>lists_ok\<close> relates the heap and the variables to the sequences they stand for;
  every call keeps it, returns what the same operation returns on the sequences, and leaves every cell
  alone that is in no list and is not its argument.
\<close>

section \<open>Calls on list variables\<close>

type_synonym lists = "nat \<Rightarrow> nat"

datatype lists_call =
    L_prepend nat nat
  | L_append nat nat
  | L_remove nat nat
  | L_last nat
  | L_cat nat nat

fun lists_step :: "env \<Rightarrow> lists_call \<Rightarrow> cells \<times> lists \<Rightarrow> (nat \<times> cells \<times> lists) res" where
  "lists_step E (L_prepend v e) (h, L) = bnd (dll_pp E h (L v) e) (\<lambda>(h, l). Inr (0, h, L(v := l)))"
| "lists_step E (L_append v e) (h, L) = bnd (dll_ap E h (L v) e) (\<lambda>(h, l). Inr (0, h, L(v := l)))"
| "lists_step E (L_remove v e) (h, L) = bnd (dll_rem E h (L v) e) (\<lambda>(h, l). Inr (0, h, L(v := l)))"
| "lists_step E (L_last v) (h, L) = bnd (dll_last h (L v)) (\<lambda>r. Inr (r, h, L))"
| "lists_step E (L_cat v w) (h, L) = bnd (dll_cat E h (L v) (L w)) (\<lambda>(h, f, s). Inr (0, h, L(v := f, w := s)))"

fun lists_run :: "env \<Rightarrow> lists_call list \<Rightarrow> cells \<times> lists \<Rightarrow> (nat list \<times> cells \<times> lists) res" where
  "lists_run E [] s = Inr ([], s)"
| "lists_run E (c # cs) s = bnd (lists_step E c s) (\<lambda>(r, s). bnd (lists_run E cs s) (\<lambda>(rs, s). Inr (r # rs, s)))"

text \<open>The same calls on sequences.\<close>

fun lists_spec :: "lists_call \<Rightarrow> (nat \<Rightarrow> nat list) \<Rightarrow> nat \<times> (nat \<Rightarrow> nat list)" where
  "lists_spec (L_prepend v e) V = (0, V(v := e # V v))"
| "lists_spec (L_append v e) V = (0, V(v := V v @ [e]))"
| "lists_spec (L_remove v e) V = (0, V(v := remove1 e (V v)))"
| "lists_spec (L_last v) V = (if V v = [] then 0 else last (V v), V)"
| "lists_spec (L_cat v w) V = (0, V(v := V v @ V w, w := []))"

fun lists_run_spec :: "lists_call list \<Rightarrow> (nat \<Rightarrow> nat list) \<Rightarrow> nat list \<times> (nat \<Rightarrow> nat list)" where
  "lists_run_spec [] V = ([], V)"
| "lists_run_spec (c # cs) V =
     (let (r, V) = lists_spec c V; (rs, V) = lists_run_spec cs V in (r # rs, V))"

text \<open>What the macros ask for: an element that is added has a cell and is in no list, an element that is
  removed is in the list, the two lists of a concatenation are different variables.\<close>

fun lists_call_ok :: "nat set \<Rightarrow> lists_call \<Rightarrow> (nat \<Rightarrow> nat list) \<Rightarrow> bool" where
  "lists_call_ok D (L_prepend v e) V \<longleftrightarrow> e \<noteq> 0 \<and> e \<in> D \<and> (\<forall>u. e \<notin> set (V u))"
| "lists_call_ok D (L_append v e) V \<longleftrightarrow> e \<noteq> 0 \<and> e \<in> D \<and> (\<forall>u. e \<notin> set (V u))"
| "lists_call_ok D (L_remove v e) V \<longleftrightarrow> e \<in> set (V v)"
| "lists_call_ok D (L_last v) V \<longleftrightarrow> True"
| "lists_call_ok D (L_cat v w) V \<longleftrightarrow> v \<noteq> w"

fun lists_calls_ok :: "nat set \<Rightarrow> lists_call list \<Rightarrow> (nat \<Rightarrow> nat list) \<Rightarrow> bool" where
  "lists_calls_ok D [] V = True"
| "lists_calls_ok D (c # cs) V \<longleftrightarrow> lists_call_ok D c V \<and> lists_calls_ok D cs (snd (lists_spec c V))"

section \<open>The relation\<close>

definition lists_ok :: "cells \<Rightarrow> lists \<Rightarrow> (nat \<Rightarrow> nat list) \<Rightarrow> bool" where
  "lists_ok h L V \<longleftrightarrow> (\<forall>v. dll h (L v) (V v)) \<and> (\<forall>v w. v \<noteq> w \<longrightarrow> set (V v) \<inter> set (V w) = {})"

lemma lists_okD: "lists_ok h L V \<Longrightarrow> dll h (L v) (V v)"
  by (simp add: lists_ok_def)

lemma lists_ok_disjoint: "lists_ok h L V \<Longrightarrow> v \<noteq> w \<Longrightarrow> set (V v) \<inter> set (V w) = {}"
  by (simp add: lists_ok_def)

text \<open>An update of one list that stays away from the others.\<close>

lemma lists_ok_upd:
  assumes "lists_ok h L V" "dll h' l xs" "\<forall>a. a \<notin> S \<longrightarrow> h' a = h a" "set xs \<subseteq> S" "\<forall>u. u \<noteq> v \<longrightarrow> set (V u) \<inter> S = {}"
  shows "lists_ok h' (L(v := l)) (V(v := xs))"
proof -
  have "dll h' (L u) (V u)" if "u \<noteq> v" for u
  proof (rule dll_frame [OF lists_okD [OF assms(1)]])
    show "\<forall>a \<in> set (V u). h' a = h a" using assms(3,5) that by blast
  qed
  with assms show ?thesis by (fastforce simp: lists_ok_def)
qed

definition listed :: "(nat \<Rightarrow> nat list) \<Rightarrow> nat set" where
  "listed V = (\<Union>v. set (V v))"

fun lists_elems :: "lists_call \<Rightarrow> nat set" where
  "lists_elems (L_prepend v e) = {e}"
| "lists_elems (L_append v e) = {e}"
| "lists_elems (L_remove v e) = {e}"
| "lists_elems (L_last v) = {}"
| "lists_elems (L_cat v w) = {}"

lemma listed_step: "listed (snd (lists_spec c V)) \<subseteq> listed V \<union> lists_elems c"
  by (cases c) (auto simp: listed_def split: if_splits dest: in_set_remove1 notin_set_remove1 set_remove1_subset [THEN subsetD])

text \<open>One call: \<open>step_result\<close> collects what it does.\<close>

definition step_result :: "env \<Rightarrow> lists_call \<Rightarrow> cells \<Rightarrow> lists \<Rightarrow> (nat \<Rightarrow> nat list) \<Rightarrow> bool" where
  "step_result E c h L V \<longleftrightarrow> (\<exists>h' L'. lists_step E c (h, L) = Inr (fst (lists_spec c V), h', L') \<and>
     lists_ok h' L' (snd (lists_spec c V)) \<and> dom h' = dom h \<and>
     (\<forall>a. a \<notin> listed V \<union> lists_elems c \<longrightarrow> h' a = h a))"

text \<open>A call on one list whose effect on that list is known.\<close>

lemma step_one:
  assumes ok: "lists_ok h L V" and d: "dll h' l xs" and S: "\<forall>a. a \<notin> S \<longrightarrow> h' a = h a" "set xs \<subseteq> S" "S \<subseteq> dom h" "S \<subseteq> dom h'"
    and step: "lists_step E c (h, L) = Inr (r, h', L(v := l))" "lists_spec c V = (r, V(v := xs))"
    and away: "\<forall>u. u \<noteq> v \<longrightarrow> set (V u) \<inter> S = {}" "S \<subseteq> listed V \<union> lists_elems c"
  shows "step_result E c h L V"
  unfolding step_result_def
proof (intro exI conjI)
  show "lists_step E c (h, L) = Inr (fst (lists_spec c V), h', L(v := l))" using step by simp
  show "lists_ok h' (L(v := l)) (snd (lists_spec c V))" using lists_ok_upd [OF ok d S(1,2) away(1)] step(2) by simp
  show "dom h' = dom h" by (rule dll_dom [OF S(1,3,4)])
  show "\<forall>a. a \<notin> listed V \<union> lists_elems c \<longrightarrow> h' a = h a" using S(1) away(2) by blast
qed

lemma step_prepend:
  assumes ok: "lists_ok h L V" and c: "lists_call_ok (dom h) (L_prepend v e) V"
  shows "step_result E (L_prepend v e) h L V"
proof -
  have e: "e \<noteq> 0" "e \<in> dom h" "\<forall>u. e \<notin> set (V u)" using c by simp_all
  from dll_pp_ok [OF lists_okD [OF ok], of e v _ E] e obtain h' where
    h': "dll_pp E h (L v) e = Inr (h', e)" "dll h' e (e # V v)" "\<forall>a. a \<notin> set (e # V v) \<longrightarrow> h' a = h a" by auto
  have live: "set (e # V v) \<subseteq> dom h" "set (e # V v) \<subseteq> dom h'"
    using dll_live [OF lists_okD [OF ok, of v]] dll_live [OF h'(2)] e by auto
  show ?thesis
  proof (rule step_one [OF ok h'(2,3) order_refl live])
    show "\<forall>u. u \<noteq> v \<longrightarrow> set (V u) \<inter> set (e # V v) = {}" using lists_ok_disjoint [OF ok] e(3) by fastforce
  qed (use h'(1) in \<open>auto simp: listed_def\<close>)
qed

lemma step_append:
  assumes ok: "lists_ok h L V" and c: "lists_call_ok (dom h) (L_append v e) V"
  shows "step_result E (L_append v e) h L V"
proof -
  have e: "e \<noteq> 0" "e \<in> dom h" "\<forall>u. e \<notin> set (V u)" using c by simp_all
  from dll_ap_ok [OF lists_okD [OF ok], of e v _ E] e obtain h' l' where
    h': "dll_ap E h (L v) e = Inr (h', l')" "dll h' l' (V v @ [e])" "\<forall>a. a \<notin> set (V v @ [e]) \<longrightarrow> h' a = h a" by auto
  have live: "set (V v @ [e]) \<subseteq> dom h" "set (V v @ [e]) \<subseteq> dom h'"
    using dll_live [OF lists_okD [OF ok, of v]] dll_live [OF h'(2)] e by auto
  show ?thesis
  proof (rule step_one [OF ok h'(2,3) order_refl live])
    show "\<forall>u. u \<noteq> v \<longrightarrow> set (V u) \<inter> set (V v @ [e]) = {}" using lists_ok_disjoint [OF ok] e(3) by fastforce
  qed (use h'(1) in \<open>auto simp: listed_def\<close>)
qed

lemma step_remove:
  assumes ok: "lists_ok h L V" and e: "e \<in> set (V v)"
  shows "step_result E (L_remove v e) h L V"
proof -
  from dll_rem_ok [OF lists_okD [OF ok] e, of E] obtain h' l' where
    h': "dll_rem E h (L v) e = Inr (h', l')" "dll h' l' (remove1 e (V v))" "h' e = Some \<lparr>nx = 0, pv = 0\<rparr>"
    "\<forall>a. a \<notin> set (V v) \<longrightarrow> h' a = h a" by blast
  have "set (V v) \<subseteq> insert e (set (remove1 e (V v)))" by (metis in_set_remove1 insert_iff subsetI)
  then have live: "set (V v) \<subseteq> dom h'" using dll_live [OF h'(2)] h'(3) by auto
  show ?thesis
    by (rule step_one [OF ok h'(2,4) set_remove1_subset dll_live [OF lists_okD [OF ok]] live])
      (use h'(1) lists_ok_disjoint [OF ok] in \<open>auto simp: listed_def\<close>)
qed

lemma step_cat:
  assumes ok: "lists_ok h L V" and vw: "v \<noteq> w"
  shows "step_result E (L_cat v w) h L V"
  unfolding step_result_def
proof -
  from dll_cat_spec [OF lists_okD [OF ok, of v] lists_okD [OF ok, of w] lists_ok_disjoint [OF ok vw], of E] obtain h' l' where
    h': "dll_cat E h (L v) (L w) = Inr (h', l', 0)" "dll h' l' (V v @ V w)" "\<forall>a. a \<notin> set (V v @ V w) \<longrightarrow> h' a = h a" by blast
  have away: "set (V u) \<inter> set (V v @ V w) = {}" if "u \<noteq> v" "u \<noteq> w" for u
    using lists_ok_disjoint [OF ok that(1)] lists_ok_disjoint [OF ok that(2)] by auto
  have "dll h' (L u) (V u)" if "u \<noteq> v" "u \<noteq> w" for u
    using away [OF that] h'(3) by (intro dll_frame [OF lists_okD [OF ok]]) blast
  with h'(2) have "\<forall>u. dll h' ((L(v := l', w := 0)) u) ((V(v := V v @ V w, w := [])) u)" using vw by simp
  moreover have "x = y \<or> set ((V(v := V v @ V w, w := [])) x) \<inter> set ((V(v := V v @ V w, w := [])) y) = {}" for x y
    using away [of x] away [of y] lists_ok_disjoint [OF ok, of x y] vw by auto
  ultimately have "lists_ok h' (L(v := l', w := 0)) (V(v := V v @ V w, w := []))" unfolding lists_ok_def by blast
  moreover have "dom h' = dom h"
    using dll_live [OF lists_okD [OF ok, of v]] dll_live [OF lists_okD [OF ok, of w]] dll_live [OF h'(2)]
    by (intro dll_dom [OF h'(3)]) auto
  moreover have "set (V v @ V w) \<subseteq> listed V" by (auto simp: listed_def)
  ultimately show "\<exists>h' L'. lists_step E (L_cat v w) (h, L) = Inr (fst (lists_spec (L_cat v w) V), h', L') \<and>
     lists_ok h' L' (snd (lists_spec (L_cat v w) V)) \<and> dom h' = dom h \<and>
     (\<forall>a. a \<notin> listed V \<union> lists_elems (L_cat v w) \<longrightarrow> h' a = h a)"
    using h'(1,3) by (intro exI [of _ h'] exI [of _ "L(v := l', w := 0)"]) auto
qed

lemma lists_step_ok:
  assumes "lists_ok h L V" "lists_call_ok (dom h) c V"
  shows "step_result E c h L V"
proof (cases c)
  case (L_last v)
  with assms(1) dll_last_ok [OF lists_okD [OF assms(1)], of v] show ?thesis by (simp add: step_result_def)
qed (use assms step_prepend step_append step_remove step_cat in simp_all)

lemma lists_run_ok:
  "lists_ok h L V \<Longrightarrow> lists_calls_ok (dom h) cs V \<Longrightarrow>
    \<exists>h' L'. lists_run E cs (h, L) = Inr (fst (lists_run_spec cs V), h', L') \<and> lists_ok h' L' (snd (lists_run_spec cs V)) \<and>
      (\<forall>a. a \<notin> listed V \<union> \<Union> (lists_elems ` set cs) \<longrightarrow> h' a = h a)"
proof (induction cs arbitrary: h L V)
  case (Cons c cs)
  let ?V = "snd (lists_spec c V)"
  from lists_step_ok [OF Cons.prems(1), of c E] Cons.prems(2) obtain g K where
    g: "lists_step E c (h, L) = Inr (fst (lists_spec c V), g, K)" "lists_ok g K ?V" "dom g = dom h"
      "\<forall>a. a \<notin> listed V \<union> lists_elems c \<longrightarrow> g a = h a" by (auto simp: step_result_def)
  from Cons.IH [OF g(2)] Cons.prems(2) g(3) obtain h' L' where
    h': "lists_run E cs (g, K) = Inr (fst (lists_run_spec cs ?V), h', L')" "lists_ok h' L' (snd (lists_run_spec cs ?V))"
      "\<forall>a. a \<notin> listed ?V \<union> \<Union> (lists_elems ` set cs) \<longrightarrow> h' a = g a" by auto
  have "\<forall>a. a \<notin> listed V \<union> \<Union> (lists_elems ` set (c # cs)) \<longrightarrow> h' a = h a"
    using h'(3) g(4) listed_step [of c V] by auto
  with g(1) h'(1,2) show ?case by (auto simp: case_prod_unfold Let_def)
qed simp

section \<open>Properties\<close>

text \<open>C29: any program of \<open>BF_LIST_DLL_PP\<close>, \<open>BF_LIST_DLL_AP\<close> (of elements that are in no list),
  \<open>BF_LIST_DLL_REM\<close> (of elements of the list), \<open>BF_LIST_DLL_LAST\<close> and \<open>BF_LIST_DLL_CAT\<close> (of two lists) over any
  number of lists in one heap does to them what the same program does to sequences: every list keeps its
  links, forwards and backwards, each \<open>BF_LIST_DLL_LAST\<close> finds the last element, an element is in one list
  only, and no other cell is touched.\<close>

theorem dll_lists_refine:
  assumes "lists_ok h L V" "lists_calls_ok (dom h) cs V"
  shows "\<exists>h' L'. lists_run E cs (h, L) = Inr (fst (lists_run_spec cs V), h', L') \<and> lists_ok h' L' (snd (lists_run_spec cs V)) \<and>
    (\<forall>a. a \<notin> listed V \<union> \<Union> (lists_elems ` set cs) \<longrightarrow> h' a = h a)"
  using assms by (rule lists_run_ok)

text \<open>The list 1, 2 in variable 0, the list 3 in variable 1, all other variables empty.\<close>

theorem dll_lists_refine_witness:
  "\<exists>h' L'. lists_run env0 [L_prepend 0 4, L_last 1, L_remove 0 1, L_cat 0 1, L_last 0, L_append 2 1]
       (heap_two(4 \<mapsto> \<lparr>nx = 9, pv = 9\<rparr>), (\<lambda>_. 0)(0 := 1, 1 := 3)) = Inr ([0, 3, 0, 0, 3, 0], h', L') \<and>
    lists_ok h' L' ((\<lambda>_. [])(0 := [4, 2, 3], 1 := [], 2 := [1])) \<and> h' 5 = None"
proof -
  let ?h = "heap_two(4 \<mapsto> \<lparr>nx = 9, pv = 9\<rparr>)" and ?L = "(\<lambda>_. 0)(0 := 1, 1 := 3)"
  let ?V = "(\<lambda>_. [])(0 := [1, 2], 1 := [3 :: nat])"
  let ?cs = "[L_prepend 0 4, L_last 1, L_remove 0 1, L_cat 0 1, L_last 0, L_append 2 1]"
  have ok: "lists_ok ?h ?L ?V" by (auto simp: lists_ok_def dll_def heap_two_def)
  have c: "lists_calls_ok (dom ?h) ?cs ?V" by (simp add: heap_two_def)
  have s: "lists_run_spec ?cs ?V = ([0, 3, 0, 0, 3, 0], (\<lambda>_. [])(0 := [4, 2, 3], 1 := [], 2 := [1]))"
    by (auto simp: fun_eq_iff)
  have "5 \<notin> listed ?V" "?h 5 = None" by (auto simp: listed_def heap_two_def)
  with dll_lists_refine [OF ok c, of env0, unfolded s] show ?thesis by auto
qed

end
