(* ===== verification/Hashtbl.thy ===== *)
theory Hashtbl
  imports Judy "HOL-Library.Multiset"
begin

text \<open>
  src/hashtbl/hashtbl.c: a hash table on top of the linear hash table of tommyds and the hash
  function XXH32 of xxHash. Neither is part of the repository, so both are parameters: \<open>tommy\<close> is
  the record of the tommy\_hashlin functions that the file calls, \<open>XXH32 key len seed\<close> the hash of a
  key. \<open>tommy_ok T elems\<close> says what the documentation of tommyds promises: the table is a bag of
  nodes with their hashes (\<open>elems\<close>); search and remove deliver a node with the given hash for which
  the compare function answers 0, if there is one; a foreach visits every node once.

  A key is a value of any type (\<open>None\<close> is NULL), a datum is a pointer (0 is NULL), a node holds
  the datum; freeing a node has no effect here. The callbacks act on a client state of any type.
\<close>

record bf_hashtbl_node =
  hn_data :: nat

record 't tommy =
  hl_init :: 't
  hl_insert :: "'t \<Rightarrow> bf_hashtbl_node \<Rightarrow> nat \<Rightarrow> 't"
  hl_search :: "'t \<Rightarrow> (bf_hashtbl_node \<Rightarrow> int) \<Rightarrow> nat \<Rightarrow> bf_hashtbl_node option"
  hl_remove :: "'t \<Rightarrow> (bf_hashtbl_node \<Rightarrow> int) \<Rightarrow> nat \<Rightarrow> bf_hashtbl_node option \<times> 't"
  hl_order :: "'t \<Rightarrow> bf_hashtbl_node list"

definition tommy_ok :: "'t tommy \<Rightarrow> ('t \<Rightarrow> (nat \<times> bf_hashtbl_node) multiset) \<Rightarrow> bool" where
  "tommy_ok T elems \<longleftrightarrow>
     elems (hl_init T) = {#} \<and>
     (\<forall>t n h. elems (hl_insert T t n h) = add_mset (h, n) (elems t)) \<and>
     (\<forall>t c h n. hl_search T t c h = None \<longrightarrow> (h, n) \<in># elems t \<longrightarrow> c n \<noteq> 0) \<and>
     (\<forall>t c h n. hl_search T t c h = Some n \<longrightarrow> (h, n) \<in># elems t \<and> c n = 0) \<and>
     (\<forall>t c h t' n. hl_remove T t c h = (None, t') \<longrightarrow> t' = t \<and> ((h, n) \<in># elems t \<longrightarrow> c n \<noteq> 0)) \<and>
     (\<forall>t c h t' n. hl_remove T t c h = (Some n, t') \<longrightarrow>
        (h, n) \<in># elems t \<and> c n = 0 \<and> elems t' = elems t - {#(h, n)#}) \<and>
     (\<forall>t. mset (hl_order T t) = image_mset snd (elems t))"

lemma tommy_search_None: "tommy_ok T elems \<Longrightarrow> hl_search T t c h = None \<Longrightarrow> (h, n) \<in># elems t \<Longrightarrow> c n \<noteq> 0"
  unfolding tommy_ok_def by blast

lemma tommy_search_Some: "tommy_ok T elems \<Longrightarrow> hl_search T t c h = Some n \<Longrightarrow> (h, n) \<in># elems t \<and> c n = 0"
  unfolding tommy_ok_def by blast

lemma tommy_remove_None:
  "tommy_ok T elems \<Longrightarrow> hl_remove T t c h = (None, t') \<Longrightarrow> t' = t \<and> ((h, n) \<in># elems t \<longrightarrow> c n \<noteq> 0)"
  unfolding tommy_ok_def by blast

lemma tommy_remove_Some:
  "tommy_ok T elems \<Longrightarrow> hl_remove T t c h = (Some n, t') \<Longrightarrow>
    (h, n) \<in># elems t \<and> c n = 0 \<and> elems t' = elems t - {#(h, n)#}"
  unfolding tommy_ok_def by blast

text \<open>\<open>tommy_hashlin_foreach_arg\<close>: the function is called on each node.\<close>

definition hl_foreach :: "'t tommy \<Rightarrow> 't \<Rightarrow> (bf_hashtbl_node \<Rightarrow> 's \<Rightarrow> 's) \<Rightarrow> 's \<Rightarrow> 's" where
  "hl_foreach T t f s = fold f (hl_order T t) s"

section \<open>The functions\<close>

datatype bf_hashtbl_sts_t = BF_HASHTBL_OK | BF_HASHTBL_INVALID_ARG | BF_HASHTBL_ERR

record ('t, 'k, 's) bf_hashtable =
  cmp_fn :: "'k \<Rightarrow> bf_hashtbl_node \<Rightarrow> int"
  free_fn :: "(nat \<Rightarrow> 's \<Rightarrow> 's) option"
  key_sz :: nat
  data_sz :: nat
  seed :: nat
  phtbl :: 't

definition construct_hash :: "('k \<Rightarrow> nat \<Rightarrow> nat \<Rightarrow> nat) \<Rightarrow> ('t, 'k, 's) bf_hashtable \<Rightarrow> 'k \<Rightarrow> nat" where
  "construct_hash XXH32 htbl key = XXH32 key (key_sz htbl mod 256) (seed htbl)"

definition bf_htbl_foreach_free_fn :: "('t, 'k, 's) bf_hashtable \<Rightarrow> bf_hashtbl_node \<Rightarrow> 's \<Rightarrow> 's" where
  "bf_htbl_foreach_free_fn htbl htbl_node s = (case free_fn htbl of None \<Rightarrow> s | Some f \<Rightarrow> f (hn_data htbl_node) s)"

definition bf_hashtbl_get_cmp_data :: "bf_hashtbl_node \<Rightarrow> nat" where
  "bf_hashtbl_get_cmp_data arg = hn_data arg"

definition bf_hashtbl_init ::
  "env \<Rightarrow> 't tommy \<Rightarrow> ('t, 'k, 's) bf_hashtable option \<Rightarrow> ('k \<Rightarrow> bf_hashtbl_node \<Rightarrow> int) option \<Rightarrow>
    (nat \<Rightarrow> 's \<Rightarrow> 's) option \<Rightarrow> nat \<Rightarrow> nat \<Rightarrow> nat \<Rightarrow>
    (bf_hashtbl_sts_t \<times> ('t, 'k, 's) bf_hashtable option) res" where
  "bf_hashtbl_init E T htbl fn ffn ksz dsz sd =
     (case htbl of None \<Rightarrow> Inr (BF_HASHTBL_INVALID_ARG, htbl)
      | Some h \<Rightarrow>
          if ksz = 0 then Inr (BF_HASHTBL_INVALID_ARG, htbl) else
          if dsz = 0 then Inr (BF_HASHTBL_INVALID_ARG, htbl) else
          (case fn of None \<Rightarrow> Inr (BF_HASHTBL_INVALID_ARG, htbl)
           | Some f \<Rightarrow>
               if mem E 0
               then Inr (BF_HASHTBL_OK, Some (h\<lparr>cmp_fn := f, free_fn := ffn, key_sz := ksz, data_sz := dsz, seed := sd,
                      phtbl := hl_init T\<rparr>))
               else Inl Bad_access))"

definition bf_hashtbl_search ::
  "('k \<Rightarrow> nat \<Rightarrow> nat \<Rightarrow> nat) \<Rightarrow> 't tommy \<Rightarrow> ('t, 'k, 's) bf_hashtable option \<Rightarrow> 'k option \<Rightarrow> nat" where
  "bf_hashtbl_search XXH32 T htbl key =
     (case htbl of None \<Rightarrow> 0
      | Some h \<Rightarrow> (case key of None \<Rightarrow> 0
          | Some k \<Rightarrow>
              let hash = construct_hash XXH32 h k in
              (case hl_search T (phtbl h) (cmp_fn h k) hash of None \<Rightarrow> 0 | Some htbl_node \<Rightarrow> hn_data htbl_node)))"

definition bf_hashtbl_insert ::
  "env \<Rightarrow> ('k \<Rightarrow> nat \<Rightarrow> nat \<Rightarrow> nat) \<Rightarrow> 't tommy \<Rightarrow> ('t, 'k, 's) bf_hashtable option \<Rightarrow> nat \<Rightarrow> 'k option \<Rightarrow>
    bf_hashtbl_sts_t \<times> ('t, 'k, 's) bf_hashtable option" where
  "bf_hashtbl_insert E XXH32 T htbl node key =
     (case htbl of None \<Rightarrow> (BF_HASHTBL_INVALID_ARG, htbl)
      | Some h \<Rightarrow>
          if node = 0 then (BF_HASHTBL_INVALID_ARG, htbl) else
          (case key of None \<Rightarrow> (BF_HASHTBL_INVALID_ARG, htbl)
           | Some k \<Rightarrow>
               if \<not> mem E 0 then (BF_HASHTBL_ERR, htbl) else
               let hash = construct_hash XXH32 h k in
               (BF_HASHTBL_OK, Some (h\<lparr>phtbl := hl_insert T (phtbl h) \<lparr>hn_data = node\<rparr> hash\<rparr>))))"

definition bf_hashtbl_get_remove ::
  "('k \<Rightarrow> nat \<Rightarrow> nat \<Rightarrow> nat) \<Rightarrow> 't tommy \<Rightarrow> ('t, 'k, 's) bf_hashtable option \<Rightarrow> 'k option \<Rightarrow>
    nat \<times> ('t, 'k, 's) bf_hashtable option" where
  "bf_hashtbl_get_remove XXH32 T htbl key =
     (case htbl of None \<Rightarrow> (0, htbl)
      | Some h \<Rightarrow> (case key of None \<Rightarrow> (0, htbl)
          | Some k \<Rightarrow>
              let hash = construct_hash XXH32 h k;
                  (htbl_node, t) = hl_remove T (phtbl h) (cmp_fn h k) hash in
              (case htbl_node of None \<Rightarrow> 0 | Some n \<Rightarrow> hn_data n, Some (h\<lparr>phtbl := t\<rparr>))))"

definition bf_hashtbl_foreach_fn ::
  "'t tommy \<Rightarrow> ('t, 'k, 's) bf_hashtable option \<Rightarrow> (bf_hashtbl_node \<Rightarrow> 's \<Rightarrow> 's) option \<Rightarrow> 's \<Rightarrow> 's" where
  "bf_hashtbl_foreach_fn T htbl foreach_fn s =
     (case htbl of None \<Rightarrow> s
      | Some h \<Rightarrow> (case foreach_fn of None \<Rightarrow> s | Some f \<Rightarrow> hl_foreach T (phtbl h) f s))"

text \<open>The nodes are freed, the table is given back; what is left is the client state.\<close>

definition bf_hashtbl_delete :: "'t tommy \<Rightarrow> ('t, 'k, 's) bf_hashtable option \<Rightarrow> 's \<Rightarrow> 's" where
  "bf_hashtbl_delete T htbl s =
     (case htbl of None \<Rightarrow> s | Some h \<Rightarrow> hl_foreach T (phtbl h) (bf_htbl_foreach_free_fn h) s)"

section \<open>The content of a table\<close>

text \<open>\<open>key_of\<close> is the key inside a datum. The compare function of the client finds it through
  \<open>bf_hashtbl_get_cmp_data\<close> and answers 0 for equal keys. Then a table over \<open>M\<close> holds a node
  for every datum of the bag \<open>M\<close>, under the hash of its key.\<close>

definition cmp_ok :: "(nat \<Rightarrow> 'k) \<Rightarrow> ('k \<Rightarrow> bf_hashtbl_node \<Rightarrow> int) \<Rightarrow> bool" where
  "cmp_ok key_of cmp \<longleftrightarrow> (\<forall>k n. cmp k n = 0 \<longleftrightarrow> key_of (bf_hashtbl_get_cmp_data n) = k)"

definition holds ::
  "('k \<Rightarrow> nat \<Rightarrow> nat \<Rightarrow> nat) \<Rightarrow> (nat \<Rightarrow> 'k) \<Rightarrow> ('t \<Rightarrow> (nat \<times> bf_hashtbl_node) multiset) \<Rightarrow>
    ('t, 'k, 's) bf_hashtable \<Rightarrow> nat multiset \<Rightarrow> bool" where
  "holds XXH32 key_of elems h M \<longleftrightarrow> cmp_ok key_of (cmp_fn h) \<and> 0 \<notin># M \<and>
     elems (phtbl h) = image_mset (\<lambda>d. (construct_hash XXH32 h (key_of d), \<lparr>hn_data = d\<rparr>)) M"

lemma holds_mem:
  "holds X key_of elems h M \<Longrightarrow> (construct_hash X h k, n) \<in># elems (phtbl h) \<and> cmp_fn h k n = 0 \<longleftrightarrow>
    hn_data n \<in># M \<and> key_of (hn_data n) = k"
  by (auto simp: holds_def cmp_ok_def bf_hashtbl_get_cmp_data_def)

lemma construct_hash_phtbl [simp]: "construct_hash X (h\<lparr>phtbl := t\<rparr>) k = construct_hash X h k"
  by (simp add: construct_hash_def)

lemma holds_init:
  assumes "tommy_ok T elems" "mem E 0" "cmp_ok key_of f" "0 < ksz" "0 < dsz"
  shows "\<exists>h'. bf_hashtbl_init E T (Some h) (Some f) ffn ksz dsz sd = Inr (BF_HASHTBL_OK, Some h') \<and>
    holds X key_of elems h' {#} \<and> free_fn h' = ffn"
  using assms by (simp add: bf_hashtbl_init_def holds_def tommy_ok_def)

lemma holds_insert:
  assumes "tommy_ok T elems" "mem E 0" "holds X key_of elems h M" "d \<noteq> 0"
  shows "\<exists>h'. bf_hashtbl_insert E X T (Some h) d (Some (key_of d)) = (BF_HASHTBL_OK, Some h') \<and>
    holds X key_of elems h' (add_mset d M) \<and> free_fn h' = free_fn h"
  using assms by (simp add: bf_hashtbl_insert_def holds_def tommy_ok_def)

lemma holds_search:
  assumes "tommy_ok T elems" "holds X key_of elems h M"
  shows "let r = bf_hashtbl_search X T (Some h) (Some k) in
    if r = 0 then \<forall>d. d \<in># M \<longrightarrow> key_of d \<noteq> k else r \<in># M \<and> key_of r = k"
proof (cases "hl_search T (phtbl h) (cmp_fn h k) (construct_hash X h k)")
  case None
  then have "\<not> (d \<in># M \<and> key_of d = k)" for d
    using holds_mem [OF assms(2), of k "\<lparr>hn_data = d\<rparr>"] tommy_search_None [OF assms(1)] by auto
  with None show ?thesis by (auto simp: bf_hashtbl_search_def)
next
  case (Some n)
  then have "hn_data n \<in># M \<and> key_of (hn_data n) = k"
    using holds_mem [OF assms(2), of k n] tommy_search_Some [OF assms(1)] by blast
  moreover from this assms(2) have "hn_data n \<noteq> 0" unfolding holds_def by metis
  ultimately show ?thesis using Some by (simp add: bf_hashtbl_search_def)
qed

lemma holds_remove:
  assumes "tommy_ok T elems" "holds X key_of elems h M"
  shows "\<exists>r h'. bf_hashtbl_get_remove X T (Some h) (Some k) = (r, Some h') \<and> free_fn h' = free_fn h \<and>
    (if r = 0 then (\<forall>d. d \<in># M \<longrightarrow> key_of d \<noteq> k) \<and> h' = h
     else r \<in># M \<and> key_of r = k \<and> holds X key_of elems h' (M - {#r#}))"
proof -
  obtain r t where r: "hl_remove T (phtbl h) (cmp_fn h k) (construct_hash X h k) = (r, t)" by fastforce
  show ?thesis
  proof (cases r)
    case None
    with r have "t = phtbl h" "\<forall>n. (construct_hash X h k, n) \<in># elems (phtbl h) \<longrightarrow> cmp_fn h k n \<noteq> 0"
      using tommy_remove_None [OF assms(1)] by blast+
    moreover from this have "\<not> (d \<in># M \<and> key_of d = k)" for d using holds_mem [OF assms(2), of k "\<lparr>hn_data = d\<rparr>"] by auto
    ultimately show ?thesis using None r by (auto simp: bf_hashtbl_get_remove_def)
  next
    case (Some n)
    with r have n: "(construct_hash X h k, n) \<in># elems (phtbl h)" "cmp_fn h k n = 0"
      "elems t = elems (phtbl h) - {#(construct_hash X h k, n)#}" using tommy_remove_Some [OF assms(1)] by blast+
    then have d: "hn_data n \<in># M" "key_of (hn_data n) = k" using holds_mem [OF assms(2), of k n] by auto
    from d(1) assms(2) have "hn_data n \<noteq> 0" unfolding holds_def by metis
    moreover have "holds X key_of elems (h\<lparr>phtbl := t\<rparr>) (M - {#hn_data n#})"
      using assms(2) n(3) d by (cases n) (auto simp: holds_def image_mset_Diff dest: in_diffD)
    ultimately show ?thesis using Some r d by (simp add: bf_hashtbl_get_remove_def)
  qed
qed

section \<open>Sequences of calls\<close>

text \<open>A call with its arguments; a key of \<open>None\<close> is NULL. The replies distinguish what a search found from what a
  removal took out.\<close>

datatype 'k hash_call = H_insert nat "'k option" | H_search "'k option" | H_remove "'k option"

datatype hash_reply = Stored bf_hashtbl_sts_t | Found nat | Removed nat

text \<open>A step of the abstract table, a bag of data, in the environment of the call: the reply and the new bag.
  Among several data with the key, a search finds and a removal takes any.\<close>

inductive bag_step :: "(nat \<Rightarrow> 'k) \<Rightarrow> env \<Rightarrow> 'k hash_call \<Rightarrow> hash_reply \<Rightarrow> nat multiset \<Rightarrow> nat multiset \<Rightarrow> bool" for key_of where
  insert: "mem E 0 \<Longrightarrow> d \<noteq> 0 \<Longrightarrow> bag_step key_of E (H_insert d (Some (key_of d))) (Stored BF_HASHTBL_OK) M (add_mset d M)"
| no_memory: "\<not> mem E 0 \<Longrightarrow> d \<noteq> 0 \<Longrightarrow> bag_step key_of E (H_insert d (Some k)) (Stored BF_HASHTBL_ERR) M M"
| invalid: "d = 0 \<or> k = None \<Longrightarrow> bag_step key_of E (H_insert d k) (Stored BF_HASHTBL_INVALID_ARG) M M"
| search: "d \<in># M \<Longrightarrow> bag_step key_of E (H_search (Some (key_of d))) (Found d) M M"
| search_none: "\<forall>d. d \<in># M \<longrightarrow> Some (key_of d) \<noteq> k \<Longrightarrow> bag_step key_of E (H_search k) (Found 0) M M"
| remove: "d \<in># M \<Longrightarrow> bag_step key_of E (H_remove (Some (key_of d))) (Removed d) M (M - {#d#})"
| remove_none: "\<forall>d. d \<in># M \<longrightarrow> Some (key_of d) \<noteq> k \<Longrightarrow> bag_step key_of E (H_remove k) (Removed 0) M M"

inductive bag_run :: "(nat \<Rightarrow> 'k) \<Rightarrow> (env \<times> 'k hash_call) list \<Rightarrow> hash_reply list \<Rightarrow> nat multiset \<Rightarrow> nat multiset \<Rightarrow> bool" for key_of where
  Nil: "bag_run key_of [] [] M M"
| Cons: "bag_step key_of E c r L M \<Longrightarrow> bag_run key_of cs rs M N \<Longrightarrow> bag_run key_of ((E, c) # cs) (r # rs) L N"

text \<open>The same calls on a table.\<close>

definition hash_do ::
  "env \<Rightarrow> ('k \<Rightarrow> nat \<Rightarrow> nat \<Rightarrow> nat) \<Rightarrow> 't tommy \<Rightarrow> 'k hash_call \<Rightarrow>
    ('t, 'k, 's) bf_hashtable option \<Rightarrow> hash_reply \<times> ('t, 'k, 's) bf_hashtable option" where
  "hash_do E X T c htbl = (case c of
       H_insert d k \<Rightarrow> (let (sts, htbl) = bf_hashtbl_insert E X T htbl d k in (Stored sts, htbl))
     | H_search k \<Rightarrow> (Found (bf_hashtbl_search X T htbl k), htbl)
     | H_remove k \<Rightarrow> (let (r, htbl) = bf_hashtbl_get_remove X T htbl k in (Removed r, htbl)))"

fun hash_run ::
  "('k \<Rightarrow> nat \<Rightarrow> nat \<Rightarrow> nat) \<Rightarrow> 't tommy \<Rightarrow> (env \<times> 'k hash_call) list \<Rightarrow>
    ('t, 'k, 's) bf_hashtable option \<Rightarrow> hash_reply list \<times> ('t, 'k, 's) bf_hashtable option" where
  "hash_run X T [] htbl = ([], htbl)"
| "hash_run X T ((E, c) # cs) htbl =
     (let (r, htbl) = hash_do E X T c htbl; (rs, htbl) = hash_run X T cs htbl in (r # rs, htbl))"

text \<open>The client inserts a datum under the key inside it.\<close>

definition hash_call_ok :: "(nat \<Rightarrow> 'k) \<Rightarrow> 'k hash_call \<Rightarrow> bool" where
  "hash_call_ok key_of c \<longleftrightarrow> (case c of H_insert d k \<Rightarrow> k = None \<or> k = Some (key_of d) | _ \<Rightarrow> True)"

lemma do_insert:
  assumes T: "tommy_ok T elems" and h: "holds X key_of elems h M" and c: "k = None \<or> k = Some (key_of d)"
  shows "\<exists>r h' N. hash_do E X T (H_insert d k) (Some h) = (r, Some h') \<and> bag_step key_of E (H_insert d k) r M N \<and>
    holds X key_of elems h' N \<and> free_fn h' = free_fn h"
proof -
  consider "d = 0 \<or> k = None" | "d \<noteq> 0" "k = Some (key_of d)" "\<not> mem E 0" | "d \<noteq> 0" "k = Some (key_of d)" "mem E 0"
    using c by blast
  then show ?thesis
  proof cases
    case 1
    then have "bf_hashtbl_insert E X T (Some h) d k = (BF_HASHTBL_INVALID_ARG, Some h)"
      by (auto simp: bf_hashtbl_insert_def split: option.splits)
    with bag_step.invalid [OF 1, of key_of E M] h show ?thesis by (auto simp: hash_do_def)
  next
    case 2
    then have "bf_hashtbl_insert E X T (Some h) d k = (BF_HASHTBL_ERR, Some h)" by (simp add: bf_hashtbl_insert_def)
    with bag_step.no_memory [OF 2(3,1), of key_of "key_of d" M] h 2(2) show ?thesis by (auto simp: hash_do_def)
  next
    case 3
    from holds_insert [OF T 3(3) h 3(1)] bag_step.insert [OF 3(3,1), of key_of M] 3(2) show ?thesis
      by (fastforce simp: hash_do_def)
  qed
qed

lemma do_search:
  assumes T: "tommy_ok T elems" and h: "holds X key_of elems h M"
  shows "bag_step key_of E (H_search k) (Found (bf_hashtbl_search X T (Some h) k)) M M"
proof (cases k)
  case None
  then have "bf_hashtbl_search X T (Some h) k = 0" by (simp add: bf_hashtbl_search_def)
  with bag_step.search_none [of M key_of k E] None show ?thesis by simp
next
  case (Some j)
  let ?r = "bf_hashtbl_search X T (Some h) (Some j)"
  from holds_search [OF T h, of j] have r: "if ?r = 0 then \<forall>d. d \<in># M \<longrightarrow> key_of d \<noteq> j else ?r \<in># M \<and> key_of ?r = j"
    by (simp add: Let_def)
  show ?thesis
  proof (cases "?r = 0")
    case True
    with r bag_step.search_none [of M key_of k E] Some show ?thesis by simp
  next
    case False
    with r bag_step.search [of ?r M key_of E] Some show ?thesis by simp
  qed
qed

lemma do_remove:
  assumes T: "tommy_ok T elems" and h: "holds X key_of elems h M"
  shows "\<exists>r h' N. hash_do E X T (H_remove k) (Some h) = (r, Some h') \<and> bag_step key_of E (H_remove k) r M N \<and>
    holds X key_of elems h' N \<and> free_fn h' = free_fn h"
proof (cases k)
  case None
  then have "bf_hashtbl_get_remove X T (Some h) k = (0, Some h)" by (simp add: bf_hashtbl_get_remove_def)
  with bag_step.remove_none [of M key_of k E] None h show ?thesis by (auto simp: hash_do_def)
next
  case (Some j)
  from holds_remove [OF T h, of j] obtain r h' where
    r: "bf_hashtbl_get_remove X T (Some h) (Some j) = (r, Some h')" "free_fn h' = free_fn h"
    "if r = 0 then (\<forall>d. d \<in># M \<longrightarrow> key_of d \<noteq> j) \<and> h' = h
     else r \<in># M \<and> key_of r = j \<and> holds X key_of elems h' (M - {#r#})" by blast
  show ?thesis
  proof (cases "r = 0")
    case True
    with r bag_step.remove_none [of M key_of k E] Some h show ?thesis by (auto simp: hash_do_def)
  next
    case False
    with r bag_step.remove [of r M key_of E] Some show ?thesis by (auto simp: hash_do_def)
  qed
qed

lemma hash_do_step:
  assumes "tommy_ok T elems" "holds X key_of elems h M" "hash_call_ok key_of c"
  shows "\<exists>r h' N. hash_do E X T c (Some h) = (r, Some h') \<and> bag_step key_of E c r M N \<and> holds X key_of elems h' N \<and>
    free_fn h' = free_fn h"
proof (cases c)
  case (H_insert d k)
  with do_insert [OF assms(1,2), of k d E] assms(3) show ?thesis by (simp add: hash_call_ok_def)
next
  case (H_search k)
  with do_search [OF assms(1,2), of E k] assms(2) show ?thesis by (auto simp: hash_do_def)
next
  case (H_remove k)
  with do_remove [OF assms(1,2), of E k] show ?thesis by simp
qed

lemma hash_run_steps:
  assumes T: "tommy_ok T elems"
  shows "holds X key_of elems h M \<Longrightarrow> \<forall>(E, c) \<in> set cs. hash_call_ok key_of c \<Longrightarrow>
    \<exists>rs h' N. hash_run X T cs (Some h) = (rs, Some h') \<and> bag_run key_of cs rs M N \<and> holds X key_of elems h' N \<and>
      free_fn h' = free_fn h"
proof (induction cs arbitrary: h M)
  case (Cons p cs)
  obtain E c where p: "p = (E, c)" by (cases p)
  with Cons.prems(2) have "hash_call_ok key_of c" by simp
  from hash_do_step [OF T Cons.prems(1) this, of E] obtain r g L where
    g: "hash_do E X T c (Some h) = (r, Some g)" "bag_step key_of E c r M L" "holds X key_of elems g L" "free_fn g = free_fn h" by blast
  from Cons.IH [OF g(3)] Cons.prems(2) obtain rs h' N where
    "hash_run X T cs (Some g) = (rs, Some h')" "bag_run key_of cs rs L N" "holds X key_of elems h' N" "free_fn h' = free_fn g" by auto
  with g p show ?case by (auto intro: bag_run.Cons)
qed (auto intro: bag_run.Nil)

text \<open>The abstract bag loses nothing: a datum whose insertion returned \<open>BF_HASHTBL_OK\<close> is in it or was taken
  out, once.\<close>

inductive_cases bag_stepE:
  "bag_step key_of E (H_insert d k) r M N"
  "bag_step key_of E (H_search k) r M N"
  "bag_step key_of E (H_remove k) r M N"

inductive_simps bag_run_simps:
  "bag_run key_of [] rs M N"
  "bag_run key_of ((E, c) # cs) rs M N"

fun stored :: "('e \<times> 'k hash_call) list \<Rightarrow> hash_reply list \<Rightarrow> nat list" where
  "stored ((E, H_insert d k) # cs) (r # rs) = (if r = Stored BF_HASHTBL_OK then d # stored cs rs else stored cs rs)"
| "stored (c # cs) (r # rs) = stored cs rs"
| "stored cs rs = []"

fun removed :: "hash_reply list \<Rightarrow> nat list" where
  "removed [] = []"
| "removed (Removed d # rs) = (if d = 0 then removed rs else d # removed rs)"
| "removed (r # rs) = removed rs"

lemma bag_step_conserves:
  assumes "bag_step key_of E c r M N" "0 \<notin># M"
  shows "0 \<notin># N \<and> N + mset (removed [r]) = M + mset (stored [(E, c)] [r])"
proof (cases c)
  case (H_insert d k)
  with assms show ?thesis by (auto elim!: bag_stepE)
next
  case (H_search k)
  with assms show ?thesis by (auto elim!: bag_stepE)
next
  case (H_remove k)
  with assms show ?thesis by (auto elim!: bag_stepE dest: in_diffD)
qed

lemma removed_Cons: "removed (r # rs) = removed [r] @ removed rs"
  by (cases r) simp_all

lemma stored_Cons: "stored (p # cs) (r # rs) = stored [p] [r] @ stored cs rs"
  by (cases p; cases "snd p") auto

lemma bag_run_conserves:
  "bag_run key_of cs rs M N \<Longrightarrow> 0 \<notin># M \<Longrightarrow> N + mset (removed rs) = M + mset (stored cs rs)"
proof (induction cs arbitrary: rs M)
  case (Cons p cs)
  obtain E c where p: "p = (E, c)" by (cases p)
  from Cons.prems(1) obtain r rs' L where r: "rs = r # rs'" "bag_step key_of E c r M L" "bag_run key_of cs rs' L N"
    by (auto simp: p bag_run_simps)
  from bag_step_conserves [OF r(2) Cons.prems(2)] have L: "0 \<notin># L" "L + mset (removed [r]) = M + mset (stored [p] [r])"
    by (simp_all add: p)
  from Cons.IH [OF r(3) L(1)] have "N + mset (removed rs') = L + mset (stored cs rs')" .
  with L(2) show ?case
    unfolding r(1) removed_Cons [of r rs'] stored_Cons [of p cs r rs'] by (simp add: ac_simps) (metis add.assoc add.commute)
qed (simp add: bag_run_simps)

section \<open>Properties\<close>

text \<open>\<open>bf_hashtbl_foreach_fn\<close> calls the function on every node of the table once.\<close>

lemma foreach_each:
  assumes "tommy_ok T elems" "holds XXH32 key_of elems h M"
  shows "\<exists>ns. mset (map hn_data ns) = M \<and> bf_hashtbl_foreach_fn T (Some h) (Some g) s = fold g ns s"
proof (intro exI conjI)
  have "mset (hl_order T (phtbl h)) = image_mset snd (elems (phtbl h))" using assms(1) by (simp add: tommy_ok_def)
  then show "mset (map hn_data (hl_order T (phtbl h))) = M"
    using assms(2) by (simp add: holds_def image_mset.compositionality o_def)
qed (simp add: bf_hashtbl_foreach_fn_def hl_foreach_def)

text \<open>C30: A new table under any sequence of \<open>bf_hashtbl_insert\<close> (of a datum under its key), \<open>bf_hashtbl_search\<close> and
  \<open>bf_hashtbl_get_remove\<close> calls, NULL arguments and failed callocs included, answers like a bag of data: an
  insertion adds its datum even when the key is there and returns \<open>BF_HASHTBL_OK\<close>, or reports a NULL argument
  or missing memory and changes nothing; a search returns a datum with the key and a removal
  takes one out, and both return NULL exactly when there is none. \<open>bf_hashtbl_foreach_fn\<close> then calls its
  function once for every datum of the bag.\<close>

theorem hashtbl_refines_bag:
  assumes "tommy_ok T elems" "mem E 0" "cmp_ok key_of f" "0 < ksz" "0 < dsz" "\<forall>(E, c) \<in> set cs. hash_call_ok key_of c"
  shows "\<exists>h rs h' N ns. bf_hashtbl_init E T (Some h0) (Some f) ffn ksz dsz sd = Inr (BF_HASHTBL_OK, Some h) \<and>
    hash_run XXH32 T cs (Some h) = (rs, Some h') \<and> bag_run key_of cs rs {#} N \<and>
    mset (map hn_data ns) = N \<and> bf_hashtbl_foreach_fn T (Some h') (Some g) s = fold g ns s"
proof -
  from holds_init [OF assms(1-5)] obtain h where
    h: "bf_hashtbl_init E T (Some h0) (Some f) ffn ksz dsz sd = Inr (BF_HASHTBL_OK, Some h)" "holds XXH32 key_of elems h {#}" by blast
  from hash_run_steps [OF assms(1) h(2) assms(6)] obtain rs h' N where
    r: "hash_run XXH32 T cs (Some h) = (rs, Some h')" "bag_run key_of cs rs {#} N" "holds XXH32 key_of elems h' N" by blast
  from foreach_each [OF assms(1) r(3), of g s] r(1,2) h(1) show ?thesis by blast
qed

text \<open>A concrete table for the witnesses: a list of nodes with their hashes.\<close>

definition list_tommy :: "(nat \<times> bf_hashtbl_node) list tommy" where
  "list_tommy = \<lparr>hl_init = [], hl_insert = (\<lambda>t n h. (h, n) # t),
     hl_search = (\<lambda>t c h. map_option snd (find (\<lambda>(h', n). h' = h \<and> c n = 0) t)),
     hl_remove = (\<lambda>t c h. case find (\<lambda>(h', n). h' = h \<and> c n = 0) t of None \<Rightarrow> (None, t) | Some p \<Rightarrow> (Some (snd p), remove1 p t)),
     hl_order = map snd\<rparr>"

lemma list_tommy_ok: "tommy_ok list_tommy mset"
  unfolding tommy_ok_def list_tommy_def
  by (auto simp: find_None_all dest!: find_SomeD split: option.splits)

definition htbl0 :: "((nat \<times> bf_hashtbl_node) list, nat, nat list) bf_hashtable" where
  "htbl0 = \<lparr>cmp_fn = (\<lambda>k n. if hn_data n div 10 = k then 0 else 1), free_fn = Some (\<lambda>d ds. d # ds), key_sz = 4, data_sz = 8,
     seed = 1, phtbl = [(1, \<lparr>hn_data = 34\<rparr>)]\<rparr>"

definition hash0 :: "nat \<Rightarrow> nat \<Rightarrow> nat \<Rightarrow> nat" where
  "hash0 k ksz sd = k mod 3 + sd"

definition env_full :: env where
  "env_full = env0\<lparr>mem := (\<lambda>_. False)\<rparr>"

definition hcalls0 :: "(env \<times> nat hash_call) list" where
  "hcalls0 = [(env0, H_insert 34 (Some 3)), (env0, H_insert 35 (Some 3)), (env_full, H_insert 60 (Some 6)), (env0, H_insert 0 (Some 0)),
     (env0, H_search (Some 6)), (env0, H_remove (Some 3)), (env0, H_search (Some 3)), (env0, H_remove None)]"

lemma hcalls0_ok: "\<forall>(E, c) \<in> set hcalls0. hash_call_ok (\<lambda>d. d div 10) c"
  by (simp add: hcalls0_def hash_call_ok_def)

lemma cmp0_ok: "cmp_ok (\<lambda>d. d div 10) (cmp_fn htbl0)"
  by (simp add: cmp_ok_def bf_hashtbl_get_cmp_data_def htbl0_def)

theorem hashtbl_refines_bag_witness:
  "\<exists>h rs h' N (ns :: bf_hashtbl_node list). bf_hashtbl_init env0 list_tommy (Some htbl0) (Some (cmp_fn htbl0)) None 4 8 1 = Inr (BF_HASHTBL_OK, Some h) \<and>
    hash_run hash0 list_tommy hcalls0 (Some h) = (rs, Some h') \<and> bag_run (\<lambda>d. d div 10) hcalls0 rs {#} N \<and>
    mset (map hn_data ns) = N \<and>
    bf_hashtbl_foreach_fn list_tommy (Some h') (Some (\<lambda>n ds. hn_data n # ds)) [] = fold (\<lambda>n ds. hn_data n # ds) ns []"
  by (rule hashtbl_refines_bag [OF list_tommy_ok _ cmp0_ok _ _ hcalls0_ok]) simp_all

text \<open>The replies of these calls.\<close>

lemma hcalls0_replies:
  "fst (hash_run hash0 list_tommy hcalls0 (Some (htbl0\<lparr>phtbl := []\<rparr>))) =
    [Stored BF_HASHTBL_OK, Stored BF_HASHTBL_OK, Stored BF_HASHTBL_ERR, Stored BF_HASHTBL_INVALID_ARG,
     Found 0, Removed 35, Found 34, Removed 0]"
  by code_simp

text \<open>\<open>bf_hashtbl_delete\<close> calls the free function of the client once on every datum of the table.\<close>

lemma delete_frees_each:
  assumes "tommy_ok T elems" "holds XXH32 key_of elems h M" "free_fn h = Some f"
  shows "\<exists>ds. mset ds = M \<and> bf_hashtbl_delete T (Some h) s = fold f ds s"
proof (intro exI conjI)
  define ns where "ns = hl_order T (phtbl h)"
  have "mset ns = image_mset snd (elems (phtbl h))" using assms(1) by (simp add: tommy_ok_def ns_def)
  then show "mset (map hn_data ns) = M"
    using assms(2) by (simp add: holds_def image_mset.compositionality o_def)
  have "fold (bf_htbl_foreach_free_fn h) ns s = fold f (map hn_data ns) s"
    using assms(3) by (induction ns arbitrary: s) (simp_all add: bf_htbl_foreach_free_fn_def)
  then show "bf_hashtbl_delete T (Some h) s = fold f (map hn_data ns) s"
    by (simp add: bf_hashtbl_delete_def hl_foreach_def ns_def)
qed

text \<open>C33: From \<open>bf_hashtbl_init\<close> to \<open>bf_hashtbl_delete\<close> no datum is lost and none is delivered or freed twice:
  after any sequence of calls, the data that the removals returned and the data on which
  \<open>bf_hashtbl_delete\<close> calls the free function are together exactly the data whose insertion returned
  \<open>BF_HASHTBL_OK\<close>, each as often as it was inserted.\<close>

theorem hashtbl_conserves_data:
  assumes "tommy_ok T elems" "mem E 0" "cmp_ok key_of f" "0 < ksz" "0 < dsz" "\<forall>(E, c) \<in> set cs. hash_call_ok key_of c"
  shows "\<exists>h rs h' ds. bf_hashtbl_init E T (Some h0) (Some f) (Some free) ksz dsz sd = Inr (BF_HASHTBL_OK, Some h) \<and>
    hash_run XXH32 T cs (Some h) = (rs, Some h') \<and> bf_hashtbl_delete T (Some h') s = fold free ds s \<and>
    mset ds + mset (removed rs) = mset (stored cs rs)"
proof -
  from holds_init [OF assms(1-5), of h0 "Some free" sd XXH32] obtain h where
    h: "bf_hashtbl_init E T (Some h0) (Some f) (Some free) ksz dsz sd = Inr (BF_HASHTBL_OK, Some h)"
      "holds XXH32 key_of elems h {#}" "free_fn h = Some free" by blast
  from hash_run_steps [OF assms(1) h(2) assms(6)] h(3) obtain rs h' N where
    r: "hash_run XXH32 T cs (Some h) = (rs, Some h')" "bag_run key_of cs rs {#} N" "holds XXH32 key_of elems h' N"
      "free_fn h' = Some free" by auto
  from delete_frees_each [OF assms(1) r(3,4), of s] obtain ds where
    "mset ds = N" "bf_hashtbl_delete T (Some h') s = fold free ds s" by blast
  moreover have "N + mset (removed rs) = mset (stored cs rs)" using bag_run_conserves [OF r(2)] by simp
  ultimately show ?thesis using h(1) r(1) by blast
qed

theorem hashtbl_conserves_data_witness:
  "\<exists>h rs h' ds. bf_hashtbl_init env0 list_tommy (Some htbl0) (Some (cmp_fn htbl0)) (Some (\<lambda>d ds. d # ds)) 4 8 1 = Inr (BF_HASHTBL_OK, Some h) \<and>
    hash_run hash0 list_tommy hcalls0 (Some h) = (rs, Some h') \<and>
    bf_hashtbl_delete list_tommy (Some h') [] = fold (\<lambda>d ds. d # ds) ds [] \<and> mset ds + mset (removed rs) = mset (stored hcalls0 rs)"
  by (rule hashtbl_conserves_data [OF list_tommy_ok _ cmp0_ok _ _ hcalls0_ok]) simp_all

end
