(* ===== verification/Rbt.thy ===== *)
theory Rbt
  imports Prelude
begin

text \<open>
  src/rbt/rbt.c: a red-black tree of nodes with parent pointers, keys \<open>uint32_t\<close>. The heap \<open>rheap\<close>
  maps the address of a live node to the node; 0 is NULL, a read or write through NULL or through
  a freed node is \<open>Bad_access\<close>. \<open>RED\<close> is \<open>True\<close>. A function gets the heap, and \<open>head\<close>, the value of
  \<open>*rbt_head\<close>, where the C function gets \<open>rbt_head\<close>, and returns their new values. The statements
  are in the order of the source.

  \<open>calloc h\<close> is the address of a new node, 0 when there is no memory. The loops have fuel, because a
  heap may have cycles; running out of it is \<open>Diverges\<close>.
\<close>

abbreviation RED :: bool where "RED \<equiv> True"
abbreviation BLACK :: bool where "BLACK \<equiv> False"

record bf_rbt_node_t =
  nkey :: nat
  ncolor :: bool
  nleft :: nat
  nright :: nat
  nparent :: nat
  ndata :: nat

datatype bf_rbt_node_direction_t = BF_RBT_LEFT_NODE | BF_RBT_RIGHT_NODE | BF_RBT_ROOT_NODE

datatype bf_rbt_sts_t = BF_RBT_OK | BF_RBT_ERR | BF_RBT_NO_KEY | BF_RBT_KEY_EXISTS

type_synonym rheap = "nat \<Rightarrow> bf_rbt_node_t option"

definition node_at :: "rheap \<Rightarrow> nat \<Rightarrow> bf_rbt_node_t res" where
  "node_at h p = (if p = 0 then Inl Bad_access else case h p of None \<Rightarrow> Inl Bad_access | Some n \<Rightarrow> Inr n)"

definition upd_node :: "rheap \<Rightarrow> nat \<Rightarrow> (bf_rbt_node_t \<Rightarrow> bf_rbt_node_t) \<Rightarrow> rheap res" where
  "upd_node h p f = bnd (node_at h p) (\<lambda>n. Inr (h(p \<mapsto> f n)))"

definition bf_create_rbt_node :: "(rheap \<Rightarrow> nat) \<Rightarrow> rheap \<Rightarrow> nat \<Rightarrow> nat \<Rightarrow> nat \<times> rheap" where
  "bf_create_rbt_node calloc h key root =
     (let new_node = calloc h in
      if new_node = 0 then (0, h)
      else (new_node, h(new_node \<mapsto> \<lparr>nkey = key, ncolor = RED, nleft = 0, nright = 0, nparent = root, ndata = 0\<rparr>)))"

section \<open>Rotations\<close>

definition bf_right_rotate_rbt_node :: "rheap \<Rightarrow> nat \<Rightarrow> nat \<Rightarrow> (nat \<times> rheap \<times> nat) res" where
  "bf_right_rotate_rbt_node h node head =
     bnd (node_at h node) (\<lambda>n.
     let g_parent = nparent n; l_child = nleft n in
     bnd (node_at h l_child) (\<lambda>l.
     let g_child = nright l; c_color = ncolor l; p_color = ncolor n in
     bnd (upd_node h l_child (\<lambda>l. l\<lparr>nright := node, nparent := g_parent\<rparr>)) (\<lambda>h.
     bnd (upd_node h node (\<lambda>n. n\<lparr>nleft := g_child, nparent := l_child\<rparr>)) (\<lambda>h.
     bnd (upd_node h l_child (\<lambda>l. l\<lparr>ncolor := p_color\<rparr>)) (\<lambda>h.
     bnd (upd_node h node (\<lambda>n. n\<lparr>ncolor := c_color\<rparr>)) (\<lambda>h.
     bnd (if g_child \<noteq> 0 then upd_node h g_child (\<lambda>g. g\<lparr>nparent := node\<rparr>) else Inr h) (\<lambda>h.
     bnd (if g_parent \<noteq> 0 then
            bnd (node_at h g_parent) (\<lambda>g. bnd (node_at h l_child) (\<lambda>l.
            if nkey g < nkey l then upd_node h g_parent (\<lambda>g. g\<lparr>nright := l_child\<rparr>)
            else upd_node h g_parent (\<lambda>g. g\<lparr>nleft := l_child\<rparr>)))
          else Inr h) (\<lambda>h.
     Inr (l_child, h, if node = head then l_child else head)))))))))"

definition bf_left_rotate_rbt_node :: "rheap \<Rightarrow> nat \<Rightarrow> nat \<Rightarrow> (nat \<times> rheap \<times> nat) res" where
  "bf_left_rotate_rbt_node h node head =
     bnd (node_at h node) (\<lambda>n.
     let g_parent = nparent n; r_child = nright n in
     bnd (node_at h r_child) (\<lambda>r.
     let g_child = nleft r; p_color = ncolor n; c_color = ncolor r in
     bnd (upd_node h r_child (\<lambda>r. r\<lparr>nleft := node, nparent := g_parent\<rparr>)) (\<lambda>h.
     bnd (upd_node h node (\<lambda>n. n\<lparr>nright := g_child, nparent := r_child\<rparr>)) (\<lambda>h.
     bnd (upd_node h r_child (\<lambda>r. r\<lparr>ncolor := p_color\<rparr>)) (\<lambda>h.
     bnd (upd_node h node (\<lambda>n. n\<lparr>ncolor := c_color\<rparr>)) (\<lambda>h.
     bnd (if g_child \<noteq> 0 then upd_node h g_child (\<lambda>g. g\<lparr>nparent := node\<rparr>) else Inr h) (\<lambda>h.
     bnd (if g_parent \<noteq> 0 then
            bnd (node_at h g_parent) (\<lambda>g. bnd (node_at h r_child) (\<lambda>r.
            if nkey g < nkey r then upd_node h g_parent (\<lambda>g. g\<lparr>nright := r_child\<rparr>)
            else upd_node h g_parent (\<lambda>g. g\<lparr>nleft := r_child\<rparr>)))
          else Inr h) (\<lambda>h.
     Inr (r_child, h, if node = head then r_child else head)))))))))"

definition bf_perform_rotation :: "rheap \<Rightarrow> nat \<Rightarrow> nat \<Rightarrow> nat \<Rightarrow> (nat \<times> rheap \<times> nat) res" where
  "bf_perform_rotation h parent head key =
     bnd (node_at h parent) (\<lambda>p.
     let g_parent = nparent p in
     bnd (node_at h g_parent) (\<lambda>g.
     if nkey g < nkey p then
       if nkey p < key then bf_left_rotate_rbt_node h g_parent head
       else bnd (bf_right_rotate_rbt_node h parent head) (\<lambda>(parent, h, head). bf_left_rotate_rbt_node h g_parent head)
     else
       if nkey p < key then
         bnd (bf_left_rotate_rbt_node h parent head) (\<lambda>(parent, h, head). bf_right_rotate_rbt_node h g_parent head)
       else bf_right_rotate_rbt_node h g_parent head))"

section \<open>Searches\<close>

primrec leftmost_loop :: "nat \<Rightarrow> rheap \<Rightarrow> nat \<Rightarrow> nat res" where
  "leftmost_loop 0 h p = Inl Diverges"
| "leftmost_loop (Suc fuel) h p =
     bnd (node_at h p) (\<lambda>n. if nleft n \<noteq> 0 then leftmost_loop fuel h (nleft n) else Inr p)"

primrec rightmost_loop :: "nat \<Rightarrow> rheap \<Rightarrow> nat \<Rightarrow> nat res" where
  "rightmost_loop 0 h p = Inl Diverges"
| "rightmost_loop (Suc fuel) h p =
     bnd (node_at h p) (\<lambda>n. if nright n \<noteq> 0 then rightmost_loop fuel h (nright n) else Inr p)"

definition bf_get_successor_rbt_node :: "nat \<Rightarrow> rheap \<Rightarrow> nat \<Rightarrow> nat res" where
  "bf_get_successor_rbt_node fuel h root =
     bnd (node_at h root) (\<lambda>n. if nright n = 0 then Inr 0 else leftmost_loop fuel h (nright n))"

definition bf_get_predecessor_rbt_node :: "nat \<Rightarrow> rheap \<Rightarrow> nat \<Rightarrow> nat res" where
  "bf_get_predecessor_rbt_node fuel h root =
     bnd (node_at h root) (\<lambda>n. if nleft n = 0 then Inr 0 else rightmost_loop fuel h (nleft n))"

primrec lower_bound_loop :: "nat \<Rightarrow> nat \<Rightarrow> rheap \<Rightarrow> nat \<Rightarrow> nat \<Rightarrow> nat res" where
  "lower_bound_loop 0 key h root lower_bound = Inl Diverges"
| "lower_bound_loop (Suc fuel) key h root lower_bound =
     (if root = 0 then Inr lower_bound else
      bnd (node_at h root) (\<lambda>n.
      if nkey n = key then Inr root
      else if nkey n > key then lower_bound_loop fuel key h (nleft n) lower_bound
      else lower_bound_loop fuel key h (nright n) root))"

definition bf_get_lower_bound :: "nat \<Rightarrow> nat \<Rightarrow> rheap \<Rightarrow> nat \<Rightarrow> nat res" where
  "bf_get_lower_bound fuel key h head = lower_bound_loop fuel key h head 0"

primrec upper_bound_loop :: "nat \<Rightarrow> nat \<Rightarrow> rheap \<Rightarrow> nat \<Rightarrow> nat \<Rightarrow> nat res" where
  "upper_bound_loop 0 key h root upper_bound = Inl Diverges"
| "upper_bound_loop (Suc fuel) key h root upper_bound =
     (if root = 0 then Inr upper_bound else
      bnd (node_at h root) (\<lambda>n.
      if nkey n = key then Inr root
      else if nkey n < key then upper_bound_loop fuel key h (nright n) upper_bound
      else upper_bound_loop fuel key h (nleft n) root))"

definition bf_get_upper_bound :: "nat \<Rightarrow> nat \<Rightarrow> rheap \<Rightarrow> nat \<Rightarrow> nat res" where
  "bf_get_upper_bound fuel key h head = upper_bound_loop fuel key h head 0"

definition bf_get_highest_key_node :: "nat \<Rightarrow> rheap \<Rightarrow> nat \<Rightarrow> nat res" where
  "bf_get_highest_key_node fuel h head = (if head = 0 then Inr 0 else rightmost_loop fuel h head)"

definition bf_get_lowest_key_node :: "nat \<Rightarrow> rheap \<Rightarrow> nat \<Rightarrow> nat res" where
  "bf_get_lowest_key_node fuel h head = (if head = 0 then Inr 0 else leftmost_loop fuel h head)"

section \<open>Neighbours\<close>

text \<open>\<open>p != NULL && p->key == key\<close>\<close>

definition has_key :: "rheap \<Rightarrow> nat \<Rightarrow> nat \<Rightarrow> bool res" where
  "has_key h p key = (if p \<noteq> 0 then bnd (node_at h p) (\<lambda>n. Inr (nkey n = key)) else Inr False)"

definition bf_get_rbt_node_direction :: "rheap \<Rightarrow> nat \<Rightarrow> bf_rbt_node_direction_t res" where
  "bf_get_rbt_node_direction h root =
     bnd (node_at h root) (\<lambda>r.
     if nparent r = 0 then Inr BF_RBT_ROOT_NODE else
     bnd (node_at h (nparent r)) (\<lambda>p.
     if nkey p < nkey r then Inr BF_RBT_RIGHT_NODE else
     bnd (has_key h (nright p) (nkey r)) (\<lambda>b.
     Inr (if b then BF_RBT_RIGHT_NODE else BF_RBT_LEFT_NODE))))"

definition bf_get_rbt_neigh_color :: "rheap \<Rightarrow> nat \<Rightarrow> bool res" where
  "bf_get_rbt_neigh_color h root =
     bnd (node_at h root) (\<lambda>r.
     if nparent r = 0 then Inr BLACK else
     bnd (node_at h (nparent r)) (\<lambda>p.
     bnd (has_key h (nright p) (nkey r)) (\<lambda>b.
     if b \<or> nkey p < nkey r then
       if nleft p \<noteq> 0 then bnd (node_at h (nleft p)) (\<lambda>q. Inr (ncolor q)) else Inr BLACK
     else
       bnd (has_key h (nleft p) (nkey r)) (\<lambda>b.
       if b \<or> nkey p > nkey r then
         if nright p \<noteq> 0 then bnd (node_at h (nright p)) (\<lambda>q. Inr (ncolor q)) else Inr BLACK
       else Inr BLACK))))"

definition bf_get_neighbor_rbt_node :: "rheap \<Rightarrow> nat \<Rightarrow> nat res" where
  "bf_get_neighbor_rbt_node h root =
     bnd (node_at h root) (\<lambda>r.
     if nparent r = 0 then Inr 0 else
     bnd (node_at h (nparent r)) (\<lambda>p.
     bnd (has_key h (nright p) (nkey r)) (\<lambda>b.
     if b \<or> nkey p < nkey r then Inr (nleft p)
     else
       bnd (has_key h (nleft p) (nkey r)) (\<lambda>b.
       if b \<or> nkey p > nkey r then Inr (nright p) else Inr 0))))"

section \<open>Insertion\<close>

text \<open>\<open>bf_color_fix_rbt_nodes\<close> and \<open>bf_balance_rbt_post_insertion\<close> call each other.\<close>

fun bf_color_fix_rbt_nodes :: "nat \<Rightarrow> rheap \<Rightarrow> nat \<Rightarrow> nat \<Rightarrow> (rheap \<times> nat) res"
  and bf_balance_rbt_post_insertion :: "nat \<Rightarrow> rheap \<Rightarrow> nat \<Rightarrow> nat \<Rightarrow> nat \<Rightarrow> (rheap \<times> nat) res" where
  "bf_color_fix_rbt_nodes fuel h root head =
     bnd (node_at h root) (\<lambda>r.
     if ncolor r = BLACK then Inr (h, head) else
     let parent = nparent r in
     bnd (node_at h parent) (\<lambda>p.
     let sibling = (if nkey p < nkey r then nleft p else nright p) in
     bnd (upd_node h sibling (\<lambda>s. s\<lparr>ncolor := BLACK\<rparr>)) (\<lambda>h.
     bnd (upd_node h root (\<lambda>r. r\<lparr>ncolor := BLACK\<rparr>)) (\<lambda>h.
     if nparent p = 0 then bnd (upd_node h parent (\<lambda>p. p\<lparr>ncolor := BLACK\<rparr>)) (\<lambda>h. Inr (h, head))
     else
       bnd (upd_node h parent (\<lambda>p. p\<lparr>ncolor := RED\<rparr>)) (\<lambda>h.
       bf_balance_rbt_post_insertion fuel h (nparent p) head (nkey r))))))"
| "bf_balance_rbt_post_insertion 0 h root head key = Inl Diverges"
| "bf_balance_rbt_post_insertion (Suc fuel) h root head key =
     bnd (node_at h root) (\<lambda>r.
     if ncolor r = RED then
       bnd (bf_get_rbt_neigh_color h root) (\<lambda>neigh_color.
       if neigh_color = RED then bf_color_fix_rbt_nodes fuel h root head
       else bnd (bf_perform_rotation h root head key) (\<lambda>(parent, h, head). Inr (h, head)))
     else Inr (h, head))"

text \<open>The descent: the node with the key, or the last node on the way to where it belongs.\<close>

primrec insert_loop :: "nat \<Rightarrow> nat \<Rightarrow> rheap \<Rightarrow> nat \<Rightarrow> nat \<Rightarrow> nat res" where
  "insert_loop 0 key h root prev = Inl Diverges"
| "insert_loop (Suc fuel) key h root prev =
     (if root = 0 then Inr prev else
      bnd (node_at h root) (\<lambda>n.
      if nkey n < key then insert_loop fuel key h (nright n) root
      else if nkey n > key then insert_loop fuel key h (nleft n) root
      else Inr root))"

definition bf_insert_rbt_entry ::
  "(rheap \<Rightarrow> nat) \<Rightarrow> nat \<Rightarrow> rheap \<Rightarrow> nat \<Rightarrow> nat \<Rightarrow> nat \<Rightarrow> (nat \<times> rheap \<times> nat) res" where
  "bf_insert_rbt_entry calloc fuel h root key head =
     (if root = 0 then
        let (new_node, h) = bf_create_rbt_node calloc h key root in
        if new_node = 0 then Inr (0, h, head) else
        bnd (upd_node h new_node (\<lambda>n. n\<lparr>ncolor := BLACK\<rparr>)) (\<lambda>h. Inr (new_node, h, new_node))
      else
        bnd (insert_loop fuel key h root root) (\<lambda>root.
        bnd (node_at h root) (\<lambda>n.
        if nkey n = key then Inr (root, h, head)
        else if nkey n < key then
          let (new_node, h) = bf_create_rbt_node calloc h key root in
          bnd (upd_node h root (\<lambda>n. n\<lparr>nright := new_node\<rparr>)) (\<lambda>h.
          if new_node = 0 then Inr (0, h, head) else
          bnd (bf_balance_rbt_post_insertion fuel h root head key) (\<lambda>(h, head). Inr (new_node, h, head)))
        else
          let (new_node, h) = bf_create_rbt_node calloc h key root in
          bnd (upd_node h root (\<lambda>n. n\<lparr>nleft := new_node\<rparr>)) (\<lambda>h.
          if new_node = 0 then Inr (0, h, head) else
          bnd (bf_balance_rbt_post_insertion fuel h root head key) (\<lambda>(h, head). Inr (new_node, h, head))))))"

section \<open>Removal\<close>

primrec find_loop :: "nat \<Rightarrow> nat \<Rightarrow> rheap \<Rightarrow> nat \<Rightarrow> nat res" where
  "find_loop 0 key h root_node = Inl Diverges"
| "find_loop (Suc fuel) key h root_node =
     (if root_node = 0 then Inr 0 else
      bnd (node_at h root_node) (\<lambda>n.
      if nkey n = key then Inr root_node
      else if nkey n < key then find_loop fuel key h (nright n)
      else find_loop fuel key h (nleft n)))"

text \<open>The second loop of \<open>bf_bst_node_deletion\<close>; \<open>color\<close> is \<open>None\<close> as long as nothing is written.\<close>

primrec replace_loop :: "nat \<Rightarrow> rheap \<Rightarrow> nat \<Rightarrow> bool option \<Rightarrow> (nat \<times> bool option \<times> rheap) res" where
  "replace_loop 0 h root_node color = Inl Diverges"
| "replace_loop (Suc fuel) h root_node color =
     (if root_node = 0 then Inr (root_node, color, h) else
      bnd (node_at h root_node) (\<lambda>n.
      if nright n = 0 \<and> nleft n = 0 then Inr (root_node, Some (ncolor n), h)
      else
        bnd (bf_get_successor_rbt_node fuel h root_node) (\<lambda>replacement.
        bnd (if replacement = 0 then bf_get_predecessor_rbt_node fuel h root_node else Inr replacement) (\<lambda>replacement.
        bnd (node_at h replacement) (\<lambda>r.
        bnd (upd_node h root_node (\<lambda>n. n\<lparr>nkey := nkey r, ndata := ndata r\<rparr>)) (\<lambda>h.
        replace_loop fuel h replacement (Some (ncolor r))))))))"

definition bf_bst_node_deletion :: "nat \<Rightarrow> nat \<Rightarrow> rheap \<Rightarrow> nat \<Rightarrow> (nat \<times> bool option \<times> rheap) res" where
  "bf_bst_node_deletion fuel key h head =
     bnd (find_loop fuel key h head) (\<lambda>root_node. replace_loop fuel h root_node None)"

text \<open>\<open>p == NULL || p->color == BLACK\<close>\<close>

definition null_or_black :: "rheap \<Rightarrow> nat \<Rightarrow> bool res" where
  "null_or_black h p = (if p = 0 then Inr True else bnd (node_at h p) (\<lambda>n. Inr (ncolor n = BLACK)))"

text \<open>\<open>rb\<close> and \<open>lb\<close>: the right and the left child of the sibling are NULL or black. As in the source, the
  left child is read only when the right one is black or the node is a right child.\<close>

primrec rebalance_loop :: "nat \<Rightarrow> rheap \<Rightarrow> nat \<Rightarrow> nat \<Rightarrow> (rheap \<times> nat) res" where
  "rebalance_loop 0 h node head = Inl Diverges"
| "rebalance_loop (Suc fuel) h node head =
     (if node = 0 then Inr (h, head) else
      bnd (node_at h node) (\<lambda>n.
      if nparent n = 0 then Inr (h, head) else
      bnd (bf_get_neighbor_rbt_node h node) (\<lambda>neigh_node.
      bnd (bf_get_rbt_node_direction h node) (\<lambda>node_dir.
      bnd (null_or_black h neigh_node) (\<lambda>nb.
      if nb then
        bnd (if neigh_node = 0 then Inr (True, True) else
             bnd (node_at h neigh_node) (\<lambda>s. bnd (null_or_black h (nright s)) (\<lambda>rb.
             bnd (if rb \<or> node_dir = BF_RBT_RIGHT_NODE then null_or_black h (nleft s) else Inr True) (\<lambda>lb.
             Inr (rb, lb))))) (\<lambda>(rb, lb).
        if rb \<and> lb then
          bnd (if neigh_node \<noteq> 0 then upd_node h neigh_node (\<lambda>s. s\<lparr>ncolor := RED\<rparr>) else Inr h) (\<lambda>h.
          bnd (node_at h (nparent n)) (\<lambda>p.
          if ncolor p = RED then bnd (upd_node h (nparent n) (\<lambda>p. p\<lparr>ncolor := BLACK\<rparr>)) (\<lambda>h. Inr (h, head))
          else rebalance_loop fuel h (nparent n) head))
        else if node_dir = BF_RBT_LEFT_NODE \<and> \<not> rb then
          bnd (bf_left_rotate_rbt_node h (nparent n) head) (\<lambda>(_, h, head).
          bnd (node_at h neigh_node) (\<lambda>s.
          bnd (upd_node h (nright s) (\<lambda>c. c\<lparr>ncolor := BLACK\<rparr>)) (\<lambda>h. Inr (h, head))))
        else if node_dir = BF_RBT_RIGHT_NODE \<and> \<not> lb then
          bnd (bf_right_rotate_rbt_node h (nparent n) head) (\<lambda>(_, h, head).
          bnd (node_at h neigh_node) (\<lambda>s.
          bnd (upd_node h (nleft s) (\<lambda>c. c\<lparr>ncolor := BLACK\<rparr>)) (\<lambda>h. Inr (h, head))))
        else if node_dir = BF_RBT_LEFT_NODE \<and> rb \<and> \<not> lb then
          bnd (bf_right_rotate_rbt_node h neigh_node head) (\<lambda>(_, h, head). rebalance_loop fuel h node head)
        else if node_dir = BF_RBT_RIGHT_NODE \<and> lb \<and> \<not> rb then
          bnd (bf_left_rotate_rbt_node h neigh_node head) (\<lambda>(_, h, head). rebalance_loop fuel h node head)
        else rebalance_loop fuel h node head)
      else if node_dir = BF_RBT_RIGHT_NODE then
        bnd (bf_right_rotate_rbt_node h (nparent n) head) (\<lambda>(_, h, head). rebalance_loop fuel h node head)
      else
        bnd (bf_left_rotate_rbt_node h (nparent n) head) (\<lambda>(_, h, head). rebalance_loop fuel h node head))))))"

definition bf_balance_rbt_post_deletion :: "nat \<Rightarrow> rheap \<Rightarrow> nat \<Rightarrow> nat \<Rightarrow> (rheap \<times> nat) res" where
  "bf_balance_rbt_post_deletion fuel h node head =
     bnd (rebalance_loop fuel h node head) (\<lambda>(h, head).
     bnd (node_at h head) (\<lambda>r.
     if ncolor r = RED then bnd (upd_node h head (\<lambda>r. r\<lparr>ncolor := BLACK\<rparr>)) (\<lambda>h. Inr (h, head))
     else Inr (h, head)))"

definition bf_remove_rbt_entry :: "nat \<Rightarrow> nat \<Rightarrow> rheap \<Rightarrow> nat \<Rightarrow> (bf_rbt_sts_t \<times> rheap \<times> nat) res" where
  "bf_remove_rbt_entry fuel key h head =
     bnd (bf_bst_node_deletion fuel key h head) (\<lambda>(res_node, color, h).
     if res_node = 0 then Inr (BF_RBT_NO_KEY, h, head) else
     bnd (if color = Some BLACK then bf_balance_rbt_post_deletion fuel h res_node head else Inr (h, head)) (\<lambda>(h, head).
     bnd (node_at h res_node) (\<lambda>n.
     let parent = nparent n in
     bnd (if parent = 0 then Inr (h, 0) else
          bnd (bf_get_rbt_node_direction h res_node) (\<lambda>child_dir.
          if child_dir = BF_RBT_LEFT_NODE
          then bnd (upd_node h parent (\<lambda>p. p\<lparr>nleft := 0\<rparr>)) (\<lambda>h. Inr (h, head))
          else bnd (upd_node h parent (\<lambda>p. p\<lparr>nright := 0\<rparr>)) (\<lambda>h. Inr (h, head)))) (\<lambda>(h, head).
     Inr (BF_RBT_OK, h(res_node := None), head)))))"

end
