(* ===== verification/Rbt_Tree.thy ===== *)
theory Rbt_Tree
  imports Rbt
begin

text \<open>
  Trees in the heap of Rbt. \<open>rep h p t\<close>: the tree \<open>t\<close>, whose nodes carry their addresses, is stored
  in \<open>h\<close> with \<open>p\<close> as the parent of its root; \<open>rbt_at h head t\<close>: \<open>head\<close> points to \<open>t\<close>, and \<open>h\<close> has no other
  nodes. A node inside a tree is the root of a subtree with its context, a list of frames from the
  node upwards; \<open>plug\<close> puts the subtree back.
\<close>

section \<open>Trees and contexts\<close>

datatype rtree = Lf | Nd rtree nat bool nat nat rtree

datatype frame = LeftOf nat bool nat nat rtree | RightOf rtree nat bool nat nat

primrec root :: "rtree \<Rightarrow> nat" where
  "root Lf = 0"
| "root (Nd l a c k d r) = a"

primrec addrs :: "rtree \<Rightarrow> nat list" where
  "addrs Lf = []"
| "addrs (Nd l a c k d r) = addrs l @ a # addrs r"

primrec faddr :: "frame \<Rightarrow> nat" where
  "faddr (LeftOf a c k d r) = a"
| "faddr (RightOf l a c k d) = a"

primrec fkey :: "frame \<Rightarrow> nat" where
  "fkey (LeftOf a c k d r) = k"
| "fkey (RightOf l a c k d) = k"

primrec fcolor :: "frame \<Rightarrow> bool" where
  "fcolor (LeftOf a c k d r) = c"
| "fcolor (RightOf l a c k d) = c"

primrec sib :: "frame \<Rightarrow> rtree" where
  "sib (LeftOf a c k d r) = r"
| "sib (RightOf l a c k d) = l"

definition top :: "frame list \<Rightarrow> nat" where
  "top fs = (case fs of [] \<Rightarrow> 0 | f # _ \<Rightarrow> faddr f)"

lemma top_simps [simp]: "top [] = 0" "top (f # fs) = faddr f"
  by (simp_all add: top_def)

primrec fill :: "frame \<Rightarrow> rtree \<Rightarrow> rtree" where
  "fill (LeftOf a c k d r) t = Nd t a c k d r"
| "fill (RightOf l a c k d) t = Nd l a c k d t"

primrec plug :: "rtree \<Rightarrow> frame list \<Rightarrow> rtree" where
  "plug t [] = t"
| "plug t (f # fs) = plug (fill f t) fs"

primrec caddrs :: "frame list \<Rightarrow> nat list" where
  "caddrs [] = []"
| "caddrs (f # fs) = faddr f # addrs (sib f) @ caddrs fs"

lemma set_addrs_plug [simp]: "set (addrs (plug t fs)) = set (addrs t) \<union> set (caddrs fs)"
proof (induction fs arbitrary: t)
  case (Cons f fs) then show ?case by (cases f) auto
qed simp

lemma set_addrs_fill [simp]: "set (addrs (fill f t)) = insert (faddr f) (set (addrs t) \<union> set (addrs (sib f)))"
  by (cases f) auto

lemma distinct_addrs_plug [simp]: "distinct (addrs (plug t fs)) \<longleftrightarrow> distinct (addrs t @ caddrs fs)"
proof (induction fs arbitrary: t)
  case (Cons f fs) then show ?case by (cases f) auto
qed simp

lemma root_0_iff: "0 \<notin> set (addrs t) \<Longrightarrow> root t = 0 \<longleftrightarrow> t = Lf"
  by (cases t) auto

lemma root_plug: "root (plug t fs) = (if fs = [] then root t else faddr (last fs))"
proof (induction fs arbitrary: t)
  case (Cons f fs) then show ?case by (cases f) auto
qed simp

lemma faddr_last_mem: "fs \<noteq> [] \<Longrightarrow> faddr (last fs) \<in> set (caddrs fs)"
  by (induction fs) auto

section \<open>Trees in the heap\<close>

primrec rep :: "rheap \<Rightarrow> nat \<Rightarrow> rtree \<Rightarrow> bool" where
  "rep h p Lf = True"
| "rep h p (Nd l a c k d r) =
     (h a = Some \<lparr>nkey = k, ncolor = c, nleft = root l, nright = root r, nparent = p, ndata = d\<rparr> \<and>
      rep h a l \<and> rep h a r)"

fun repc :: "rheap \<Rightarrow> nat \<Rightarrow> frame list \<Rightarrow> bool" where
  "repc h x [] = True"
| "repc h x (LeftOf a c k d r # fs) =
     (h a = Some \<lparr>nkey = k, ncolor = c, nleft = x, nright = root r, nparent = top fs, ndata = d\<rparr> \<and>
      rep h a r \<and> repc h a fs)"
| "repc h x (RightOf l a c k d # fs) =
     (h a = Some \<lparr>nkey = k, ncolor = c, nleft = root l, nright = x, nparent = top fs, ndata = d\<rparr> \<and>
      rep h a l \<and> repc h a fs)"

definition rbt_at :: "rheap \<Rightarrow> nat \<Rightarrow> rtree \<Rightarrow> bool" where
  "rbt_at h head t \<longleftrightarrow> rep h 0 t \<and> distinct (addrs t) \<and> 0 \<notin> set (addrs t) \<and> dom h = set (addrs t) \<and> head = root t"

lemma rep_plug: "rep h 0 (plug t fs) \<longleftrightarrow> rep h (top fs) t \<and> repc h (root t) fs"
proof (induction fs arbitrary: t)
  case (Cons f fs) then show ?case by (cases f) auto
qed simp

lemma rep_frame [simp]: "x \<notin> set (addrs t) \<Longrightarrow> rep (h(x := v)) p t = rep h p t"
  by (induction t arbitrary: p) auto

lemma repc_frame [simp]: "x \<notin> set (caddrs fs) \<Longrightarrow> repc (h(x := v)) p fs = repc h p fs"
proof (induction fs arbitrary: p)
  case (Cons f fs) then show ?case by (cases f) (simp_all add: fun_upd_other del: fun_upd_apply)
qed simp

lemma rbt_at_plug:
  "rbt_at h head (plug t fs) \<longleftrightarrow>
    rep h (top fs) t \<and> repc h (root t) fs \<and> distinct (addrs t @ caddrs fs) \<and> 0 \<notin> set (addrs t) \<union> set (caddrs fs) \<and>
    dom h = set (addrs t) \<union> set (caddrs fs) \<and> head = (if fs = [] then root t else faddr (last fs))"
  by (simp add: rbt_at_def rep_plug root_plug)

lemma top_0_iff: "rbt_at h head (plug t fs) \<Longrightarrow> top fs = 0 \<longleftrightarrow> fs = []"
  by (cases fs) (auto simp: rbt_at_def)

lemma node_at_Some [simp]: "h p = Some n \<Longrightarrow> p \<noteq> 0 \<Longrightarrow> node_at h p = Inr n"
  by (simp add: node_at_def)

lemma upd_node_Some [simp]: "h p = Some n \<Longrightarrow> p \<noteq> 0 \<Longrightarrow> upd_node h p f = Inr (h(p \<mapsto> f n))"
  by (simp add: upd_node_def)

lemma insert_dom [simp]: "h x = Some n \<Longrightarrow> insert x (dom h) = dom h"
  by auto

text \<open>A child is where the comparison of the keys says.\<close>

definition fits :: "nat \<Rightarrow> frame list \<Rightarrow> bool" where
  "fits k fs = (case fs of [] \<Rightarrow> True | LeftOf a c p d r # _ \<Rightarrow> \<not> p < k | RightOf l a c p d # _ \<Rightarrow> p < k)"

lemma fits_simps [simp]:
  "fits k []" "fits k (LeftOf a c p d r # fs) \<longleftrightarrow> \<not> p < k" "fits k (RightOf l a c p d # fs) \<longleftrightarrow> p < k"
  by (simp_all add: fits_def)

section \<open>Rotations\<close>

lemma right_rotate:
  assumes "rbt_at h head (plug (Nd (Nd ll la lc lk ld lr) a c k d r) fs)" and "fits lk fs"
  shows "\<exists>h' head'. bf_right_rotate_rbt_node h a head = Inr (la, h', head') \<and>
    rbt_at h' head' (plug (Nd ll la c lk ld (Nd lr a lc k d r)) fs)"
proof -
  have *: "fs \<noteq> [] \<Longrightarrow> a \<noteq> faddr (last fs)" using assms(1) faddr_last_mem [of fs] by (auto simp: rbt_at_plug)
  show ?thesis
  proof (cases fs)
    case Nil
    then show ?thesis using assms
      by (cases lr) (auto simp: rbt_at_def bf_right_rotate_rbt_node_def Let_def)
  next
    case (Cons f gs)
    note g = this
    show ?thesis
    proof (cases f)
      case (LeftOf p pc pk pd pr)
      show ?thesis using assms * unfolding g LeftOf rbt_at_plug bf_right_rotate_rbt_node_def
        by (cases lr) (simp_all add: Let_def insert_commute)
    next
      case (RightOf pl p pc pk pd)
      show ?thesis using assms * unfolding g RightOf rbt_at_plug bf_right_rotate_rbt_node_def
        by (cases lr) (simp_all add: Let_def insert_commute)
    qed
  qed
qed

lemma left_rotate:
  assumes "rbt_at h head (plug (Nd l a c k d (Nd rl ra rc rk rd rr)) fs)" and "fits rk fs"
  shows "\<exists>h' head'. bf_left_rotate_rbt_node h a head = Inr (ra, h', head') \<and>
    rbt_at h' head' (plug (Nd (Nd l a rc k d rl) ra c rk rd rr) fs)"
proof -
  have *: "fs \<noteq> [] \<Longrightarrow> a \<noteq> faddr (last fs)" using assms(1) faddr_last_mem [of fs] by (auto simp: rbt_at_plug)
  show ?thesis
  proof (cases fs)
    case Nil
    then show ?thesis using assms
      by (cases rl) (auto simp: rbt_at_def bf_left_rotate_rbt_node_def Let_def)
  next
    case (Cons f gs)
    note g = this
    show ?thesis
    proof (cases f)
      case (LeftOf p pc pk pd pr)
      show ?thesis using assms * unfolding g LeftOf rbt_at_plug bf_left_rotate_rbt_node_def
        by (cases rl) (simp_all add: Let_def insert_commute)
    next
      case (RightOf pl p pc pk pd)
      show ?thesis using assms * unfolding g RightOf rbt_at_plug bf_left_rotate_rbt_node_def
        by (cases rl) (simp_all add: Let_def insert_commute)
    qed
  qed
qed

section \<open>Reading and recolouring a node\<close>

lemma node_at_root:
  "rbt_at h head (plug (Nd l a c k d r) fs) \<Longrightarrow>
    node_at h a = Inr \<lparr>nkey = k, ncolor = c, nleft = root l, nright = root r, nparent = top fs, ndata = d\<rparr>"
  by (simp add: rbt_at_plug)

lemma node_at_parent:
  "rbt_at h head (plug t (LeftOf a c k d r # fs)) \<Longrightarrow>
    node_at h a = Inr \<lparr>nkey = k, ncolor = c, nleft = root t, nright = root r, nparent = top fs, ndata = d\<rparr>"
  "rbt_at h head (plug t (RightOf l a c k d # fs)) \<Longrightarrow>
    node_at h a = Inr \<lparr>nkey = k, ncolor = c, nleft = root l, nright = root t, nparent = top fs, ndata = d\<rparr>"
  by (simp_all add: rbt_at_plug)

lemma recolor:
  assumes "rbt_at h head (plug (Nd l a c k d r) fs)"
  shows "\<exists>h'. upd_node h a (\<lambda>n. n\<lparr>ncolor := c'\<rparr>) = Inr h' \<and> rbt_at h' head (plug (Nd l a c' k d r) fs)"
  using assms unfolding rbt_at_plug by simp

section \<open>Content, order and colours\<close>

text \<open>The nodes in order: address, key and data.\<close>

primrec nodes :: "rtree \<Rightarrow> (nat \<times> nat \<times> nat) list" where
  "nodes Lf = []"
| "nodes (Nd l a c k d r) = nodes l @ (a, k, d) # nodes r"

fun before :: "frame list \<Rightarrow> (nat \<times> nat \<times> nat) list" where
  "before [] = []"
| "before (LeftOf a c k d r # fs) = before fs"
| "before (RightOf l a c k d # fs) = before fs @ nodes l @ [(a, k, d)]"

fun after :: "frame list \<Rightarrow> (nat \<times> nat \<times> nat) list" where
  "after [] = []"
| "after (LeftOf a c k d r # fs) = (a, k, d) # nodes r @ after fs"
| "after (RightOf l a c k d # fs) = after fs"

lemma nodes_plug: "nodes (plug t fs) = before fs @ nodes t @ after fs"
proof (induction fs arbitrary: t)
  case (Cons f fs) then show ?case by (cases f) auto
qed simp

definition nkeys :: "(nat \<times> nat \<times> nat) list \<Rightarrow> nat list" where
  "nkeys xs = map (fst \<circ> snd) xs"

lemma nkeys_simps [simp]:
  "nkeys [] = []" "nkeys ((a, k, d) # xs) = k # nkeys xs" "nkeys (xs @ ys) = nkeys xs @ nkeys ys"
  by (simp_all add: nkeys_def)

definition ordered :: "rtree \<Rightarrow> bool" where
  "ordered t \<longleftrightarrow> sorted_wrt (<) (nkeys (nodes t))"

primrec color :: "rtree \<Rightarrow> bool" where
  "color Lf = BLACK"
| "color (Nd l a c k d r) = c"

primrec bh :: "rtree \<Rightarrow> nat" where
  "bh Lf = 0"
| "bh (Nd l a c k d r) = bh l + (if c = BLACK then 1 else 0)"

text \<open>\<open>inv t\<close>: no red node has a red child, and all paths from a node to a leaf have the same number of
  black nodes. \<open>ctx n c fs\<close>: a tree with black height \<open>n\<close> and a root of colour \<open>c\<close> can be put into the
  context, and the whole tree then has a black root.\<close>

primrec inv :: "rtree \<Rightarrow> bool" where
  "inv Lf = True"
| "inv (Nd l a c k d r) =
     (inv l \<and> inv r \<and> bh l = bh r \<and> (c = RED \<longrightarrow> color l = BLACK \<and> color r = BLACK))"

primrec ctx :: "nat \<Rightarrow> bool \<Rightarrow> frame list \<Rightarrow> bool" where
  "ctx n c [] = (c = BLACK)"
| "ctx n c (f # fs) =
     (inv (sib f) \<and> bh (sib f) = n \<and> (fcolor f = RED \<longrightarrow> c = BLACK \<and> color (sib f) = BLACK) \<and>
      ctx (n + (if fcolor f = BLACK then 1 else 0)) (fcolor f) fs)"

definition rb_tree :: "rtree \<Rightarrow> bool" where
  "rb_tree t \<longleftrightarrow> inv t \<and> color t = BLACK"

lemma rb_tree_plug: "rb_tree (plug t fs) \<longleftrightarrow> inv t \<and> ctx (bh t) (color t) fs"
proof (induction fs arbitrary: t)
  case Nil then show ?case by (simp add: rb_tree_def)
next
  case (Cons f fs) then show ?case by (cases f) auto
qed

lemma ctx_black: "ctx n RED fs \<Longrightarrow> ctx n BLACK fs"
  by (cases fs) auto

end
