(* ===== verification/Rbt_Search.thy ===== *)
theory Rbt_Search
  imports Rbt_Tree
begin

text \<open>
  The searches of src/rbt/rbt.c on a tree in the heap. A descent needs as much fuel as the tree is
  high.
\<close>

primrec height :: "rtree \<Rightarrow> nat" where
  "height Lf = 0"
| "height (Nd l a c k d r) = Suc (max (height l) (height r))"

lemma height_nodes: "height t \<le> length (nodes t)"
  by (induction t) auto

lemma nodes_Nil_iff: "nodes t = [] \<longleftrightarrow> t = Lf"
  by (cases t) auto

lemma addrs_nodes: "addrs t = map fst (nodes t)"
  by (induction t) auto

lemma ordered_Nd:
  "ordered (Nd l a c k d r) \<longleftrightarrow> ordered l \<and> ordered r \<and>
    (\<forall>x \<in> set (nodes l). fst (snd x) < k) \<and> (\<forall>x \<in> set (nodes r). k < fst (snd x))"
  by (fastforce simp: ordered_def sorted_wrt_append nkeys_def)

lemma ordered_Lf [simp]: "ordered Lf"
  by (simp add: ordered_def)

section \<open>The two ends\<close>

lemma leftmost_loop_ok:
  "rep h p t \<Longrightarrow> 0 \<notin> set (addrs t) \<Longrightarrow> t \<noteq> Lf \<Longrightarrow> height t \<le> fuel \<Longrightarrow>
    leftmost_loop fuel h (root t) = Inr (fst (hd (nodes t)))"
proof (induction t arbitrary: p fuel)
  case (Nd l a c k d r)
  then obtain f where "fuel = Suc f" by (cases fuel) auto
  with Nd show ?case by (cases "l = Lf") (auto simp: root_0_iff nodes_Nil_iff hd_append)
qed simp

lemma rightmost_loop_ok:
  "rep h p t \<Longrightarrow> 0 \<notin> set (addrs t) \<Longrightarrow> t \<noteq> Lf \<Longrightarrow> height t \<le> fuel \<Longrightarrow>
    rightmost_loop fuel h (root t) = Inr (fst (last (nodes t)))"
proof (induction t arbitrary: p fuel)
  case (Nd l a c k d r)
  then obtain f where "fuel = Suc f" by (cases fuel) auto
  with Nd show ?case by (cases "r = Lf") (auto simp: root_0_iff nodes_Nil_iff)
qed simp

section \<open>Bounds\<close>

definition addr_or :: "nat \<Rightarrow> (nat \<times> nat \<times> nat) option \<Rightarrow> nat" where
  "addr_or b r = (case r of None \<Rightarrow> b | Some x \<Rightarrow> fst x)"

lemma addr_or_simps [simp]: "addr_or b None = b" "addr_or b (Some x) = fst x"
  by (simp_all add: addr_or_def)

lemma lower_bound_loop_ok:
  "rep h p t \<Longrightarrow> 0 \<notin> set (addrs t) \<Longrightarrow> ordered t \<Longrightarrow> height t < fuel \<Longrightarrow>
    lower_bound_loop fuel key h (root t) b = Inr (addr_or b (find (\<lambda>x. fst (snd x) \<le> key) (rev (nodes t))))"
proof (induction t arbitrary: p fuel b)
  case Lf
  then show ?case by (cases fuel) auto
next
  case (Nd l a c k d r)
  obtain f where f: "fuel = Suc f" using Nd.prems(4) by (cases fuel) auto
  have none: "key \<le> k \<Longrightarrow> find (\<lambda>x. fst (snd x) \<le> key) (rev (nodes r)) = None"
    using Nd.prems(3) by (force simp: find_None_all ordered_Nd)
  consider "k = key" | "k > key" | "k < key" by linarith
  then show ?case
    using Nd.prems Nd.IH(1) [of a f b] Nd.IH(2) [of a f a] none
    by cases (auto simp: f find_append ordered_Nd split: option.splits)
qed

lemma upper_bound_loop_ok:
  "rep h p t \<Longrightarrow> 0 \<notin> set (addrs t) \<Longrightarrow> ordered t \<Longrightarrow> height t < fuel \<Longrightarrow>
    upper_bound_loop fuel key h (root t) b = Inr (addr_or b (find (\<lambda>x. key \<le> fst (snd x)) (nodes t)))"
proof (induction t arbitrary: p fuel b)
  case Lf
  then show ?case by (cases fuel) auto
next
  case (Nd l a c k d r)
  obtain f where f: "fuel = Suc f" using Nd.prems(4) by (cases fuel) auto
  have none: "k \<le> key \<Longrightarrow> find (\<lambda>x. key \<le> fst (snd x)) (nodes l) = None"
    using Nd.prems(3) by (force simp: find_None_all ordered_Nd)
  consider "k = key" | "k > key" | "k < key" by linarith
  then show ?case
    using Nd.prems Nd.IH(1) [of a f a] Nd.IH(2) [of a f b] none
    by cases (auto simp: f find_append ordered_Nd split: option.splits)
qed

section \<open>The neighbours of a node\<close>

primrec rkey_is :: "nat \<Rightarrow> rtree \<Rightarrow> bool" where
  "rkey_is k Lf = False"
| "rkey_is k (Nd l a c k' d r) = (k' = k)"

text \<open>The comparisons of the keys find the side of a node.\<close>

primrec side_ok :: "nat \<Rightarrow> frame \<Rightarrow> bool" where
  "side_ok k (LeftOf a c p d r) = (k \<le> p \<and> \<not> rkey_is k r)"
| "side_ok k (RightOf l a c p d) = True"

primrec side_of :: "frame \<Rightarrow> bf_rbt_node_direction_t" where
  "side_of (LeftOf a c p d r) = BF_RBT_LEFT_NODE"
| "side_of (RightOf l a c p d) = BF_RBT_RIGHT_NODE"

lemma neighbour:
  assumes "rbt_at h head (plug (Nd l a c k d r) (f # fs))" and "side_ok k f"
  shows "bf_get_rbt_neigh_color h a = Inr (color (sib f))"
    and "bf_get_neighbor_rbt_node h a = Inr (root (sib f))"
    and "bf_get_rbt_node_direction h a = Inr (side_of f)"
proof -
  have "bf_get_rbt_neigh_color h a = Inr (color (sib f)) \<and> bf_get_neighbor_rbt_node h a = Inr (root (sib f)) \<and>
    bf_get_rbt_node_direction h a = Inr (side_of f)"
  proof (cases f)
    case (LeftOf p pc pk pd pr)
    then show ?thesis using assms
      by (cases pr) (auto simp: rbt_at_plug bf_get_rbt_neigh_color_def bf_get_neighbor_rbt_node_def
          bf_get_rbt_node_direction_def Let_def has_key_def)
  next
    case (RightOf pl p pc pk pd)
    then show ?thesis using assms
      by (cases pl) (auto simp: rbt_at_plug bf_get_rbt_neigh_color_def bf_get_neighbor_rbt_node_def
          bf_get_rbt_node_direction_def Let_def has_key_def)
  qed
  then show "bf_get_rbt_neigh_color h a = Inr (color (sib f))"
    and "bf_get_neighbor_rbt_node h a = Inr (root (sib f))"
    and "bf_get_rbt_node_direction h a = Inr (side_of f)" by blast+
qed

lemma ordered_fits: "ordered (plug t fs) \<Longrightarrow> k \<in> set (nkeys (nodes t)) \<Longrightarrow> fits k fs"
  by (cases fs; cases "hd fs")
    (fastforce simp: ordered_def nodes_plug sorted_wrt_append)+

lemma ordered_side: "ordered (plug (Nd l a c k d r) (f # fs)) \<Longrightarrow> side_ok k f"
  by (cases f; cases "sib f") (auto simp: ordered_def nodes_plug sorted_wrt_append)

lemma ordered_nodes: "ordered t \<Longrightarrow> nodes t' = nodes t \<Longrightarrow> ordered t'"
  by (simp add: ordered_def)

end
