(* ===== verification/Rbt_Insert.thy ===== *)
theory Rbt_Insert
  imports Rbt_Search
begin

text \<open>
  Insertion into a red-black tree in the heap: the recolouring and the rotations after the new leaf
  is linked, and the descent to its place.
\<close>

section \<open>Recolouring\<close>

primrec blacken :: "rtree \<Rightarrow> rtree" where
  "blacken Lf = Lf"
| "blacken (Nd l a c k d r) = Nd l a BLACK k d r"

lemma nodes_blacken [simp]: "nodes (blacken t) = nodes t"
  by (cases t) simp_all

lemma addrs_blacken [simp]: "addrs (blacken t) = addrs t"
  by (cases t) simp_all

lemma inv_blacken [simp]: "inv t \<Longrightarrow> inv (blacken t)"
  by (cases t) simp_all

lemma color_blacken [simp]: "color (blacken t) = BLACK"
  by (cases t) simp_all

lemma bh_blacken [simp]: "color t = RED \<Longrightarrow> bh (blacken t) = Suc (bh t)"
  by (cases t) simp_all

text \<open>The three writes, one after the other.\<close>

lemma recolor_at:
  assumes "rbt_at h head (plug t fs)" and "t \<noteq> Lf"
  shows "\<exists>h'. upd_node h (root t) (\<lambda>n. n\<lparr>ncolor := BLACK\<rparr>) = Inr h' \<and> rbt_at h' head (plug (blacken t) fs)"
  using assms recolor [of h head _ _ _ _ _ _ fs BLACK] by (cases t) auto

lemma color_fix_left:
  assumes at: "rbt_at h head (plug (Nd (Nd l a RED k d r) p BLACK pk pd u) gs)" and u: "color u = RED" and "\<not> pk < k"
  shows "\<exists>h'. bf_color_fix_rbt_nodes fuel h a head =
      (if gs = [] then Inr (h', head) else bf_balance_rbt_post_insertion fuel h' (top gs) head k) \<and>
    rbt_at h' head (plug (Nd (Nd l a BLACK k d r) p (gs \<noteq> []) pk pd (blacken u)) gs)"
proof -
  let ?s = "Nd l a RED k d r"
  from at u obtain h1 where 1: "upd_node h (root u) (\<lambda>n. n\<lparr>ncolor := BLACK\<rparr>) = Inr h1"
    "rbt_at h1 head (plug (Nd ?s p BLACK pk pd (blacken u)) gs)"
    using recolor_at [of h head u "RightOf ?s p BLACK pk pd # gs"] by fastforce
  from recolor_at [of h1 head ?s "LeftOf p BLACK pk pd (blacken u) # gs"] 1(2)
  obtain h2 where 2: "upd_node h1 a (\<lambda>n. n\<lparr>ncolor := BLACK\<rparr>) = Inr h2"
    "rbt_at h2 head (plug (Nd (Nd l a BLACK k d r) p BLACK pk pd (blacken u)) gs)" by auto
  from recolor [OF 2(2), of "gs \<noteq> []"]
  obtain h3 where 3: "upd_node h2 p (\<lambda>n. n\<lparr>ncolor := gs \<noteq> []\<rparr>) = Inr h3"
    "rbt_at h3 head (plug (Nd (Nd l a BLACK k d r) p (gs \<noteq> []) pk pd (blacken u)) gs)" by auto
  have n: "node_at h a = Inr \<lparr>nkey = k, ncolor = RED, nleft = root l, nright = root r, nparent = p, ndata = d\<rparr>"
    using node_at_root [of h head l a RED k d r "LeftOf p BLACK pk pd u # gs"] at by simp
  from top_0_iff [OF at] 1(1) 2(1) 3(1) n node_at_root [OF at] assms(3)
  have "bf_color_fix_rbt_nodes fuel h a head =
      (if gs = [] then Inr (h3, head) else bf_balance_rbt_post_insertion fuel h3 (top gs) head k)"
    by (cases "gs = []") simp_all
  with 3(2) show ?thesis by blast
qed

lemma color_fix_right:
  assumes at: "rbt_at h head (plug (Nd u p BLACK pk pd (Nd l a RED k d r)) gs)" and u: "color u = RED" and "pk < k"
  shows "\<exists>h'. bf_color_fix_rbt_nodes fuel h a head =
      (if gs = [] then Inr (h', head) else bf_balance_rbt_post_insertion fuel h' (top gs) head k) \<and>
    rbt_at h' head (plug (Nd (blacken u) p (gs \<noteq> []) pk pd (Nd l a BLACK k d r)) gs)"
proof -
  let ?s = "Nd l a RED k d r"
  from at u obtain h1 where 1: "upd_node h (root u) (\<lambda>n. n\<lparr>ncolor := BLACK\<rparr>) = Inr h1"
    "rbt_at h1 head (plug (Nd (blacken u) p BLACK pk pd ?s) gs)"
    using recolor_at [of h head u "LeftOf p BLACK pk pd ?s # gs"] by fastforce
  from recolor_at [of h1 head ?s "RightOf (blacken u) p BLACK pk pd # gs"] 1(2)
  obtain h2 where 2: "upd_node h1 a (\<lambda>n. n\<lparr>ncolor := BLACK\<rparr>) = Inr h2"
    "rbt_at h2 head (plug (Nd (blacken u) p BLACK pk pd (Nd l a BLACK k d r)) gs)" by auto
  from recolor [OF 2(2), of "gs \<noteq> []"]
  obtain h3 where 3: "upd_node h2 p (\<lambda>n. n\<lparr>ncolor := gs \<noteq> []\<rparr>) = Inr h3"
    "rbt_at h3 head (plug (Nd (blacken u) p (gs \<noteq> []) pk pd (Nd l a BLACK k d r)) gs)" by auto
  have n: "node_at h a = Inr \<lparr>nkey = k, ncolor = RED, nleft = root l, nright = root r, nparent = p, ndata = d\<rparr>"
    using node_at_root [of h head l a RED k d r "RightOf u p BLACK pk pd # gs"] at by simp
  from top_0_iff [OF at] 1(1) 2(1) 3(1) n node_at_root [OF at] assms(3)
  have "bf_color_fix_rbt_nodes fuel h a head =
      (if gs = [] then Inr (h3, head) else bf_balance_rbt_post_insertion fuel h3 (top gs) head k)"
    by (cases "gs = []") simp_all
  with 3(2) show ?thesis by blast
qed

section \<open>Rotation\<close>

text \<open>\<open>balanced h head xs\<close>: a red-black tree with the nodes \<open>xs\<close>.\<close>

definition balanced :: "rheap \<Rightarrow> nat \<Rightarrow> (nat \<times> nat \<times> nat) list \<Rightarrow> bool" where
  "balanced h head xs \<longleftrightarrow> (\<exists>t. rbt_at h head t \<and> rb_tree t \<and> nodes t = xs)"

lemma balancedI: "rbt_at h head t \<Longrightarrow> rb_tree t \<Longrightarrow> nodes t = xs \<Longrightarrow> balanced h head xs"
  unfolding balanced_def by blast

primrec is_right :: "frame \<Rightarrow> bool" where
  "is_right (LeftOf a c k d r) = False"
| "is_right (RightOf l a c k d) = True"

lemma is_right_iff: "is_right f \<longleftrightarrow> (\<exists>l a c k d. f = RightOf l a c k d)" "\<not> is_right f \<longleftrightarrow> (\<exists>a c k d r. f = LeftOf a c k d r)"
  by (cases f; simp)+

lemma perform_rotation_start:
  assumes at: "rbt_at h head (plug s (f # g # gs))" and o: "ordered (plug s (f # g # gs))" and "fkey f < key \<longleftrightarrow> is_right f"
  shows "bf_perform_rotation h (faddr f) head key =
    (if is_right g then
       if is_right f then bf_left_rotate_rbt_node h (faddr g) head
       else bnd (bf_right_rotate_rbt_node h (faddr f) head) (\<lambda>(parent, h, head). bf_left_rotate_rbt_node h (faddr g) head)
     else
       if is_right f then bnd (bf_left_rotate_rbt_node h (faddr f) head) (\<lambda>(parent, h, head). bf_right_rotate_rbt_node h (faddr g) head)
       else bf_right_rotate_rbt_node h (faddr g) head)"
proof -
  have "fkey f \<in> set (nkeys (nodes (fill f s)))" by (cases f) auto
  with ordered_fits [of "fill f s" "g # gs" "fkey f"] o have fits: "fits (fkey f) (g # gs)" by simp
  have "\<exists>nf ng. node_at h (faddr f) = Inr nf \<and> node_at h (faddr g) = Inr ng \<and> nparent nf = faddr g \<and> nkey nf = fkey f \<and>
    nkey ng = fkey g"
    using at by (cases f; cases g) (simp_all add: rbt_at_plug)
  then show ?thesis
    using fits assms(3) by (cases g) (auto simp: bf_perform_rotation_def Let_def)
qed

lemma rotation_below_left:
  assumes at: "rbt_at h head (plug (Nd l a RED k d r) (f # g # gs))" and o: "ordered (plug (Nd l a RED k d r) (f # g # gs))"
    and key: "fkey f < key \<longleftrightarrow> is_right f" and s: "inv (Nd l a RED k d r)" "ctx (bh l) BLACK (f # g # gs)"
    and f: "fcolor f = RED" and u: "color (sib g) = BLACK"
    and g: "g = LeftOf q qc qk qd qr"
  shows "\<exists>x h' head'. bf_perform_rotation h (faddr f) head key = Inr (x, h', head') \<and>
    balanced h' head' (nodes (plug (Nd l a RED k d r) (f # g # gs)))"
proof -
  note start = perform_rotation_start [OF at o key]
  note fk = ordered_fits [of "fill g (fill f (Nd l a RED k d r))" gs] ordered_fits [of "fill f (Nd l a RED k d r)" "g # gs"]
  show ?thesis
  proof (cases f)
    case f': (LeftOf p pc pk pd pr)
    from right_rotate [of h head "Nd l a RED k d r" p pc pk pd pr q qc qk qd qr gs] at o fk(1) [of pk]
    obtain h1 head1 where 1: "bf_right_rotate_rbt_node h q head = Inr (p, h1, head1)"
      and 2: "rbt_at h1 head1 (plug (Nd (Nd l a RED k d r) p qc pk pd (Nd pr q pc qk qd qr)) gs)" by (auto simp: f' g)
    have "balanced h1 head1 (nodes (plug (Nd l a RED k d r) (f # g # gs)))"
      by (rule balancedI [OF 2]) (use s f u in \<open>auto simp: rb_tree_plug nodes_plug f' g\<close>)
    with 1 start show ?thesis by (simp add: f' g)
  next
    case f': (RightOf pl p pc pk pd)
    from left_rotate [of h head pl p pc pk pd l a RED k d r "g # gs"] at o fk(2) [of k]
    obtain h1 head1 where 1: "bf_left_rotate_rbt_node h p head = Inr (a, h1, head1)"
      and 2: "rbt_at h1 head1 (plug (Nd (Nd (Nd pl p RED pk pd l) a pc k d r) q qc qk qd qr) gs)" by (auto simp: f' g)
    from right_rotate [OF 2] o fk(1) [of k]
    obtain h2 head2 where 3: "bf_right_rotate_rbt_node h1 q head1 = Inr (a, h2, head2)"
      and 4: "rbt_at h2 head2 (plug (Nd (Nd pl p RED pk pd l) a qc k d (Nd r q pc qk qd qr)) gs)" by (auto simp: f' g)
    have "balanced h2 head2 (nodes (plug (Nd l a RED k d r) (f # g # gs)))"
      by (rule balancedI [OF 4]) (use s f u in \<open>auto simp: rb_tree_plug nodes_plug f' g\<close>)
    with 1 3 start show ?thesis by (simp add: f' g)
  qed
qed

lemma rotation_below_right:
  assumes at: "rbt_at h head (plug (Nd l a RED k d r) (f # g # gs))" and o: "ordered (plug (Nd l a RED k d r) (f # g # gs))"
    and key: "fkey f < key \<longleftrightarrow> is_right f" and s: "inv (Nd l a RED k d r)" "ctx (bh l) BLACK (f # g # gs)"
    and f: "fcolor f = RED" and u: "color (sib g) = BLACK"
    and g: "g = RightOf ql q qc qk qd"
  shows "\<exists>x h' head'. bf_perform_rotation h (faddr f) head key = Inr (x, h', head') \<and>
    balanced h' head' (nodes (plug (Nd l a RED k d r) (f # g # gs)))"
proof -
  note start = perform_rotation_start [OF at o key]
  note fk = ordered_fits [of "fill g (fill f (Nd l a RED k d r))" gs] ordered_fits [of "fill f (Nd l a RED k d r)" "g # gs"]
  show ?thesis
  proof (cases f)
    case f': (RightOf pl p pc pk pd)
    from left_rotate [of h head ql q qc qk qd pl p pc pk pd "Nd l a RED k d r" gs] at o fk(1) [of pk]
    obtain h1 head1 where 1: "bf_left_rotate_rbt_node h q head = Inr (p, h1, head1)"
      and 2: "rbt_at h1 head1 (plug (Nd (Nd ql q pc qk qd pl) p qc pk pd (Nd l a RED k d r)) gs)" by (auto simp: f' g)
    have "balanced h1 head1 (nodes (plug (Nd l a RED k d r) (f # g # gs)))"
      by (rule balancedI [OF 2]) (use s f u in \<open>auto simp: rb_tree_plug nodes_plug f' g\<close>)
    with 1 start show ?thesis by (simp add: f' g)
  next
    case f': (LeftOf p pc pk pd pr)
    from right_rotate [of h head l a RED k d r p pc pk pd pr "g # gs"] at o fk(2) [of k]
    obtain h1 head1 where 1: "bf_right_rotate_rbt_node h p head = Inr (a, h1, head1)"
      and 2: "rbt_at h1 head1 (plug (Nd ql q qc qk qd (Nd l a pc k d (Nd r p RED pk pd pr))) gs)" by (auto simp: f' g)
    from left_rotate [OF 2] o fk(1) [of k]
    obtain h2 head2 where 3: "bf_left_rotate_rbt_node h1 q head1 = Inr (a, h2, head2)"
      and 4: "rbt_at h2 head2 (plug (Nd (Nd ql q pc qk qd l) a qc k d (Nd r p RED pk pd pr)) gs)" by (auto simp: f' g)
    have "balanced h2 head2 (nodes (plug (Nd l a RED k d r) (f # g # gs)))"
      by (rule balancedI [OF 4]) (use s f u in \<open>auto simp: rb_tree_plug nodes_plug f' g\<close>)
    with 1 3 start show ?thesis by (simp add: f' g)
  qed
qed

lemma rotation_ok:
  assumes at: "rbt_at h head (plug (Nd l a RED k d r) (f # g # gs))" and o: "ordered (plug (Nd l a RED k d r) (f # g # gs))"
    and key: "fkey f < key \<longleftrightarrow> is_right f" and s: "inv (Nd l a RED k d r)" "ctx (bh l) BLACK (f # g # gs)"
    and f: "fcolor f = RED" and u: "color (sib g) = BLACK"
  shows "\<exists>x h' head'. bf_perform_rotation h (faddr f) head key = Inr (x, h', head') \<and>
    balanced h' head' (nodes (plug (Nd l a RED k d r) (f # g # gs)))"
proof (cases g)
  case LeftOf then show ?thesis by (rule rotation_below_left [OF assms])
next
  case RightOf then show ?thesis by (rule rotation_below_right [OF assms])
qed

section \<open>Balancing after an insertion\<close>

text \<open>The new tree root of the subtree that a recolouring leaves red.\<close>

lemma color_fix_ok:
  assumes at: "rbt_at h head (plug s (f # g # gs))" and o: "ordered (plug s (f # g # gs))"
    and f: "fcolor f = RED" and g: "fcolor g = BLACK" and u: "color (sib g) = RED"
    and s: "inv s" "ctx (bh s) BLACK (f # g # gs)"
  shows "\<exists>h' l a d r k. bf_color_fix_rbt_nodes fuel h (faddr f) head =
      (if gs = [] then Inr (h', head) else bf_balance_rbt_post_insertion fuel h' (top gs) head (fkey f)) \<and>
    rbt_at h' head (plug (Nd l a (gs \<noteq> []) k d r) gs) \<and> inv (Nd l a RED k d r) \<and> ctx (bh l) BLACK gs \<and>
    fkey f \<in> set (nkeys (nodes (Nd l a RED k d r))) \<and>
    nodes (plug (Nd l a RED k d r) gs) = nodes (plug s (f # g # gs))"
proof -
  obtain sl sa sk sd sr where t: "fill f s = Nd sl sa RED sk sd sr" "sa = faddr f" "sk = fkey f"
    using f by (cases f) auto
  have fits: "fits (fkey f) (g # gs)"
    using ordered_fits [of "fill f s" "g # gs" "fkey f"] o t by simp
  have t': "inv (blacken (fill f s))" "bh (blacken (fill f s)) = Suc (bh s)"
    using f s by (cases f; simp)+
  have n: "nodes (plug s (f # g # gs)) = nodes (plug (fill g (fill f s)) gs)" by simp
  show ?thesis
  proof (cases g)
    case g': (LeftOf q qc qk qd qr)
    obtain h' where 1: "bf_color_fix_rbt_nodes fuel h (faddr f) head =
        (if gs = [] then Inr (h', head) else bf_balance_rbt_post_insertion fuel h' (top gs) head (fkey f))"
      and 2: "rbt_at h' head (plug (Nd (blacken (fill f s)) q (gs \<noteq> []) qk qd (blacken qr)) gs)"
      using color_fix_left [of h head sl sa sk sd sr q qk qd qr gs fuel] at g u fits t by (auto simp: g')
    show ?thesis
      by (intro exI conjI, rule 1, rule 2) (use s f g u t' t in \<open>auto simp: g' nodes_plug\<close>)
  next
    case g': (RightOf ql q qc qk qd)
    obtain h' where 1: "bf_color_fix_rbt_nodes fuel h (faddr f) head =
        (if gs = [] then Inr (h', head) else bf_balance_rbt_post_insertion fuel h' (top gs) head (fkey f))"
      and 2: "rbt_at h' head (plug (Nd (blacken ql) q (gs \<noteq> []) qk qd (blacken (fill f s))) gs)"
      using color_fix_right [of h head ql q qk qd sl sa sk sd sr gs fuel] at g u fits t by (auto simp: g')
    show ?thesis
      by (intro exI conjI, rule 1, rule 2) (use s f g u t' t in \<open>auto simp: g' nodes_plug\<close>)
  qed
qed

lemma fits_side: "fits k (f # fs) \<Longrightarrow> fkey f < k \<longleftrightarrow> is_right f"
  by (cases f) auto

lemma balance_insertion_ok:
  assumes "rbt_at h head (plug (Nd l a RED k d r) (f # fs))" "ordered (plug (Nd l a RED k d r) (f # fs))"
    "inv (Nd l a RED k d r)" "ctx (bh l) BLACK (f # fs)" "fits key (f # fs)" "length fs < fuel"
  shows "\<exists>h' head'. bf_balance_rbt_post_insertion fuel h (faddr f) head key = Inr (h', head') \<and>
    balanced h' head' (nodes (plug (Nd l a RED k d r) (f # fs)))"
  using assms
proof (induction fuel arbitrary: h head l a k d r f fs key)
  case (Suc fuel)
  let ?s = "Nd l a RED k d r"
  note at = Suc.prems(1) and o = Suc.prems(2)
  obtain pl p pc pk pd pr where P: "fill f ?s = Nd pl p pc pk pd pr" "p = faddr f" "pc = fcolor f" by (cases f) auto
  have nP: "\<exists>n. node_at h (faddr f) = Inr n \<and> ncolor n = fcolor f"
    using node_at_root [of h head pl p pc pk pd pr fs] at P by auto
  show ?case
  proof (cases "fcolor f")
    case False
    then have "balanced h head (nodes (plug ?s (f # fs)))"
      using Suc.prems(3,4) by (intro balancedI [OF at]) (auto simp: rb_tree_plug simp del: plug.simps)
    with nP False show ?thesis by auto
  next
    case red: True
    then obtain g gs where fs: "fs = g # gs" and g: "fcolor g = BLACK" using Suc.prems(4) by (cases fs) auto
    from neighbour(1) [of h head pl p pc pk pd pr g gs] ordered_side [of pl p pc pk pd pr g gs] at o P
    have nc: "bf_get_rbt_neigh_color h (faddr f) = Inr (color (sib g))" by (simp add: fs)
    show ?thesis
    proof (cases "color (sib g)")
      case False
      with rotation_ok [of h head l a k d r f g gs key] at o Suc.prems(3,4) red fits_side [OF Suc.prems(5)] nP nc
      show ?thesis by (fastforce simp: fs simp del: plug.simps)
    next
      case True
      then have eqs: "fcolor f = RED" "color (sib g) = RED" using red by simp_all
      from color_fix_ok [OF at [unfolded fs] o [unfolded fs] eqs(1) g eqs(2), of fuel] Suc.prems(3,4)
      obtain h' l' a' d' r' k' where 1: "bf_color_fix_rbt_nodes fuel h (faddr f) head =
          (if gs = [] then Inr (h', head) else bf_balance_rbt_post_insertion fuel h' (top gs) head (fkey f))"
        and 2: "rbt_at h' head (plug (Nd l' a' (gs \<noteq> []) k' d' r') gs)" "inv (Nd l' a' RED k' d' r')" "ctx (bh l') BLACK gs"
          "fkey f \<in> set (nkeys (nodes (Nd l' a' RED k' d' r')))"
          "nodes (plug (Nd l' a' RED k' d' r') gs) = nodes (plug ?s (f # g # gs))"
        by (auto simp: fs simp del: plug.simps nodes.simps)
      have o': "ordered (plug (Nd l' a' RED k' d' r') gs)" using o ordered_nodes 2(5) by (simp only: fs)
      show ?thesis
      proof (cases gs)
        case Nil
        have "balanced h' head (nodes (plug ?s (f # fs)))"
          by (rule balancedI [OF 2(1)]) (use 2 Nil in \<open>auto simp: rb_tree_def fs\<close>)
        with 1 nP red nc True Nil show ?thesis by auto
      next
        case (Cons q qs)
        from Suc.IH [of h' head l' a' k' d' r' q qs "fkey f"] 2 o' ordered_fits [OF o' 2(4)] Suc.prems(6)
        have "\<exists>h'' head'. bf_balance_rbt_post_insertion fuel h' (faddr q) head (fkey f) = Inr (h'', head') \<and>
            balanced h'' head' (nodes (plug (Nd l' a' RED k' d' r') gs))" by (simp add: Cons fs)
        with 1 nP red nc True 2(5) show ?thesis by (auto simp: Cons fs)
      qed
    qed
  qed
qed simp

section \<open>The descent\<close>

text \<open>\<open>between key fs\<close>: a node with the key belongs into the hole of the context.\<close>

definition between :: "nat \<Rightarrow> frame list \<Rightarrow> bool" where
  "between key fs \<longleftrightarrow> (\<forall>k \<in> set (nkeys (before fs)). k < key) \<and> (\<forall>k \<in> set (nkeys (after fs)). key < k)"

lemma ordered_left: "ordered (Nd l a c k d r) \<Longrightarrow> x \<in> set (nkeys (nodes l)) \<Longrightarrow> x < k"
  by (auto simp: ordered_def sorted_wrt_append)

lemma ordered_right: "ordered (Nd l a c k d r) \<Longrightarrow> x \<in> set (nkeys (nodes r)) \<Longrightarrow> k < x"
  by (auto simp: ordered_def sorted_wrt_append)

lemma ordered_sub: "ordered (plug t fs) \<Longrightarrow> ordered t"
  by (auto simp: ordered_def nodes_plug sorted_wrt_append)

lemma between_left:
  "between key fs \<Longrightarrow> ordered (Nd l a c k d r) \<Longrightarrow> key < k \<Longrightarrow> between key (LeftOf a c k d r # fs)"
  by (auto simp: between_def dest!: ordered_right)

lemma between_right:
  "between key fs \<Longrightarrow> ordered (Nd l a c k d r) \<Longrightarrow> k < key \<Longrightarrow> between key (RightOf l a c k d # fs)"
  by (auto simp: between_def dest!: ordered_left)

lemma insert_loop_ok:
  "rbt_at h head (plug t fs) \<Longrightarrow> ordered (plug t fs) \<Longrightarrow> height t < fuel \<Longrightarrow> between key fs \<Longrightarrow>
    (\<exists>x d. insert_loop fuel key h (root t) (top fs) = Inr x \<and> (x, key, d) \<in> set (nodes t)) \<or>
    (\<exists>gs. insert_loop fuel key h (root t) (top fs) = Inr (top gs) \<and> plug Lf gs = plug t fs \<and> between key gs \<and>
      length gs \<le> length fs + height t)"
proof (induction fuel arbitrary: t fs)
  case (Suc fuel)
  show ?case
  proof (cases t)
    case Lf
    with Suc.prems show ?thesis by auto
  next
    case (Nd l a c k d r)
    have a: "a \<noteq> 0" using Suc.prems(1) by (auto simp: Nd rbt_at_plug)
    note n = node_at_root [OF Suc.prems(1) [unfolded Nd]]
    have o: "ordered (Nd l a c k d r)" using ordered_sub Suc.prems(2) Nd by simp
    consider "k = key" | "key < k" | "k < key" by linarith
    then show ?thesis
    proof cases
      case 1
      with n a show ?thesis by (auto simp: Nd)
    next
      case 2
      with Suc.IH [of l "LeftOf a c k d r # fs"] Suc.prems between_left [OF _ o 2] n a
      show ?thesis by (fastforce simp: Nd)
    next
      case 3
      with Suc.IH [of r "RightOf l a c k d # fs"] Suc.prems between_right [OF _ o 3] n a
      show ?thesis by (fastforce simp: Nd)
    qed
  qed
qed simp

text \<open>Linking a new leaf.\<close>

lemma link_left:
  assumes "rbt_at h head (plug Lf (LeftOf a c k d r # fs))" and "new \<notin> dom h" and "new \<noteq> 0"
  shows "\<exists>h'. upd_node (h(new \<mapsto> \<lparr>nkey = key, ncolor = RED, nleft = 0, nright = 0, nparent = a, ndata = 0\<rparr>)) a
      (\<lambda>n. n\<lparr>nleft := new\<rparr>) = Inr h' \<and> rbt_at h' head (plug (Nd Lf new RED key 0 Lf) (LeftOf a c k d r # fs))"
proof -
  have "new \<noteq> a" "new \<notin> set (addrs r)" "new \<notin> set (caddrs fs)" using assms(1,2) unfolding rbt_at_plug by auto
  then show ?thesis using assms(1,3) unfolding rbt_at_plug by (simp add: insert_commute)
qed

lemma link_right:
  assumes "rbt_at h head (plug Lf (RightOf l a c k d # fs))" and "new \<notin> dom h" and "new \<noteq> 0"
  shows "\<exists>h'. upd_node (h(new \<mapsto> \<lparr>nkey = key, ncolor = RED, nleft = 0, nright = 0, nparent = a, ndata = 0\<rparr>)) a
      (\<lambda>n. n\<lparr>nright := new\<rparr>) = Inr h' \<and> rbt_at h' head (plug (Nd Lf new RED key 0 Lf) (RightOf l a c k d # fs))"
proof -
  have "new \<noteq> a" "new \<notin> set (addrs l)" "new \<notin> set (caddrs fs)" using assms(1,2) unfolding rbt_at_plug by auto
  then show ?thesis using assms(1,3) unfolding rbt_at_plug by (simp add: insert_commute)
qed

section \<open>The insertion\<close>

definition insert_node :: "nat \<times> nat \<times> nat \<Rightarrow> (nat \<times> nat \<times> nat) list \<Rightarrow> (nat \<times> nat \<times> nat) list" where
  "insert_node x xs = filter (\<lambda>y. fst (snd y) < fst (snd x)) xs @ x # filter (\<lambda>y. fst (snd x) < fst (snd y)) xs"

lemma between_insert:
  assumes "between k fs"
  shows "before fs @ (a, k, d) # after fs = insert_node (a, k, d) (before fs @ after fs)"
proof -
  have "\<forall>x \<in> set (before fs). fst (snd x) < k" "\<forall>x \<in> set (after fs). k < fst (snd x)"
    using assms by (auto simp: between_def nkeys_def)
  then have "filter (\<lambda>y. fst (snd y) < k) (before fs) = before fs" "filter (\<lambda>y. fst (snd y) < k) (after fs) = []"
    "filter (\<lambda>y. k < fst (snd y)) (before fs) = []" "filter (\<lambda>y. k < fst (snd y)) (after fs) = after fs"
    by (auto simp: filter_empty_conv filter_id_conv)
  then show ?thesis by (simp add: insert_node_def)
qed

lemma between_ordered:
  "between k fs \<Longrightarrow> ordered (plug Lf fs) \<Longrightarrow> ordered (plug (Nd Lf a c k d Lf) fs)"
  by (auto simp: between_def ordered_def nodes_plug sorted_wrt_append)

lemma between_fits: "between k fs \<Longrightarrow> fits k fs"
  by (cases fs; cases "hd fs") (auto simp: between_def)

lemma between_key: "between k (f # fs) \<Longrightarrow> fkey f \<noteq> k"
  by (cases f) (auto simp: between_def)

text \<open>The key belongs under the leaf \<open>f\<close>.\<close>

lemma insert_leaf:
  assumes at: "rbt_at h head (plug Lf (f # fs))" and o: "ordered (plug Lf (f # fs))" and rb: "rb_tree (plug Lf (f # fs))"
    and b: "between key (f # fs)" and fuel: "length fs < fuel" and new: "new \<notin> dom h" "new \<noteq> 0"
  shows "\<exists>h1 h' head'.
    upd_node (h(new \<mapsto> \<lparr>nkey = key, ncolor = RED, nleft = 0, nright = 0, nparent = faddr f, ndata = 0\<rparr>)) (faddr f)
      (\<lambda>n. if is_right f then n\<lparr>nright := new\<rparr> else n\<lparr>nleft := new\<rparr>) = Inr h1 \<and>
    bf_balance_rbt_post_insertion fuel h1 (faddr f) head key = Inr (h', head') \<and>
    balanced h' head' (insert_node (new, key, 0) (nodes (plug Lf (f # fs))))"
proof -
  let ?h = "h(new \<mapsto> \<lparr>nkey = key, ncolor = RED, nleft = 0, nright = 0, nparent = faddr f, ndata = 0\<rparr>)"
  have "\<exists>h1. upd_node ?h (faddr f) (\<lambda>n. if is_right f then n\<lparr>nright := new\<rparr> else n\<lparr>nleft := new\<rparr>) = Inr h1 \<and>
    rbt_at h1 head (plug (Nd Lf new RED key 0 Lf) (f # fs))"
  proof (cases f)
    case (LeftOf a c k d r)
    show ?thesis using link_left [OF at [unfolded LeftOf] new, of key] unfolding LeftOf is_right.simps faddr.simps if_False .
  next
    case (RightOf l a c k d)
    show ?thesis using link_right [OF at [unfolded RightOf] new, of key] unfolding RightOf is_right.simps faddr.simps if_True .
  qed
  then obtain h1 where 1: "upd_node ?h (faddr f) (\<lambda>n. if is_right f then n\<lparr>nright := new\<rparr> else n\<lparr>nleft := new\<rparr>) = Inr h1"
    and at1: "rbt_at h1 head (plug (Nd Lf new RED key 0 Lf) (f # fs))" by blast
  from rb have c: "ctx (bh Lf) BLACK (f # fs)" by (simp add: rb_tree_plug del: plug.simps ctx.simps)
  have "\<exists>h' head'. bf_balance_rbt_post_insertion fuel h1 (faddr f) head key = Inr (h', head') \<and>
      balanced h' head' (nodes (plug (Nd Lf new RED key 0 Lf) (f # fs)))"
    by (rule balance_insertion_ok [OF at1 between_ordered [OF b o] _ c between_fits [OF b] fuel]) simp
  moreover have "nodes (plug (Nd Lf new RED key 0 Lf) (f # fs)) = insert_node (new, key, 0) (nodes (plug Lf (f # fs)))"
    using between_insert [OF b] by (simp add: nodes_plug del: plug.simps)
  ultimately show ?thesis using 1 by auto
qed

lemma leaf_update:
  assumes "rbt_at h head (plug Lf (f # fs))"
  shows "upd_node h (faddr f) (\<lambda>n. if is_right f then n\<lparr>nright := 0\<rparr> else n\<lparr>nleft := 0\<rparr>) = Inr h"
  using assms by (cases f) (auto simp: rbt_at_plug fun_upd_idem)

lemma insert_new:
  assumes at: "rbt_at h head t" and o: "ordered t" and rb: "rb_tree t" and t: "t \<noteq> Lf" and fuel: "height t < fuel"
    and new: "calloc h \<notin> dom h" and none: "key \<notin> set (nkeys (nodes t))"
  shows "if calloc h = 0 then bf_insert_rbt_entry calloc fuel h head key head = Inr (0, h, head)
    else \<exists>h' head'. bf_insert_rbt_entry calloc fuel h head key head = Inr (calloc h, h', head') \<and>
      balanced h' head' (insert_node (calloc h, key, 0) (nodes t))"
proof -
  have head: "head = root t" "head \<noteq> 0" using at t by (auto simp: rbt_at_def root_0_iff)
  have start: "insert_loop fuel key h head head = insert_loop fuel key h (root t) (top [])"
    using head fuel by (cases fuel) auto
  have "\<exists>gs. insert_loop fuel key h head head = Inr (top gs) \<and> plug Lf gs = t \<and> between key gs \<and> length gs \<le> height t"
    using insert_loop_ok [of h head t "[]" fuel key] at o fuel none start
    by (force simp: between_def nkeys_def)
  then obtain gs where 1: "insert_loop fuel key h head head = Inr (top gs)" "plug Lf gs = t" "between key gs" "length gs \<le> height t"
    by blast
  then obtain f fs where gs: "gs = f # fs" using t by (cases gs) auto
  have n: "\<exists>n. node_at h (faddr f) = Inr n \<and> nkey n = fkey f"
    using at 1(2) by (cases f) (auto simp: gs rbt_at_plug)
  note side = fits_side [OF between_fits, OF 1(3) [unfolded gs]]
  note k = between_key [OF 1(3) [unfolded gs]]
  note upd = leaf_update [of h head f fs]
  note leaf = insert_leaf [of h head f fs key fuel "calloc h"]
  show ?thesis
  proof (cases "calloc h = 0")
    case True
    with 1 n side k upd at head show ?thesis
      by (cases "is_right f") (auto simp: gs bf_insert_rbt_entry_def bf_create_rbt_node_def Let_def simp del: plug.simps)
  next
    case False
    then have "\<exists>h1 h' head'.
      upd_node (h(calloc h \<mapsto> \<lparr>nkey = key, ncolor = RED, nleft = 0, nright = 0, nparent = faddr f, ndata = 0\<rparr>)) (faddr f)
        (\<lambda>n. if is_right f then n\<lparr>nright := calloc h\<rparr> else n\<lparr>nleft := calloc h\<rparr>) = Inr h1 \<and>
      bf_balance_rbt_post_insertion fuel h1 (faddr f) head key = Inr (h', head') \<and>
      balanced h' head' (insert_node (calloc h, key, 0) (nodes t))"
      using leaf 1 at o rb new fuel by (simp add: gs del: plug.simps)
    with False 1 n side k head show ?thesis
      by (cases "is_right f") (auto simp: gs bf_insert_rbt_entry_def bf_create_rbt_node_def Let_def simp del: plug.simps)
  qed
qed

end
