(* ===== verification/Rbt_Rebalance.thy ===== *)
theory Rbt_Rebalance
  imports Rbt_Insert
begin

text \<open>
  The balancing before a black leaf is taken out. The leaf \<open>x\<close> is still in the tree while its paths
  are already counted without it: \<open>cut x t\<close> is the tree without the leaf. Its key is a copy of the
  key of a neighbour in the order (the removal moved the content of this neighbour), so the keys are
  strictly ordered only without it (\<open>ordered_but\<close>).
\<close>

section \<open>A leaf that is about to go\<close>

primrec cut :: "nat \<Rightarrow> rtree \<Rightarrow> rtree" where
  "cut x Lf = Lf"
| "cut x (Nd l a c k d r) = (if a = x then Lf else Nd (cut x l) a c k d (cut x r))"

primrec has_leaf :: "nat \<Rightarrow> rtree \<Rightarrow> bool" where
  "has_leaf x Lf = False"
| "has_leaf x (Nd l a c k d r) = (a = x \<and> l = Lf \<and> r = Lf \<or> has_leaf x l \<or> has_leaf x r)"

definition ordered_but :: "nat \<Rightarrow> (nat \<times> nat \<times> nat) list \<Rightarrow> bool" where
  "ordered_but x xs \<longleftrightarrow> sorted_wrt (\<le>) (nkeys xs) \<and> sorted_wrt (<) (nkeys (filter (\<lambda>n. fst n \<noteq> x) xs))"

lemma cut_id [simp]: "x \<notin> set (addrs t) \<Longrightarrow> cut x t = t"
  by (induction t) auto

lemma cut_fill: "faddr f \<noteq> x \<Longrightarrow> x \<notin> set (addrs (sib f)) \<Longrightarrow> cut x (fill f t) = fill f (cut x t)"
  by (cases f) auto

lemma cut_plug: "x \<notin> set (caddrs fs) \<Longrightarrow> cut x (plug t fs) = plug (cut x t) fs"
  by (induction fs arbitrary: t) (auto simp: cut_fill)

lemma has_leaf_addrs: "has_leaf x t \<Longrightarrow> x \<in> set (addrs t)"
  by (induction t) auto

lemma has_leaf_fill: "has_leaf x t \<Longrightarrow> has_leaf x (fill f t)"
  by (cases f) auto

lemma has_leaf_plug: "has_leaf x t \<Longrightarrow> has_leaf x (plug t fs)"
  by (induction fs arbitrary: t) (auto simp: has_leaf_fill)

lemma plug_append: "plug t (gs @ fs) = plug (plug t gs) fs"
  by (induction gs arbitrary: t) auto

lemma has_leaf_zipper: "has_leaf x t \<Longrightarrow> \<exists>c k d gs. plug (Nd Lf x c k d Lf) gs = t"
proof (induction t)
  case (Nd l a c k d r)
  consider "a = x" "l = Lf" "r = Lf" | "has_leaf x l" | "has_leaf x r" using Nd.prems by auto
  then show ?case
  proof cases
    case 1
    then have "plug (Nd Lf x c k d Lf) [] = Nd l a c k d r" by simp
    then show ?thesis by blast
  next
    case 2
    with Nd.IH(1) obtain c' k' d' gs where "plug (Nd Lf x c' k' d' Lf) gs = l" by blast
    then have "plug (Nd Lf x c' k' d' Lf) (gs @ [LeftOf a c k d r]) = Nd l a c k d r" by (simp add: plug_append)
    then show ?thesis by blast
  next
    case 3
    with Nd.IH(2) obtain c' k' d' gs where "plug (Nd Lf x c' k' d' Lf) gs = r" by blast
    then have "plug (Nd Lf x c' k' d' Lf) (gs @ [RightOf l a c k d]) = Nd l a c k d r" by (simp add: plug_append)
    then show ?thesis by blast
  qed
qed simp

text \<open>The comparisons of keys still find the sides.\<close>

lemma nodes_addr: "(b, k, d) \<in> set (nodes t) \<Longrightarrow> b \<in> set (addrs t)"
  by (force simp: addrs_nodes)

lemma ordered_but_fits:
  assumes "ordered_but x (nodes (plug t fs))" "(b, k, d) \<in> set (nodes t)" "b \<noteq> x" "x \<notin> set (caddrs fs)"
  shows "fits k fs"
  using assms by (cases fs; cases "hd fs") (fastforce simp: ordered_but_def nodes_plug sorted_wrt_append nkeys_def)+

lemma context_addrs: "fst ` set (before fs) \<subseteq> set (caddrs fs)" "fst ` set (after fs) \<subseteq> set (caddrs fs)"
  by (induction fs rule: before.induct) (auto simp: addrs_nodes)

lemma context_filter:
  assumes "x \<notin> set (caddrs fs)"
  shows "filter (\<lambda>n. fst n \<noteq> x) (before fs) = before fs" "filter (\<lambda>n. fst n \<noteq> x) (after fs) = after fs"
  using assms context_addrs [of fs] by (auto simp: filter_id_conv)

lemma ordered_but_side:
  assumes o: "ordered_but x (nodes (plug (Nd l a c k d r) (f # fs)))" and x: "x \<notin> set (caddrs (f # fs))"
  shows "side_ok k f"
proof (cases f)
  case (LeftOf p pc pk pd pr)
  have "k \<le> pk" using o by (auto simp: LeftOf ordered_but_def nodes_plug sorted_wrt_append)
  moreover have "sorted_wrt (<) (nkeys (after (f # fs)))"
    using o context_filter [OF x] by (simp add: ordered_but_def nodes_plug sorted_wrt_append split: if_splits del: plug.simps after.simps)
  then have "rkey_is k pr \<Longrightarrow> pk < k"
    by (cases pr) (auto simp: LeftOf sorted_wrt_append)
  ultimately show ?thesis by (auto simp: LeftOf)
qed simp

section \<open>One round of the loop\<close>

primrec set_sib :: "rtree \<Rightarrow> frame \<Rightarrow> frame" where
  "set_sib t (LeftOf a c k d r) = LeftOf a c k d t"
| "set_sib t (RightOf l a c k d) = RightOf t a c k d"

primrec set_fcolor :: "bool \<Rightarrow> frame \<Rightarrow> frame" where
  "set_fcolor c' (LeftOf a c k d r) = LeftOf a c' k d r"
| "set_fcolor c' (RightOf l a c k d) = RightOf l a c' k d"

lemma frame_simps [simp]:
  "sib (set_sib t f) = t" "fcolor (set_sib t f) = fcolor f" "faddr (set_sib t f) = faddr f" "is_right (set_sib t f) = is_right f"
  "sib (set_fcolor c f) = sib f" "fcolor (set_fcolor c f) = c" "faddr (set_fcolor c f) = faddr f"
  by (cases f; simp)+

lemma recolor_sib:
  assumes "rbt_at h head (plug t (f # fs))" and "sib f = Nd sl sa sc sk sd sr"
  shows "\<exists>h'. upd_node h sa (\<lambda>s. s\<lparr>ncolor := c'\<rparr>) = Inr h' \<and>
    rbt_at h' head (plug t (set_sib (Nd sl sa c' sk sd sr) f # fs))"
proof (cases f)
  case (LeftOf a c k d r)
  with assms recolor [of h head sl sa sc sk sd sr "RightOf t a c k d # fs" c'] show ?thesis by auto
next
  case (RightOf l a c k d)
  with assms recolor [of h head sl sa sc sk sd sr "LeftOf a c k d t # fs" c'] show ?thesis by auto
qed

lemma recolor_frame:
  assumes "rbt_at h head (plug t (f # fs))"
  shows "\<exists>h'. upd_node h (faddr f) (\<lambda>s. s\<lparr>ncolor := c'\<rparr>) = Inr h' \<and>
    rbt_at h' head (plug t (set_fcolor c' f # fs))"
  using assms recolor [of h head _ _ _ _ _ _ fs c'] by (cases f) auto

lemma frame_node: "rbt_at h head (plug t (f # fs)) \<Longrightarrow> \<exists>n. node_at h (faddr f) = Inr n \<and> ncolor n = fcolor f"
  by (cases f) (simp_all add: rbt_at_plug)

lemma null_or_black_ok: "rep h p t \<Longrightarrow> 0 \<notin> set (addrs t) \<Longrightarrow> null_or_black h (root t) = Inr (color t = BLACK)"
  by (cases t) (auto simp: null_or_black_def)

lemma sib_node:
  assumes "rbt_at h head (plug t (f # fs))" and "sib f = Nd sl sa sc sk sd sr"
  shows "sa \<noteq> 0" "node_at h sa = Inr \<lparr>nkey = sk, ncolor = sc, nleft = root sl, nright = root sr, nparent = faddr f, ndata = sd\<rparr>"
    "null_or_black h (root sl) = Inr (color sl = BLACK)" "null_or_black h (root sr) = Inr (color sr = BLACK)"
proof -
  have "sa \<noteq> 0 \<and> rep h (faddr f) (Nd sl sa sc sk sd sr) \<and> 0 \<notin> set (addrs sl) \<and> 0 \<notin> set (addrs sr)"
    using assms by (cases f) (simp_all add: rbt_at_plug)
  then show "sa \<noteq> 0" "node_at h sa = Inr \<lparr>nkey = sk, ncolor = sc, nleft = root sl, nright = root sr, nparent = faddr f, ndata = sd\<rparr>"
    "null_or_black h (root sl) = Inr (color sl = BLACK)" "null_or_black h (root sr) = Inr (color sr = BLACK)"
    by (auto simp: null_or_black_ok)
qed

section \<open>The cases\<close>

text \<open>\<open>lacks_black x h head t fs\<close>: the leaf \<open>x\<close> is in the subtree \<open>t\<close>, whose paths lack one black node
  without it; the rest is in order. \<open>settled\<close>: nothing is missing without the leaf.\<close>

definition lacks_black :: "nat \<Rightarrow> rheap \<Rightarrow> nat \<Rightarrow> rtree \<Rightarrow> frame list \<Rightarrow> bool" where
  "lacks_black x h head t fs \<longleftrightarrow>
     rbt_at h head (plug t fs) \<and> ordered_but x (nodes (plug t fs)) \<and> has_leaf x t \<and>
     inv (cut x t) \<and> color (cut x t) = BLACK \<and> ctx (Suc (bh (cut x t))) BLACK fs"

definition settled :: "nat \<Rightarrow> rheap \<Rightarrow> nat \<Rightarrow> (nat \<times> nat \<times> nat) list \<Rightarrow> bool" where
  "settled x h head xs \<longleftrightarrow> (\<exists>t. rbt_at h head t \<and> nodes t = xs \<and> has_leaf x t \<and> rb_tree (cut x t))"

lemma leaf_outside: "rbt_at h head (plug t fs) \<Longrightarrow> has_leaf x t \<Longrightarrow> x \<notin> set (caddrs fs)"
  by (auto simp: rbt_at_plug dest: has_leaf_addrs)

lemma settledI:
  assumes "rbt_at h head (plug t fs)" "nodes (plug t fs) = xs" "has_leaf x t" "inv (cut x t)" "ctx (bh (cut x t)) (color (cut x t)) fs"
  shows "settled x h head xs"
  unfolding settled_def using assms leaf_outside [OF assms(1,3)]
  by (intro exI [of _ "plug t fs"]) (auto simp: has_leaf_plug cut_plug rb_tree_plug)

lemma lacks_blackI:
  assumes "lacks_black x h head t fs" "rbt_at h' head' (plug t fs')" "nodes (plug t fs') = nodes (plug t fs)"
    "ctx (Suc (bh (cut x t))) BLACK fs'"
  shows "lacks_black x h' head' t fs'"
  using assms by (simp add: lacks_black_def)

lemma lacks_black_D:
  assumes "lacks_black x h head t fs"
  shows "rbt_at h head (plug t fs)" "has_leaf x t" "x \<notin> set (caddrs fs)" "inv (cut x t)" "color (cut x t) = BLACK"
    "ctx (Suc (bh (cut x t))) BLACK fs"
  using assms leaf_outside by (auto simp: lacks_black_def)

lemma lacks_black_fits:
  "lacks_black x h head t (gs @ fs) \<Longrightarrow> (b, k, d) \<in> set (nodes (plug t gs)) \<Longrightarrow> b \<noteq> x \<Longrightarrow> fits k fs"
  using ordered_but_fits [of x "plug t gs" fs b k d] leaf_outside [of h head "plug t gs" fs x]
  by (auto simp: lacks_black_def plug_append has_leaf_plug)

lemma lacks_black_side:
  assumes "lacks_black x h head t (f # fs)"
  shows "\<exists>l c k d r. t = Nd l (root t) c k d r \<and> side_ok k f"
proof -
  obtain l a c k d r where t: "t = Nd l a c k d r" using lacks_black_D(2) [OF assms] by (cases t) auto
  have "side_ok k f"
    by (rule ordered_but_side [of x l a c k d r f fs]) (use assms lacks_black_D(3) [OF assms] in \<open>auto simp: lacks_black_def t\<close>)
  then show ?thesis by (auto simp: t)
qed

text \<open>The round on a node that is not the root, with the tests decided by the colours of the sibling and
  its children.\<close>

lemma lacks_black_round:
  assumes g: "lacks_black x h head t (f # fs)" and s: "sib f = Nd sl sa sc sk sd sr"
  shows "rebalance_loop (Suc fuel) h (root t) head =
    (if sc = BLACK then
       if color sl = BLACK \<and> color sr = BLACK then
         bnd (upd_node h sa (\<lambda>s. s\<lparr>ncolor := RED\<rparr>)) (\<lambda>h.
         bnd (node_at h (faddr f)) (\<lambda>p.
         if ncolor p = RED then bnd (upd_node h (faddr f) (\<lambda>p. p\<lparr>ncolor := BLACK\<rparr>)) (\<lambda>h. Inr (h, head))
         else rebalance_loop fuel h (faddr f) head))
       else if \<not> is_right f \<and> color sr = RED then
         bnd (bf_left_rotate_rbt_node h (faddr f) head) (\<lambda>(_, h, head).
         bnd (node_at h sa) (\<lambda>s.
         bnd (upd_node h (nright s) (\<lambda>c. c\<lparr>ncolor := BLACK\<rparr>)) (\<lambda>h. Inr (h, head))))
       else if is_right f \<and> color sl = RED then
         bnd (bf_right_rotate_rbt_node h (faddr f) head) (\<lambda>(_, h, head).
         bnd (node_at h sa) (\<lambda>s.
         bnd (upd_node h (nleft s) (\<lambda>c. c\<lparr>ncolor := BLACK\<rparr>)) (\<lambda>h. Inr (h, head))))
       else if \<not> is_right f then bnd (bf_right_rotate_rbt_node h sa head) (\<lambda>(_, h, head). rebalance_loop fuel h (root t) head)
       else bnd (bf_left_rotate_rbt_node h sa head) (\<lambda>(_, h, head). rebalance_loop fuel h (root t) head)
     else if is_right f
     then bnd (bf_right_rotate_rbt_node h (faddr f) head) (\<lambda>(_, h, head). rebalance_loop fuel h (root t) head)
     else bnd (bf_left_rotate_rbt_node h (faddr f) head) (\<lambda>(_, h, head). rebalance_loop fuel h (root t) head))"
proof -
  obtain l a c k d r where t: "t = Nd l a c k d r" and side: "side_ok k f"
    using lacks_black_side [OF g] by auto
  have at: "rbt_at h head (plug (Nd l a c k d r) (f # fs))" using lacks_black_D(1) [OF g] by (simp only: t)
  have a: "a \<noteq> 0" "faddr f \<noteq> 0" using at top_0_iff [OF at] unfolding rbt_at_plug by auto
  have dir: "side_of f = (if is_right f then BF_RBT_RIGHT_NODE else BF_RBT_LEFT_NODE)" by (cases f) auto
  have nb: "null_or_black h sa = Inr (sc = BLACK)" using sib_node [OF at s] by (simp add: null_or_black_def)
  show ?thesis
    using a sib_node [OF at s] node_at_root [OF at] neighbour [OF at side] s dir nb t by (auto cong: if_cong)
qed

declare rebalance_loop.simps(2) [simp del]

text \<open>The far child of the sibling is red.\<close>

lemma far_left:
  assumes g: "lacks_black x h head t (LeftOf p pc pk pd (Nd sl sa BLACK sk sd sr) # gs)" and sr: "color sr = RED"
  shows "\<exists>h' head'. rebalance_loop (Suc fuel) h (root t) head = Inr (h', head') \<and>
    settled x h' head' (nodes (plug t (LeftOf p pc pk pd (Nd sl sa BLACK sk sd sr) # gs)))"
proof -
  let ?s = "Nd sl sa BLACK sk sd sr"
  note D = lacks_black_D [OF g]
  have fits: "fits sk gs" using lacks_black_fits [of x h head t "[LeftOf p pc pk pd ?s]" gs sa sk sd] g D(3) by auto
  from left_rotate [of h head t p pc pk pd sl sa BLACK sk sd sr gs] D(1) fits obtain h1 head1 where
    1: "bf_left_rotate_rbt_node h p head = Inr (sa, h1, head1)"
    and 2: "rbt_at h1 head1 (plug (Nd (Nd t p BLACK pk pd sl) sa pc sk sd sr) gs)" by auto
  from recolor_at [of h1 head1 sr "RightOf (Nd t p BLACK pk pd sl) sa pc sk sd # gs"] 2 sr obtain h2 where
    3: "upd_node h1 (root sr) (\<lambda>n. n\<lparr>ncolor := BLACK\<rparr>) = Inr h2"
    and 4: "rbt_at h2 head1 (plug (Nd (Nd t p BLACK pk pd sl) sa pc sk sd (blacken sr)) gs)" by fastforce
  have "settled x h2 head1 (nodes (plug t (LeftOf p pc pk pd ?s # gs)))"
    by (rule settledI [OF 4]) (use D sr in \<open>auto simp: nodes_plug\<close>)
  moreover have "rebalance_loop (Suc fuel) h (root t) head = Inr (h2, head1)"
    using lacks_black_round [OF g, of sl sa BLACK sk sd sr fuel] sr 1 3 node_at_root [OF 2] by simp
  ultimately show ?thesis by blast
qed

lemma far_right:
  assumes g: "lacks_black x h head t (RightOf (Nd sl sa BLACK sk sd sr) p pc pk pd # gs)" and sl: "color sl = RED"
  shows "\<exists>h' head'. rebalance_loop (Suc fuel) h (root t) head = Inr (h', head') \<and>
    settled x h' head' (nodes (plug t (RightOf (Nd sl sa BLACK sk sd sr) p pc pk pd # gs)))"
proof -
  let ?s = "Nd sl sa BLACK sk sd sr"
  note D = lacks_black_D [OF g]
  have fits: "fits sk gs" using lacks_black_fits [of x h head t "[RightOf ?s p pc pk pd]" gs sa sk sd] g D(3) by auto
  from right_rotate [of h head sl sa BLACK sk sd sr p pc pk pd t gs] D(1) fits obtain h1 head1 where
    1: "bf_right_rotate_rbt_node h p head = Inr (sa, h1, head1)"
    and 2: "rbt_at h1 head1 (plug (Nd sl sa pc sk sd (Nd sr p BLACK pk pd t)) gs)" by auto
  from recolor_at [of h1 head1 sl "LeftOf sa pc sk sd (Nd sr p BLACK pk pd t) # gs"] 2 sl obtain h2 where
    3: "upd_node h1 (root sl) (\<lambda>n. n\<lparr>ncolor := BLACK\<rparr>) = Inr h2"
    and 4: "rbt_at h2 head1 (plug (Nd (blacken sl) sa pc sk sd (Nd sr p BLACK pk pd t)) gs)" by fastforce
  have "settled x h2 head1 (nodes (plug t (RightOf ?s p pc pk pd # gs)))"
    by (rule settledI [OF 4]) (use D sl in \<open>auto simp: nodes_plug\<close>)
  moreover have "rebalance_loop (Suc fuel) h (root t) head = Inr (h2, head1)"
    using lacks_black_round [OF g, of sl sa BLACK sk sd sr fuel] sl 1 3 node_at_root [OF 2] by simp
  ultimately show ?thesis by blast
qed

text \<open>The far child is black, the near child is red: after a rotation of the sibling the far child is red.\<close>

lemma sib_order:
  assumes "lacks_black x h head t (f # fs)" and "(b, k, d) \<in> set (nodes (sib f))"
  shows "if is_right f then k < fkey f else fkey f < k"
proof -
  note D = lacks_black_D [OF assms(1)]
  have "sorted_wrt (<) (nkeys (before (f # fs)))" "sorted_wrt (<) (nkeys (after (f # fs)))"
    using assms(1) context_filter [OF D(3)]
    by (simp_all add: lacks_black_def ordered_but_def nodes_plug sorted_wrt_append del: plug.simps after.simps before.simps)
  then show ?thesis using assms(2) by (cases f) (force simp: sorted_wrt_append nkeys_def)+
qed

lemma near_left:
  assumes g: "lacks_black x h head t (LeftOf p pc pk pd (Nd (Nd b na RED nk nd e) sa BLACK sk sd sr) # gs)"
    and sr: "color sr = BLACK"
  shows "\<exists>h' head'. rebalance_loop (Suc (Suc fuel)) h (root t) head = Inr (h', head') \<and>
    settled x h' head' (nodes (plug t (LeftOf p pc pk pd (Nd (Nd b na RED nk nd e) sa BLACK sk sd sr) # gs)))"
proof -
  let ?s = "Nd (Nd b na RED nk nd e) sa BLACK sk sd sr" and ?s' = "Nd b na BLACK nk nd (Nd e sa RED sk sd sr)"
  note D = lacks_black_D [OF g]
  have "pk < nk" using sib_order [OF g, of na nk nd] by simp
  with right_rotate [of h head b na RED nk nd e sa BLACK sk sd sr "RightOf t p pc pk pd # gs"] D(1) obtain h1 head1 where
    1: "bf_right_rotate_rbt_node h sa head = Inr (na, h1, head1)"
    and 2: "rbt_at h1 head1 (plug t (LeftOf p pc pk pd ?s' # gs))" by auto
  have "lacks_black x h1 head1 t (LeftOf p pc pk pd ?s' # gs)"
    by (rule lacks_blackI [OF g 2]) (use D sr in \<open>auto simp: nodes_plug\<close>)
  from far_left [OF this, of fuel] have "\<exists>h' head'. rebalance_loop (Suc fuel) h1 (root t) head1 = Inr (h', head') \<and>
    settled x h' head' (nodes (plug t (LeftOf p pc pk pd ?s # gs)))" by (simp add: nodes_plug)
  moreover have "rebalance_loop (Suc (Suc fuel)) h (root t) head = rebalance_loop (Suc fuel) h1 (root t) head1"
    using lacks_black_round [OF g, of "Nd b na RED nk nd e" sa BLACK sk sd sr "Suc fuel"] sr 1 by simp
  ultimately show ?thesis by simp
qed

lemma near_right:
  assumes g: "lacks_black x h head t (RightOf (Nd sl sa BLACK sk sd (Nd b na RED nk nd e)) p pc pk pd # gs)"
    and sl: "color sl = BLACK"
  shows "\<exists>h' head'. rebalance_loop (Suc (Suc fuel)) h (root t) head = Inr (h', head') \<and>
    settled x h' head' (nodes (plug t (RightOf (Nd sl sa BLACK sk sd (Nd b na RED nk nd e)) p pc pk pd # gs)))"
proof -
  let ?s = "Nd sl sa BLACK sk sd (Nd b na RED nk nd e)" and ?s' = "Nd (Nd sl sa RED sk sd b) na BLACK nk nd e"
  note D = lacks_black_D [OF g]
  have "nk < pk" using sib_order [OF g, of na nk nd] by simp
  with left_rotate [of h head sl sa BLACK sk sd b na RED nk nd e "LeftOf p pc pk pd t # gs"] D(1) obtain h1 head1 where
    1: "bf_left_rotate_rbt_node h sa head = Inr (na, h1, head1)"
    and 2: "rbt_at h1 head1 (plug t (RightOf ?s' p pc pk pd # gs))" by auto
  have "lacks_black x h1 head1 t (RightOf ?s' p pc pk pd # gs)"
    by (rule lacks_blackI [OF g 2]) (use D sl in \<open>auto simp: nodes_plug\<close>)
  from far_right [OF this, of fuel] have "\<exists>h' head'. rebalance_loop (Suc fuel) h1 (root t) head1 = Inr (h', head') \<and>
    settled x h' head' (nodes (plug t (RightOf ?s p pc pk pd # gs)))" by (simp add: nodes_plug)
  moreover have "rebalance_loop (Suc (Suc fuel)) h (root t) head = rebalance_loop (Suc fuel) h1 (root t) head1"
    using lacks_black_round [OF g, of sl sa BLACK sk sd "Nd b na RED nk nd e" "Suc fuel"] sl 1 by simp
  ultimately show ?thesis by simp
qed

text \<open>A black sibling with a red child.\<close>

lemma sibling_red_child:
  assumes g: "lacks_black x h head t (f # gs)" and s: "sib f = Nd sl sa BLACK sk sd sr" and c: "color sl = RED \<or> color sr = RED"
  shows "\<exists>h' head'. rebalance_loop (Suc (Suc fuel)) h (root t) head = Inr (h', head') \<and>
    settled x h' head' (nodes (plug t (f # gs)))"
proof (cases f)
  case (LeftOf p pc pk pd pr)
  show ?thesis
  proof (cases "color sr")
    case True
    with far_left [of x h head t p pc pk pd sl sa sk sd sr gs "Suc fuel"] g s show ?thesis by (simp only: LeftOf sib.simps)
  next
    case False
    then obtain b na nk nd e where "sl = Nd b na RED nk nd e" using c by (cases sl) auto
    with near_left [of x h head t p pc pk pd b na nk nd e sa sk sd sr gs fuel] g s False show ?thesis by (simp only: LeftOf sib.simps)
  qed
next
  case (RightOf pl p pc pk pd)
  show ?thesis
  proof (cases "color sl")
    case True
    with far_right [of x h head t sl sa sk sd sr p pc pk pd gs "Suc fuel"] g s show ?thesis by (simp only: RightOf sib.simps)
  next
    case False
    then obtain b na nk nd e where "sr = Nd b na RED nk nd e" using c by (cases sr) auto
    with near_right [of x h head t sl sa sk sd b na nk nd e p pc pk pd gs fuel] g s False show ?thesis by (simp only: RightOf sib.simps)
  qed
qed

text \<open>A black sibling without red children becomes red.\<close>

lemma nodes_fill_set [simp]:
  "sib f = Nd sl sa sc sk sd sr \<Longrightarrow> nodes (fill (set_sib (Nd sl sa c' sk sd sr) f) t) = nodes (fill f t)"
  "nodes (fill (set_fcolor c f) t) = nodes (fill f t)"
  by (cases f; simp)+

lemma nodes_plug_cong: "nodes t = nodes t' \<Longrightarrow> nodes (plug t fs) = nodes (plug t' fs)"
  by (simp add: nodes_plug)

lemma lacks_black_sib: "lacks_black x h head t (f # gs) \<Longrightarrow> \<exists>sl sa sc sk sd sr. sib f = Nd sl sa sc sk sd sr"
  by (cases "sib f") (auto dest: lacks_black_D(6))

lemma root_fill [simp]: "root (fill f t) = faddr f"
  by (cases f) auto

lemma inv_fill: "inv (fill f t) \<longleftrightarrow> inv t \<and> inv (sib f) \<and> bh t = bh (sib f) \<and> (fcolor f = RED \<longrightarrow> color t = BLACK \<and> color (sib f) = BLACK)"
  by (cases f) auto

lemma color_fill [simp]: "color (fill f t) = fcolor f"
  by (cases f) auto

lemma bh_fill: "inv (fill f t) \<Longrightarrow> bh (fill f t) = bh t + (if fcolor f = BLACK then 1 else 0)"
  by (cases f) auto

lemma redden_sibling:
  assumes g: "lacks_black x h head t (f # gs)" and s: "sib f = Nd sl sa BLACK sk sd sr"
    and c: "color sl = BLACK" "color sr = BLACK"
  shows "\<exists>h' head'. rebalance_loop (Suc fuel) h (root t) head = Inr (h', head') \<and> settled x h' head' (nodes (plug t (f # gs))) \<or>
    fcolor f = BLACK \<and> (\<exists>h' t'. rebalance_loop (Suc fuel) h (root t) head = rebalance_loop fuel h' (root t') head \<and>
      lacks_black x h' head t' gs \<and> nodes (plug t' gs) = nodes (plug t (f # gs)))"
proof -
  let ?f = "set_sib (Nd sl sa RED sk sd sr) f"
  note D = lacks_black_D [OF g]
  note R = lacks_black_round [OF g s, of fuel]
  from recolor_sib [OF D(1) s, of RED] obtain h1 where
    1: "upd_node h sa (\<lambda>s. s\<lparr>ncolor := RED\<rparr>) = Inr h1" and 2: "rbt_at h1 head (plug t (?f # gs))" by blast
  from frame_node [OF 2] obtain p where p: "node_at h1 (faddr f) = Inr p" "ncolor p = fcolor f" by auto
  have n: "nodes (plug t (?f # gs)) = nodes (plug t (f # gs))" using nodes_plug_cong [OF nodes_fill_set(1) [OF s, of RED t], of gs] by simp
  show ?thesis
  proof (cases "fcolor f")
    case True
    from recolor_frame [OF 2, of BLACK] obtain h2 where
      3: "upd_node h1 (faddr f) (\<lambda>s. s\<lparr>ncolor := BLACK\<rparr>) = Inr h2" and 4: "rbt_at h2 head (plug t (set_fcolor BLACK ?f # gs))" by auto
    have "settled x h2 head (nodes (plug t (f # gs)))"
    proof (rule settledI [OF 4])
      show "nodes (plug t (set_fcolor BLACK ?f # gs)) = nodes (plug t (f # gs))"
        using nodes_plug_cong [OF nodes_fill_set(2) [of BLACK ?f t], of gs] n by simp
      show "has_leaf x t" "inv (cut x t)" by (fact D)+
      show "ctx (bh (cut x t)) (color (cut x t)) (set_fcolor BLACK ?f # gs)"
        using D(5,6) c s True ctx_black [of "Suc (bh sr)" gs] by auto
    qed
    with R 1 p True 3 c show ?thesis by simp
  next
    case False
    have cut: "cut x (fill ?f t) = fill ?f (cut x t)" using D(3) s by (intro cut_fill) auto
    have i: "inv (fill ?f (cut x t))" using D(4-6) c s False by (auto simp: inv_fill)
    have "lacks_black x h1 head (fill ?f t) gs"
      unfolding lacks_black_def cut
      using i bh_fill [OF i] False D(6) 2 n D(2) g s by (auto simp: has_leaf_fill lacks_black_def)
    with R 1 p False c n show ?thesis by (auto intro!: exI [of _ "fill ?f t"])
  qed
qed

text \<open>A black sibling below a red parent.\<close>

lemma red_parent:
  assumes g: "lacks_black x h head t (f # gs)" and s: "color (sib f) = BLACK" and f: "fcolor f = RED"
  shows "\<exists>h' head'. rebalance_loop (Suc (Suc fuel)) h (root t) head = Inr (h', head') \<and>
    settled x h' head' (nodes (plug t (f # gs)))"
proof -
  obtain sl sa sk sd sr where s': "sib f = Nd sl sa BLACK sk sd sr" using lacks_black_sib [OF g] s by auto
  show ?thesis
  proof (cases "color sl = RED \<or> color sr = RED")
    case True then show ?thesis by (rule sibling_red_child [OF g s'])
  next
    case False
    then have "color sl = BLACK" "color sr = BLACK" by auto
    with redden_sibling [OF g s', of "Suc fuel"] f show ?thesis by auto
  qed
qed

text \<open>A red sibling: after a rotation of the parent the sibling is black and the parent red.\<close>

lemma red_sibling:
  assumes g: "lacks_black x h head t (f # gs)" and s: "color (sib f) = RED"
  shows "\<exists>h' head'. rebalance_loop (Suc (Suc (Suc fuel))) h (root t) head = Inr (h', head') \<and>
    settled x h' head' (nodes (plug t (f # gs)))"
proof -
  obtain sl sa sk sd sr where s': "sib f = Nd sl sa RED sk sd sr" using s by (cases "sib f") auto
  note D = lacks_black_D [OF g]
  note R = lacks_black_round [OF g s', of "Suc (Suc fuel)"]
  have "sa \<noteq> x" using D(3) s' by (cases f) auto
  then have fits: "fits sk gs" using lacks_black_fits [of x h head t "[f]" gs sa sk sd] g s' by (cases f) auto
  show ?thesis
  proof (cases f)
    case (LeftOf p pc pk pd pr)
    from left_rotate [of h head t p pc pk pd sl sa RED sk sd sr gs] D(1) fits obtain h1 head1 where
      1: "bf_left_rotate_rbt_node h p head = Inr (sa, h1, head1)"
      and 2: "rbt_at h1 head1 (plug t (LeftOf p RED pk pd sl # LeftOf sa pc sk sd sr # gs))" using LeftOf s' by auto
    have "lacks_black x h1 head1 t (LeftOf p RED pk pd sl # LeftOf sa pc sk sd sr # gs)"
      by (rule lacks_blackI [OF g 2]) (use D s' LeftOf in \<open>auto simp: nodes_plug\<close>)
    from red_parent [OF this, of fuel] D(6) s' LeftOf
    have "\<exists>h' head'. rebalance_loop (Suc (Suc fuel)) h1 (root t) head1 = Inr (h', head') \<and>
        settled x h' head' (nodes (plug t (f # gs)))" by (simp add: nodes_plug)
    with R 1 LeftOf show ?thesis by simp
  next
    case (RightOf pl p pc pk pd)
    from right_rotate [of h head sl sa RED sk sd sr p pc pk pd t gs] D(1) fits obtain h1 head1 where
      1: "bf_right_rotate_rbt_node h p head = Inr (sa, h1, head1)"
      and 2: "rbt_at h1 head1 (plug t (RightOf sr p RED pk pd # RightOf sl sa pc sk sd # gs))" using RightOf s' by auto
    have "lacks_black x h1 head1 t (RightOf sr p RED pk pd # RightOf sl sa pc sk sd # gs)"
      by (rule lacks_blackI [OF g 2]) (use D s' RightOf in \<open>auto simp: nodes_plug\<close>)
    from red_parent [OF this, of fuel] D(6) s' RightOf
    have "\<exists>h' head'. rebalance_loop (Suc (Suc fuel)) h1 (root t) head1 = Inr (h', head') \<and>
        settled x h' head' (nodes (plug t (f # gs)))" by (simp add: nodes_plug)
    with R 1 RightOf show ?thesis by simp
  qed
qed

section \<open>The loop\<close>

lemma rebalance_loop_ok:
  "lacks_black x h head t fs \<Longrightarrow> length fs + 3 \<le> fuel \<Longrightarrow>
    \<exists>h' head'. rebalance_loop fuel h (root t) head = Inr (h', head') \<and> settled x h' head' (nodes (plug t fs))"
proof (induction fs arbitrary: h head t fuel)
  case Nil
  note D = lacks_black_D [OF Nil.prems(1)]
  from D(2) obtain l a c k d r where t: "t = Nd l a c k d r" by (cases t) auto
  obtain fuel' where "fuel = Suc fuel'" using Nil.prems(2) by (cases fuel) auto
  moreover have "a \<noteq> 0" "node_at h a = Inr \<lparr>nkey = k, ncolor = c, nleft = root l, nright = root r, nparent = 0, ndata = d\<rparr>"
    using D(1) node_at_root [of h head l a c k d r "[]"] by (auto simp: t rbt_at_def)
  ultimately have "rebalance_loop fuel h (root t) head = Inr (h, head)" by (simp add: t rebalance_loop.simps(2))
  moreover have "settled x h head (nodes (plug t []))"
    by (rule settledI [OF D(1)]) (use D in auto)
  ultimately show ?case by simp
next
  case (Cons f fs)
  obtain fuel' where f3: "fuel = Suc (Suc (Suc fuel'))" "length fs + 1 \<le> fuel'"
    using Cons.prems(2) by (cases fuel; cases "fuel - 1"; cases "fuel - 2") auto
  obtain sl sa sc sk sd sr where s: "sib f = Nd sl sa sc sk sd sr" using lacks_black_sib [OF Cons.prems(1)] by blast
  consider "sc = RED" | "sc = BLACK" "color sl = RED \<or> color sr = RED" | "sc = BLACK" "color sl = BLACK" "color sr = BLACK"
    by auto
  then show ?case
  proof cases
    case 1
    with s red_sibling [OF Cons.prems(1), of fuel'] show ?thesis by (simp add: f3)
  next
    case 2
    with s sibling_red_child [OF Cons.prems(1), of sl sa sk sd sr "Suc fuel'"] show ?thesis by (simp add: f3)
  next
    case 3
    from redden_sibling [OF Cons.prems(1) s [unfolded 3(1)] 3(2,3), of "Suc (Suc fuel')"]
    consider (fin) h' head' where "rebalance_loop fuel h (root t) head = Inr (h', head')" "settled x h' head' (nodes (plug t (f # fs)))"
      | (up) h' t' where "rebalance_loop fuel h (root t) head = rebalance_loop (Suc (Suc fuel')) h' (root t') head"
          "lacks_black x h' head t' fs" "nodes (plug t' fs) = nodes (plug t (f # fs))" unfolding f3 by blast
    then show ?thesis
    proof cases
      case fin then show ?thesis by blast
    next
      case up
      with Cons.IH [OF up(2), of "Suc (Suc fuel')"] f3(2) show ?thesis by simp
    qed
  qed
qed

end
