(* ===== verification/Rbt_Remove.thy ===== *)
theory Rbt_Remove
  imports Rbt_Rebalance
begin

text \<open>
  Removal from a red-black tree in the heap: the search of the node, the moves of the content of the
  neighbours in the order up to a leaf, the balancing, and the release of the leaf.
\<close>

section \<open>Finding the node\<close>

lemma find_loop_ok:
  "rbt_at h head (plug t fs) \<Longrightarrow> ordered t \<Longrightarrow> height t < fuel \<Longrightarrow>
    if key \<in> set (nkeys (nodes t))
    then \<exists>l a c d r gs. find_loop fuel key h (root t) = Inr a \<and> plug (Nd l a c key d r) (gs @ fs) = plug t fs \<and>
      length gs + height (Nd l a c key d r) \<le> height t
    else find_loop fuel key h (root t) = Inr 0"
proof (induction fuel arbitrary: t fs)
  case (Suc fuel)
  show ?case
  proof (cases t)
    case (Nd l a c k d r)
    have a: "a \<noteq> 0" using Suc.prems(1) by (auto simp: Nd rbt_at_plug)
    note n = node_at_root [OF Suc.prems(1) [unfolded Nd]]
    note o = Suc.prems(2) [unfolded Nd]
    consider "k = key" | "key < k" | "k < key" by linarith
    then show ?thesis
    proof cases
      case 1
      then have "find_loop (Suc fuel) key h (root t) = Inr a \<and> plug (Nd l a c key d r) ([] @ fs) = plug t fs \<and>
        length ([] :: frame list) + height (Nd l a c key d r) \<le> height t" using n a by (simp add: Nd)
      moreover have "key \<in> set (nkeys (nodes t))" using 1 by (simp add: Nd)
      ultimately show ?thesis by - (subst if_P, assumption, blast)
    next
      case 2
      then have mem: "key \<in> set (nkeys (nodes t)) \<longleftrightarrow> key \<in> set (nkeys (nodes l))" using ordered_right [OF o] by (force simp: Nd)
      have step: "find_loop (Suc fuel) key h (root t) = find_loop fuel key h (root l)" using 2 n a by (simp add: Nd)
      have ih: "if key \<in> set (nkeys (nodes l))
        then \<exists>l' a' c' d' r' gs. find_loop fuel key h (root l) = Inr a' \<and>
          plug (Nd l' a' c' key d' r') (gs @ LeftOf a c k d r # fs) = plug l (LeftOf a c k d r # fs) \<and>
          length gs + height (Nd l' a' c' key d' r') \<le> height l
        else find_loop fuel key h (root l) = Inr 0"
        using Suc.prems o by (intro Suc.IH) (auto simp: Nd ordered_Nd)
      show ?thesis
      proof (cases "key \<in> set (nkeys (nodes l))")
        case True
        with ih obtain l' a' c' d' r' gs where "find_loop fuel key h (root l) = Inr a'"
          "plug (Nd l' a' c' key d' r') ((gs @ [LeftOf a c k d r]) @ fs) = plug t fs"
          "length (gs @ [LeftOf a c k d r]) + height (Nd l' a' c' key d' r') \<le> height t" by (auto simp: Nd)
        with step mem True show ?thesis by metis
      qed (use ih step mem in simp)
    next
      case 3
      then have mem: "key \<in> set (nkeys (nodes t)) \<longleftrightarrow> key \<in> set (nkeys (nodes r))" using ordered_left [OF o] by (force simp: Nd)
      have step: "find_loop (Suc fuel) key h (root t) = find_loop fuel key h (root r)" using 3 n a by (simp add: Nd)
      have ih: "if key \<in> set (nkeys (nodes r))
        then \<exists>l' a' c' d' r' gs. find_loop fuel key h (root r) = Inr a' \<and>
          plug (Nd l' a' c' key d' r') (gs @ RightOf l a c k d # fs) = plug r (RightOf l a c k d # fs) \<and>
          length gs + height (Nd l' a' c' key d' r') \<le> height r
        else find_loop fuel key h (root r) = Inr 0"
        using Suc.prems o by (intro Suc.IH) (auto simp: Nd ordered_Nd)
      show ?thesis
      proof (cases "key \<in> set (nkeys (nodes r))")
        case True
        with ih obtain l' a' c' d' r' gs where "find_loop fuel key h (root r) = Inr a'"
          "plug (Nd l' a' c' key d' r') ((gs @ [RightOf l a c k d]) @ fs) = plug t fs"
          "length (gs @ [RightOf l a c k d]) + height (Nd l' a' c' key d' r') \<le> height t" by (auto simp: Nd)
        with step mem True show ?thesis by metis
      qed (use ih step mem in simp)
    qed
  qed simp
qed simp

section \<open>Moving content to a leaf\<close>

lemma before_append [simp]: "before (gs @ fs) = before fs @ before gs"
  by (induction gs rule: before.induct) auto

lemma after_append [simp]: "after (gs @ fs) = after gs @ after fs"
  by (induction gs rule: after.induct) auto

lemma leftmost_zipper: "t \<noteq> Lf \<Longrightarrow> \<exists>b c k d r gs. t = plug (Nd Lf b c k d r) gs \<and> before gs = [] \<and> length gs + height r < height t"
proof (induction t)
  case (Nd l a c k d r)
  show ?case
  proof (cases "l = Lf")
    case True
    then have "Nd l a c k d r = plug (Nd Lf a c k d r) [] \<and> before [] = [] \<and> length ([] :: frame list) + height r < height (Nd l a c k d r)" by simp
    then show ?thesis by blast
  next
    case False
    with Nd.IH(1) obtain b' c' k' d' r' gs where "l = plug (Nd Lf b' c' k' d' r') gs" "before gs = []" "length gs + height r' < height l" by blast
    then have "Nd l a c k d r = plug (Nd Lf b' c' k' d' r') (gs @ [LeftOf a c k d r]) \<and> before (gs @ [LeftOf a c k d r]) = [] \<and>
      length (gs @ [LeftOf a c k d r]) + height r' < height (Nd l a c k d r)" by (auto simp: plug_append)
    then show ?thesis by blast
  qed
qed simp

lemma rightmost_zipper: "t \<noteq> Lf \<Longrightarrow> \<exists>b c k d l gs. t = plug (Nd l b c k d Lf) gs \<and> after gs = [] \<and> length gs + height l < height t"
proof (induction t)
  case (Nd l a c k d r)
  show ?case
  proof (cases "r = Lf")
    case True
    then have "Nd l a c k d r = plug (Nd l a c k d Lf) [] \<and> after [] = [] \<and> length ([] :: frame list) + height l < height (Nd l a c k d r)" by simp
    then show ?thesis by blast
  next
    case False
    with Nd.IH(2) obtain b' c' k' d' l' gs where "r = plug (Nd l' b' c' k' d' Lf) gs" "after gs = []" "length gs + height l' < height r" by blast
    then have "Nd l a c k d r = plug (Nd l' b' c' k' d' Lf) (gs @ [RightOf l a c k d]) \<and> after (gs @ [RightOf l a c k d]) = [] \<and>
      length (gs @ [RightOf l a c k d]) + height l' < height (Nd l a c k d r)" by (auto simp: plug_append)
    then show ?thesis by blast
  qed
qed simp

lemma set_content:
  assumes "rbt_at h head (plug (Nd l a c k d r) fs)"
  shows "\<exists>h'. upd_node h a (\<lambda>n. n\<lparr>nkey := k', ndata := d'\<rparr>) = Inr h' \<and> rbt_at h' head (plug (Nd l a c k' d' r) fs)"
  using assms unfolding rbt_at_plug by simp

text \<open>\<open>spare k t fs\<close>: without the root of the subtree, whose key is \<open>k\<close>, the keys are strictly ordered, and
  \<open>k\<close> fits into its place, possibly as a copy of a neighbour.\<close>

definition entries :: "(nat \<times> nat \<times> nat) list \<Rightarrow> (nat \<times> nat) list" where
  "entries xs = map snd xs"

lemma nkeys_entries: "nkeys xs = map fst (entries xs)"
  by (simp add: nkeys_def entries_def)

definition spare :: "nat \<Rightarrow> (nat \<times> nat \<times> nat) list \<Rightarrow> (nat \<times> nat \<times> nat) list \<Rightarrow> bool" where
  "spare k xs ys \<longleftrightarrow> sorted_wrt (<) (nkeys (xs @ ys)) \<and> (\<forall>k' \<in> set (nkeys xs). k' \<le> k) \<and> (\<forall>k' \<in> set (nkeys ys). k \<le> k')"

lemma spare_right:
  "spare k xs ((b, k', d') # ys) \<Longrightarrow> spare k' (xs @ [(a, k', d')]) ys"
  by (auto simp: spare_def sorted_wrt_append intro: less_imp_le)

lemma spare_left:
  "spare k (xs @ [(b, k', d')]) ys \<Longrightarrow> spare k' xs ((a, k', d') # ys)"
  by (auto simp: spare_def sorted_wrt_append intro: less_imp_le)

lemma rb_tree_content: "rb_tree (plug (Nd l a c k d r) fs) \<longleftrightarrow> rb_tree (plug (Nd l a c k' d' r) fs)"
  by (simp add: rb_tree_plug)

lemma entries_simps [simp]:
  "entries [] = []" "entries ((a, k, d) # xs) = (k, d) # entries xs" "entries (xs @ ys) = entries xs @ entries ys"
  by (simp_all add: entries_def)

text \<open>One step of the loop: the content of \<open>b\<close> goes to \<open>a\<close>, and \<open>b\<close> is next.\<close>

lemma replace_step:
  assumes at: "rbt_at h head (plug (Nd l a c k d r) fs)" and ne: "l \<noteq> Lf \<or> r \<noteq> Lf"
    and b: "rbt_at h head (plug (Nd bl b cb kb db br) gs)"
    and succ: "bnd (bf_get_successor_rbt_node fuel h a) (\<lambda>x. if x = 0 then bf_get_predecessor_rbt_node fuel h a else Inr x) = Inr b"
  shows "\<exists>h1. replace_loop (Suc fuel) h a col = replace_loop fuel h1 b (Some cb) \<and> rbt_at h1 head (plug (Nd l a c kb db r) fs)"
proof -
  note n = node_at_root [OF at] node_at_root [OF b]
  have nz: "a \<noteq> 0" "0 \<notin> set (addrs l)" "0 \<notin> set (addrs r)" using at by (auto simp: rbt_at_plug)
  from set_content [OF at, where k' = kb and d' = db] obtain h1 where
    1: "upd_node h a (\<lambda>n. n\<lparr>nkey := kb, ndata := db\<rparr>) = Inr h1" and 2: "rbt_at h1 head (plug (Nd l a c kb db r) fs)" by blast
  have "\<not> (root r = 0 \<and> root l = 0)" using ne nz by (auto simp: root_0_iff)
  then have "replace_loop (Suc fuel) h a col =
      bnd (bnd (bf_get_successor_rbt_node fuel h a) (\<lambda>x. if x = 0 then bf_get_predecessor_rbt_node fuel h a else Inr x))
        (\<lambda>x. bnd (node_at h x) (\<lambda>r. bnd (upd_node h a (\<lambda>n. n\<lparr>nkey := nkey r, ndata := ndata r\<rparr>))
          (\<lambda>h. replace_loop fuel h x (Some (ncolor r)))))"
    using n nz unfolding bnd_assoc by auto
  then have "replace_loop (Suc fuel) h a col = replace_loop fuel h1 b (Some cb)"
    unfolding succ using n 1 by simp
  with 2 show ?thesis by blast
qed

lemma successor_right:
  assumes at: "rbt_at h head (plug (Nd l a c k d r) fs)" and r: "r = plug (Nd Lf b cb kb db rb) gs" "before gs = []" and "height r \<le> fuel"
  shows "bnd (bf_get_successor_rbt_node fuel h a) (\<lambda>x. if x = 0 then bf_get_predecessor_rbt_node fuel h a else Inr x) = Inr b"
proof -
  have ne: "r \<noteq> Lf" using r by (auto simp: nodes_Nil_iff [symmetric] nodes_plug)
  have z: "0 \<notin> set (addrs r)" "rep h a r" "b \<noteq> 0" using at r(1) by (auto simp: rbt_at_plug)
  have "leftmost_loop fuel h (root r) = Inr b"
    using leftmost_loop_ok [OF z(2,1) ne assms(4)] r by (simp add: nodes_plug)
  then show ?thesis
    using node_at_root [OF at] z ne by (simp add: bf_get_successor_rbt_node_def root_0_iff)
qed

lemma predecessor_left:
  assumes at: "rbt_at h head (plug (Nd l a c k d Lf) fs)" and l: "l = plug (Nd bl b cb kb db Lf) gs" "after gs = []" and "height l \<le> fuel"
  shows "bnd (bf_get_successor_rbt_node fuel h a) (\<lambda>x. if x = 0 then bf_get_predecessor_rbt_node fuel h a else Inr x) = Inr b"
proof -
  have ne: "l \<noteq> Lf" using l by (auto simp: nodes_Nil_iff [symmetric] nodes_plug)
  have z: "0 \<notin> set (addrs l)" "rep h a l" using at by (auto simp: rbt_at_plug)
  have "rightmost_loop fuel h (root l) = Inr b"
    using rightmost_loop_ok [OF z(2,1) ne assms(4)] l by (simp add: nodes_plug)
  then show ?thesis
    using node_at_root [OF at] z ne by (simp add: bf_get_successor_rbt_node_def bf_get_predecessor_rbt_node_def root_0_iff)
qed

lemma replace_loop_ok:
  assumes "rbt_at h head (plug (Nd l a c k d r) fs)" "rb_tree (plug (Nd l a c k d r) fs)"
    "spare k (before fs @ nodes l) (nodes r @ after fs)" "height (Nd l a c k d r) \<le> fuel"
  shows "\<exists>x cx kx dx gs h'. replace_loop fuel h a col = Inr (x, Some cx, h') \<and>
    rbt_at h' head (plug (Nd Lf x cx kx dx Lf) gs) \<and> rb_tree (plug (Nd Lf x cx kx dx Lf) gs) \<and>
    spare kx (before gs) (after gs) \<and> entries (before gs @ after gs) = entries (before fs @ nodes l @ nodes r @ after fs) \<and>
    length gs + 1 \<le> length fs + height (Nd l a c k d r)"
  using assms
proof (induction fuel arbitrary: h l a c k d r fs col)
  case (Suc fuel)
  note at = Suc.prems(1)
  have a: "a \<noteq> 0" using at by (auto simp: rbt_at_plug)
  consider "l = Lf" "r = Lf" | "r \<noteq> Lf" | "r = Lf" "l \<noteq> Lf" by blast
  then show ?case
  proof cases
    case 1
    have "replace_loop (Suc fuel) h a col = Inr (a, Some c, h)" using 1 node_at_root [OF at] a by simp
    with Suc.prems 1 show ?thesis by fastforce
  next
    case 2
    then obtain b cb kb db rb gs where r: "r = plug (Nd Lf b cb kb db rb) gs" "before gs = []" "length gs + height rb < height r"
      using leftmost_zipper by blast
    have s: "bnd (bf_get_successor_rbt_node fuel h a) (\<lambda>x. if x = 0 then bf_get_predecessor_rbt_node fuel h a else Inr x) = Inr b"
      by (rule successor_right [OF at r(1,2)]) (use Suc.prems(4) in simp)
    have b: "rbt_at h head (plug (Nd Lf b cb kb db rb) (gs @ RightOf l a c k d # fs))" using at by (simp add: plug_append r(1) [symmetric])
    from replace_step [OF at _ b s] 2 obtain h1 where 1: "replace_loop (Suc fuel) h a col = replace_loop fuel h1 b (Some cb)"
      and at1: "rbt_at h1 head (plug (Nd Lf b cb kb db rb) (gs @ RightOf l a c kb db # fs))" by (auto simp: plug_append r(1))
    have rb: "rb_tree (plug (Nd Lf b cb kb db rb) (gs @ RightOf l a c kb db # fs))"
      using Suc.prems(2) rb_tree_content [of l a c k d r fs kb db] by (simp add: plug_append r(1))
    have n: "nodes r = (b, kb, db) # nodes rb @ after gs" by (simp add: r nodes_plug)
    have sp: "spare kb (before (gs @ RightOf l a c kb db # fs) @ nodes Lf) (nodes rb @ after (gs @ RightOf l a c kb db # fs))"
      using spare_right [of k "before fs @ nodes l" b kb db "nodes rb @ after gs @ after fs" a] Suc.prems(3) by (simp add: n r(2))
    have hb: "height (Nd Lf b cb kb db rb) \<le> fuel" using r(3) Suc.prems(4) by simp
    from Suc.IH [OF at1 rb sp hb, of "Some cb"] obtain x cx kx dx gs' h' where
      2: "replace_loop fuel h1 b (Some cb) = Inr (x, Some cx, h')" "rbt_at h' head (plug (Nd Lf x cx kx dx Lf) gs')"
        "rb_tree (plug (Nd Lf x cx kx dx Lf) gs')" "spare kx (before gs') (after gs')"
      and 3: "entries (before gs' @ after gs') = entries (before fs @ nodes l @ nodes r @ after fs)"
        "length gs' + 1 \<le> length fs + height (Nd l a c k d r)"
      using r(3) by (force simp: n r(2))
    show ?thesis unfolding 1 by (intro exI conjI) (fact 2 3)+
  next
    case 3
    then obtain b cb kb db bl gs where l: "l = plug (Nd bl b cb kb db Lf) gs" "after gs = []" "length gs + height bl < height l"
      using rightmost_zipper by blast
    have s: "bnd (bf_get_successor_rbt_node fuel h a) (\<lambda>x. if x = 0 then bf_get_predecessor_rbt_node fuel h a else Inr x) = Inr b"
      by (rule predecessor_left [OF at [unfolded 3(1)] l(1,2)]) (use Suc.prems(4) in simp)
    have b: "rbt_at h head (plug (Nd bl b cb kb db Lf) (gs @ LeftOf a c k d r # fs))" using at by (simp add: plug_append l(1) [symmetric])
    from replace_step [OF at _ b s] 3 obtain h1 where 1: "replace_loop (Suc fuel) h a col = replace_loop fuel h1 b (Some cb)"
      and at1: "rbt_at h1 head (plug (Nd bl b cb kb db Lf) (gs @ LeftOf a c kb db r # fs))" by (auto simp: plug_append l(1))
    have rb: "rb_tree (plug (Nd bl b cb kb db Lf) (gs @ LeftOf a c kb db r # fs))"
      using Suc.prems(2) rb_tree_content [of l a c k d r fs kb db] by (simp add: plug_append l(1))
    have n: "nodes l = before gs @ nodes bl @ [(b, kb, db)]" by (simp add: l nodes_plug)
    have sp: "spare kb (before (gs @ LeftOf a c kb db r # fs) @ nodes bl) (nodes Lf @ after (gs @ LeftOf a c kb db r # fs))"
      using spare_left [of k "before fs @ before gs @ nodes bl" b kb db "after fs" a] Suc.prems(3) by (simp add: n l(2) 3(1))
    have hb: "height (Nd bl b cb kb db Lf) \<le> fuel" using l(3) Suc.prems(4) by simp
    from Suc.IH [OF at1 rb sp hb, of "Some cb"] obtain x cx kx dx gs' h' where
      4: "replace_loop fuel h1 b (Some cb) = Inr (x, Some cx, h')" "rbt_at h' head (plug (Nd Lf x cx kx dx Lf) gs')"
        "rb_tree (plug (Nd Lf x cx kx dx Lf) gs')" "spare kx (before gs') (after gs')"
      and 5: "entries (before gs' @ after gs') = entries (before fs @ nodes l @ nodes r @ after fs)"
        "length gs' + 1 \<le> length fs + height (Nd l a c k d r)"
      using l(3) 3(1) by (force simp: n l(2) 3(1))
    show ?thesis unfolding 1 by (intro exI conjI) (fact 4 5)+
  qed
qed simp

section \<open>Releasing the leaf\<close>

definition free_leaf :: "rheap \<Rightarrow> nat \<Rightarrow> nat \<Rightarrow> (bf_rbt_sts_t \<times> rheap \<times> nat) res" where
  "free_leaf h head res_node =
     bnd (node_at h res_node) (\<lambda>n.
     let parent = nparent n in
     bnd (if parent = 0 then Inr (h, 0) else
          bnd (bf_get_rbt_node_direction h res_node) (\<lambda>child_dir.
          if child_dir = BF_RBT_LEFT_NODE
          then bnd (upd_node h parent (\<lambda>p. p\<lparr>nleft := 0\<rparr>)) (\<lambda>h. Inr (h, head))
          else bnd (upd_node h parent (\<lambda>p. p\<lparr>nright := 0\<rparr>)) (\<lambda>h. Inr (h, head)))) (\<lambda>(h, head).
     Inr (BF_RBT_OK, h(res_node := None), head)))"

lemma free_leaf_ok:
  assumes at: "rbt_at h head (plug (Nd Lf x c k d Lf) fs)" and o: "ordered_but x (nodes (plug (Nd Lf x c k d Lf) fs))"
  shows "\<exists>h' head'. free_leaf h head x = Inr (BF_RBT_OK, h', head') \<and> rbt_at h' head' (plug Lf fs)"
proof (cases fs)
  case Nil
  with at have "dom h = {x}" by (simp add: rbt_at_def)
  then have "h(x := None) = Map.empty" by (intro ext) (auto simp: domIff)
  with at Nil show ?thesis by (auto simp: free_leaf_def rbt_at_def)
next
  case (Cons f gs)
  have "x \<notin> set (caddrs fs)" using at by (simp add: rbt_at_plug)
  then have x: "x \<notin> set (caddrs (f # gs))" unfolding Cons .
  have side: "bf_get_rbt_node_direction h x = Inr (side_of f)"
    using neighbour(3) [OF at [unfolded Cons] ordered_but_side [OF o [unfolded Cons] x]] .
  show ?thesis
  proof (cases f)
    case (LeftOf p pc pk pd pr)
    show ?thesis using at side unfolding Cons LeftOf rbt_at_plug free_leaf_def by (auto simp: Let_def fun_upd_other)
  next
    case (RightOf pl p pc pk pd)
    show ?thesis using at side unfolding Cons RightOf rbt_at_plug free_leaf_def by (auto simp: Let_def fun_upd_other)
  qed
qed

lemma settled_free:
  assumes "settled x h head xs" and o: "ordered_but x xs"
  shows "\<exists>h' head'. free_leaf h head x = Inr (BF_RBT_OK, h', head') \<and> balanced h' head' (filter (\<lambda>n. fst n \<noteq> x) xs)"
proof -
  obtain t where t: "rbt_at h head t" "nodes t = xs" "has_leaf x t" "rb_tree (cut x t)" using assms(1) by (auto simp: settled_def)
  from has_leaf_zipper [OF t(3)] obtain c k d gs where z: "t = plug (Nd Lf x c k d Lf) gs" by blast
  have x: "x \<notin> set (caddrs gs)" using t(1) by (simp add: z rbt_at_plug)
  from free_leaf_ok [of h head x c k d gs] t o obtain h' head' where
    1: "free_leaf h head x = Inr (BF_RBT_OK, h', head')" and 2: "rbt_at h' head' (plug Lf gs)" by (auto simp: z)
  have "balanced h' head' (filter (\<lambda>n. fst n \<noteq> x) xs)"
    by (rule balancedI [OF 2])
      (use t(2,4) x context_filter [OF x] in \<open>auto simp: z cut_plug nodes_plug\<close>)
  with 1 show ?thesis by blast
qed

section \<open>The removal\<close>

lemma spare_ordered_but:
  assumes "spare k (before fs) (after fs)" and "x \<notin> set (caddrs fs)"
  shows "ordered_but x (nodes (plug (Nd Lf x c k d Lf) fs))"
proof -
  have "sorted_wrt (\<le>) xs" if "sorted_wrt (<) xs" for xs :: "nat list"
    by (rule sorted_wrt_mono_rel [OF _ that]) simp
  with assms context_filter [OF assms(2)] show ?thesis
    by (auto simp: ordered_but_def spare_def nodes_plug sorted_wrt_append intro: less_imp_le)
qed

lemma balance_deletion_ok:
  assumes g: "lacks_black x h head t fs" and "length fs + 3 \<le> fuel"
  shows "\<exists>h' head'. bf_balance_rbt_post_deletion fuel h (root t) head = Inr (h', head') \<and> settled x h' head' (nodes (plug t fs))"
proof -
  from rebalance_loop_ok [OF assms] obtain h1 head1 where
    1: "rebalance_loop fuel h (root t) head = Inr (h1, head1)" and 2: "settled x h1 head1 (nodes (plug t fs))" by blast
  from 2 obtain u where u: "rbt_at h1 head1 u" "nodes u = nodes (plug t fs)" "has_leaf x u" "rb_tree (cut x u)"
    unfolding settled_def by blast
  then obtain l a c k d r where n: "u = Nd l a c k d r" by (cases u) auto
  have root: "head1 = a" "node_at h1 a = Inr \<lparr>nkey = k, ncolor = c, nleft = root l, nright = root r, nparent = 0, ndata = d\<rparr>"
    using u(1) node_at_root [of h1 head1 l a c k d r "[]"] by (auto simp: n rbt_at_def)
  show ?thesis
  proof (cases c)
    case False
    with 1 2 root show ?thesis by (simp add: bf_balance_rbt_post_deletion_def)
  next
    case True
    from recolor [of h1 head1 l a c k d r "[]" BLACK] u(1) obtain h2 where
      3: "upd_node h1 a (\<lambda>n. n\<lparr>ncolor := BLACK\<rparr>) = Inr h2" and 4: "rbt_at h2 head1 (Nd l a BLACK k d r)" by (auto simp: n)
    have "settled x h2 head1 (nodes (plug t fs))"
      unfolding settled_def by (rule exI [of _ "Nd l a BLACK k d r"]) (use u 4 in \<open>auto simp: n rb_tree_def split: if_splits\<close>)
    with 1 root True 3 show ?thesis by (simp add: bf_balance_rbt_post_deletion_def)
  qed
qed

lemma leaf_settled:
  assumes at: "rbt_at h head (plug (Nd Lf x c k d Lf) gs)" and rb: "rb_tree (plug (Nd Lf x c k d Lf) gs)"
    and o: "ordered_but x (nodes (plug (Nd Lf x c k d Lf) gs))" and fuel: "length gs + 3 \<le> fuel"
  shows "\<exists>h' head'. (if c = BLACK then bf_balance_rbt_post_deletion fuel h x head else Inr (h, head)) = Inr (h', head') \<and>
    settled x h' head' (nodes (plug (Nd Lf x c k d Lf) gs))"
proof (cases c)
  case True
  have "settled x h head (nodes (plug (Nd Lf x c k d Lf) gs))"
    by (rule settledI [OF at]) (use rb True ctx_black [of 0 gs] in \<open>auto simp: rb_tree_plug\<close>)
  with True show ?thesis by simp
next
  case False
  have "lacks_black x h head (Nd Lf x c k d Lf) gs"
    using at o rb False by (simp add: lacks_black_def rb_tree_plug)
  from balance_deletion_ok [OF this fuel] False show ?thesis by simp
qed

lemma filter_key:
  fixes k :: nat
  assumes "sorted_wrt (<) (map fst (xs @ (k, d) # ys))"
  shows "filter (\<lambda>e. fst e \<noteq> k) (xs @ (k, d) # ys) = xs @ ys"
proof -
  have "filter (\<lambda>e. fst e \<noteq> k) xs = xs" "filter (\<lambda>e. fst e \<noteq> k) ys = ys"
    using assms by (force simp: sorted_wrt_append filter_id_conv)+
  then show ?thesis by simp
qed

lemma remove_ok:
  assumes at: "rbt_at h head t" and rb: "rb_tree t" and o: "ordered t" and fuel: "height t + 2 \<le> fuel"
  shows "if key \<in> set (nkeys (nodes t))
    then \<exists>h' head' ys. bf_remove_rbt_entry fuel key h head = Inr (BF_RBT_OK, h', head') \<and> balanced h' head' ys \<and>
      entries ys = filter (\<lambda>e. fst e \<noteq> key) (entries (nodes t))
    else bf_remove_rbt_entry fuel key h head = Inr (BF_RBT_NO_KEY, h, head)"
proof -
  have head: "head = root t" using at by (simp add: rbt_at_def)
  note find = find_loop_ok [of h head t "[]" fuel key]
  obtain fuel' where fuel': "fuel = Suc fuel'" using fuel by (cases fuel) auto
  show ?thesis
  proof (cases "key \<in> set (nkeys (nodes t))")
    case False
    then have "find_loop fuel key h head = Inr 0" using find at o fuel head by simp
    with False show ?thesis by (simp add: bf_remove_rbt_entry_def bf_bst_node_deletion_def fuel')
  next
    case True
    then obtain l a c d r fs where 1: "find_loop fuel key h head = Inr a" and t: "plug (Nd l a c key d r) fs = t"
      "length fs + height (Nd l a c key d r) \<le> height t" using find at o fuel head by auto
    have sp: "spare key (before fs @ nodes l) (nodes r @ after fs)"
      using o by (auto simp: ordered_def t(1) [symmetric] nodes_plug spare_def sorted_wrt_append intro: less_imp_le)
    from replace_loop_ok [of h head l a c key d r fs fuel None] at rb sp t fuel obtain x cx kx dx gs h1 where
      2: "replace_loop fuel h a None = Inr (x, Some cx, h1)" and at1: "rbt_at h1 head (plug (Nd Lf x cx kx dx Lf) gs)"
      and rb1: "rb_tree (plug (Nd Lf x cx kx dx Lf) gs)" and sp1: "spare kx (before gs) (after gs)"
      and e: "entries (before gs @ after gs) = entries (before fs @ nodes l @ nodes r @ after fs)"
      and len: "length gs + 1 \<le> length fs + height (Nd l a c key d r)" by auto
    have x: "x \<noteq> 0" "x \<notin> set (caddrs gs)" using at1 by (auto simp: rbt_at_plug)
    note o1 = spare_ordered_but [OF sp1 x(2), of cx dx]
    from leaf_settled [OF at1 rb1 o1, of fuel] len t(2) fuel obtain h2 head2 where
      3: "(if cx = BLACK then bf_balance_rbt_post_deletion fuel h1 x head else Inr (h1, head)) = Inr (h2, head2)"
      and s: "settled x h2 head2 (nodes (plug (Nd Lf x cx kx dx Lf) gs))" by auto
    from settled_free [OF s o1] context_filter [OF x(2)] obtain h3 head3 where
      4: "free_leaf h2 head2 x = Inr (BF_RBT_OK, h3, head3)" and b: "balanced h3 head3 (before gs @ after gs)"
      by (auto simp: nodes_plug)
    have "bf_remove_rbt_entry fuel key h head = Inr (BF_RBT_OK, h3, head3)"
      using 1 2 3 4 x by (simp add: bf_remove_rbt_entry_def bf_bst_node_deletion_def free_leaf_def)
    moreover have "entries (before gs @ after gs) = filter (\<lambda>e. fst e \<noteq> key) (entries (nodes t))"
      unfolding e using o t(1) filter_key [of "entries (before fs @ nodes l)" key d "entries (nodes r @ after fs)"]
      by (auto simp: ordered_def nodes_plug nkeys_entries)
    ultimately show ?thesis using b True by auto
  qed
qed

end
