(* ===== verification/Rbt_State.thy ===== *)
theory Rbt_State
  imports Rbt_Remove
begin

text \<open>
  The red-black tree as its callers see it: \<open>red_black h head xs\<close> says that \<open>head\<close> points to a
  red-black tree with the nodes \<open>xs\<close> (address, key and data, in the order of the keys) and that the
  heap has no other nodes. The fuel of the operations is logarithmic in the number of nodes.
\<close>

section \<open>The state\<close>

definition red_black :: "rheap \<Rightarrow> nat \<Rightarrow> (nat \<times> nat \<times> nat) list \<Rightarrow> bool" where
  "red_black h head xs \<longleftrightarrow> (\<exists>t. rbt_at h head t \<and> rb_tree t \<and> ordered t \<and> nodes t = xs)"

definition log_fuel :: "nat \<Rightarrow> nat \<Rightarrow> bool" where
  "log_fuel n fuel \<longleftrightarrow> 4 * (n + 1) ^ 2 \<le> 2 ^ fuel"

lemma red_blackE:
  assumes "red_black h head xs"
  obtains t where "rbt_at h head t" "rb_tree t" "ordered t" "nodes t = xs" "rep h 0 t" "0 \<notin> set (addrs t)" "head = root t"
  using assms unfolding red_black_def rbt_at_def by blast

lemma red_blackI: "balanced h head xs \<Longrightarrow> sorted_wrt (<) (nkeys xs) \<Longrightarrow> red_black h head xs"
  by (auto simp: red_black_def balanced_def ordered_def)

lemma red_black_sorted: "red_black h head xs \<Longrightarrow> sorted_wrt (<) (nkeys xs)"
  by (auto simp: red_black_def ordered_def)

lemma red_black_dom: "red_black h head xs \<Longrightarrow> dom h = fst ` set xs \<and> distinct (map fst xs) \<and> 0 \<notin> dom h"
  by (auto simp: red_black_def rbt_at_def addrs_nodes)

lemma red_black_card: "red_black h head xs \<Longrightarrow> finite (dom h) \<and> card (dom h) = length xs"
  by (metis red_black_dom distinct_card length_map list.set_map finite_set)

lemma bh_size: "inv t \<Longrightarrow> 2 ^ bh t \<le> length (nodes t) + 1"
  by (induction t) auto

lemma height_bh: "inv t \<Longrightarrow> height t \<le> 2 * bh t + (if color t = RED then 1 else 0)"
  by (induction t) (auto split: if_splits)

lemma rb_height:
  assumes "rb_tree t"
  shows "2 ^ height t \<le> (length (nodes t) + 1) ^ 2"
proof -
  have "height t \<le> 2 * bh t" using height_bh [of t] assms by (simp add: rb_tree_def)
  then have "(2 :: nat) ^ height t \<le> 2 ^ (2 * bh t)" by (intro power_increasing) auto
  also have "\<dots> = (2 ^ bh t) ^ 2" by (simp add: power_mult [symmetric] mult.commute)
  also have "\<dots> \<le> (length (nodes t) + 1) ^ 2" using bh_size [of t] assms by (intro power_mono) (auto simp: rb_tree_def)
  finally show ?thesis .
qed

lemma log_fuel_height: "rb_tree t \<Longrightarrow> log_fuel (length (nodes t)) fuel \<Longrightarrow> height t + 2 \<le> fuel"
proof -
  assume "rb_tree t" "log_fuel (length (nodes t)) fuel"
  with rb_height have "(2 :: nat) ^ (height t + 2) \<le> 2 ^ fuel" by (force simp: log_fuel_def)
  then show ?thesis by (simp only: power_increasing_iff one_less_numeral_iff semiring_norm)
qed

lemma log_fuel_enough: "2 * n + 2 \<le> fuel \<Longrightarrow> log_fuel n fuel"
proof -
  assume f: "2 * n + 2 \<le> fuel"
  have "n + 1 \<le> 2 ^ n" using Suc_leI [OF less_exp [of n]] by simp
  then have "(n + 1) ^ 2 \<le> (2 ^ n) ^ 2" by (rule power_mono) simp
  then have "4 * (n + 1) ^ 2 \<le> 2 ^ (2 * n + 2)" by (simp add: power_mult [symmetric] power_add mult.commute)
  also have "\<dots> \<le> 2 ^ fuel" using f by (intro power_increasing) auto
  finally show ?thesis by (simp add: log_fuel_def)
qed

section \<open>Searches in a sorted list\<close>

lemma find_greatest:
  assumes "sorted_wrt (<) (nkeys xs)"
  shows "find (\<lambda>x. fst (snd x) \<le> key) (rev xs) = Some (a, k, d) \<longleftrightarrow>
    (a, k, d) \<in> set xs \<and> k \<le> key \<and> (\<forall>(a', k', d') \<in> set xs. k' \<le> key \<longrightarrow> k' \<le> k)"
  using assms
proof (induction xs rule: rev_induct)
  case (snoc y ys)
  obtain b l e where y: "y = (b, l, e)" by (cases y)
  have less: "(a', k', d') \<in> set ys \<Longrightarrow> k' < l" for a' k' d'
    using snoc.prems by (force simp: y nkeys_def sorted_wrt_append)
  show ?case
  proof (cases "l \<le> key")
    case True
    then show ?thesis using less [of a k d] by (auto simp: y dest: less)
  next
    case False
    then show ?thesis using snoc by (auto simp: y sorted_wrt_append)
  qed
qed simp

lemma find_least:
  assumes "sorted_wrt (<) (nkeys xs)"
  shows "find (\<lambda>x. key \<le> fst (snd x)) xs = Some (a, k, d) \<longleftrightarrow>
    (a, k, d) \<in> set xs \<and> key \<le> k \<and> (\<forall>(a', k', d') \<in> set xs. key \<le> k' \<longrightarrow> k \<le> k')"
  using assms
proof (induction xs)
  case (Cons y ys)
  obtain b l e where y: "y = (b, l, e)" by (cases y)
  have less: "(a', k', d') \<in> set ys \<Longrightarrow> l < k'" for a' k' d'
    using Cons.prems by (force simp: y nkeys_def)
  show ?case
  proof (cases "key \<le> l")
    case True
    then show ?thesis using less [of a k d] by (auto simp: y dest: less)
  next
    case False
    then show ?thesis using Cons by (auto simp: y)
  qed
qed simp

section \<open>The operations\<close>

lemma sorted_insert_node:
  assumes "sorted_wrt (<) (nkeys xs)"
  shows "sorted_wrt (<) (nkeys (insert_node (a, k, d) xs))"
proof -
  have "sorted_wrt (<) (nkeys (filter P xs))" for P
    using assms unfolding nkeys_def sorted_wrt_map by (rule sorted_wrt_filter)
  then show ?thesis by (auto simp: insert_node_def sorted_wrt_append) (auto simp: nkeys_def)
qed

lemma insert_old:
  assumes at: "rbt_at h head t" and o: "ordered t" and fuel: "height t < fuel" and key: "key \<in> set (nkeys (nodes t))"
  shows "\<exists>x d. (x, key, d) \<in> set (nodes t) \<and> bf_insert_rbt_entry calloc fuel h head key head = Inr (x, h, head)"
proof -
  have t: "t \<noteq> Lf" "0 \<notin> set (addrs t)" "rep h 0 t" using key at by (auto simp: rbt_at_def)
  have head: "head = root t" "head \<noteq> 0" using at t by (auto simp: rbt_at_def root_0_iff)
  have start: "insert_loop fuel key h head head = insert_loop fuel key h (root t) (top [])"
    using head fuel by (cases fuel) auto
  have no: "\<not> (plug Lf gs = t \<and> between key gs)" for gs
    using key nodes_plug [of Lf gs] by (auto simp: between_def)
  have "between key []" by (simp add: between_def)
  with insert_loop_ok [of h head t "[]" fuel key] at o fuel start no obtain x d where
    1: "insert_loop fuel key h head head = Inr x" "(x, key, d) \<in> set (nodes t)" by (simp only: plug.simps) blast
  have "\<exists>n. h x = Some n \<and> nkey n = key \<and> x \<noteq> 0" if "(x, key, d) \<in> set (nodes u)" "rep h p u" "0 \<notin> set (addrs u)" for u p
    using that by (induction u arbitrary: p) auto
  with 1 t obtain n where "h x = Some n" "nkey n = key" "x \<noteq> 0" by blast
  with 1 head show ?thesis by (auto simp: bf_insert_rbt_entry_def)
qed

lemma insert_first:
  assumes "rbt_at h 0 Lf" and "calloc h \<noteq> 0"
  shows "\<exists>h'. bf_insert_rbt_entry calloc fuel h 0 key 0 = Inr (calloc h, h', calloc h) \<and> red_black h' (calloc h) [(calloc h, key, 0)]"
proof -
  let ?t = "Nd Lf (calloc h) BLACK key 0 Lf"
  let ?h = "h(calloc h \<mapsto> \<lparr>nkey = key, ncolor = BLACK, nleft = 0, nright = 0, nparent = 0, ndata = 0\<rparr>)"
  have "bf_insert_rbt_entry calloc fuel h 0 key 0 = Inr (calloc h, ?h, calloc h)"
    using assms(2) by (simp add: bf_insert_rbt_entry_def bf_create_rbt_node_def Let_def)
  moreover have "rbt_at ?h (calloc h) ?t" "rb_tree ?t" "ordered ?t" "nodes ?t = [(calloc h, key, 0)]"
    using assms by (auto simp: rbt_at_def rb_tree_def ordered_def)
  then have "red_black ?h (calloc h) [(calloc h, key, 0)]" unfolding red_black_def by blast
  ultimately show ?thesis by blast
qed

lemma red_black_insert:
  assumes r: "red_black h head xs" and fuel: "log_fuel (length xs) fuel" and new: "calloc h \<notin> dom h"
  shows "if key \<in> set (nkeys xs)
    then \<exists>x d. (x, key, d) \<in> set xs \<and> bf_insert_rbt_entry calloc fuel h head key head = Inr (x, h, head)
    else if calloc h = 0 then bf_insert_rbt_entry calloc fuel h head key head = Inr (0, h, head)
    else \<exists>h' head'. bf_insert_rbt_entry calloc fuel h head key head = Inr (calloc h, h', head') \<and>
      red_black h' head' (insert_node (calloc h, key, 0) xs)"
proof -
  obtain t where t: "rbt_at h head t" "rb_tree t" "ordered t" "nodes t = xs" "head = root t" using r by (elim red_blackE)
  have h: "height t + 2 \<le> fuel" using log_fuel_height t fuel by simp
  show ?thesis
  proof (cases "key \<in> set (nkeys xs)")
    case True
    with insert_old [OF t(1,3), of fuel key calloc] h t show ?thesis by simp
  next
    case new_key: False
    show ?thesis
    proof (cases "t = Lf")
      case True
      with t(4,5) new_key insert_first [of h calloc fuel key] t(1) show ?thesis
        by (auto simp: insert_node_def bf_insert_rbt_entry_def bf_create_rbt_node_def)
    next
      case False
      with insert_new [OF t(1,3,2), of fuel calloc key] h new new_key t(4) r show ?thesis
        by (auto simp: red_black_sorted intro!: red_blackI sorted_insert_node split: if_splits)
    qed
  qed
qed

lemma red_black_remove:
  assumes r: "red_black h head xs" and fuel: "log_fuel (length xs) fuel"
  shows "if key \<in> set (nkeys xs)
    then \<exists>h' head' ys. bf_remove_rbt_entry fuel key h head = Inr (BF_RBT_OK, h', head') \<and> red_black h' head' ys \<and>
      entries ys = filter (\<lambda>e. fst e \<noteq> key) (entries xs)
    else bf_remove_rbt_entry fuel key h head = Inr (BF_RBT_NO_KEY, h, head)"
proof -
  obtain t where t: "rbt_at h head t" "rb_tree t" "ordered t" "nodes t = xs" using r by (elim red_blackE)
  have h: "height t + 2 \<le> fuel" using log_fuel_height t fuel by simp
  have "sorted_wrt (<) (nkeys ys)" if "entries ys = filter (\<lambda>e. fst e \<noteq> key) (entries xs)" for ys
    using red_black_sorted [OF r] unfolding nkeys_entries that sorted_wrt_map by (rule sorted_wrt_filter)
  with remove_ok [OF t(1-3) h, of key] t(4) show ?thesis by (auto intro!: red_blackI split: if_splits)
qed

lemma node_zipper: "(x, k, d) \<in> set (nodes t) \<Longrightarrow> \<exists>l c r gs. plug (Nd l x c k d r) gs = t"
proof (induction t)
  case (Nd l a c k' d' r)
  consider "x = a" "k = k'" "d = d'" | "(x, k, d) \<in> set (nodes l)" | "(x, k, d) \<in> set (nodes r)" using Nd.prems by auto
  then show ?case
  proof cases
    case 1
    then have "plug (Nd l x c k d r) [] = Nd l a c k' d' r" by simp
    then show ?thesis by blast
  next
    case 2
    with Nd.IH(1) obtain l2 c2 r2 gs where "plug (Nd l2 x c2 k d r2) gs = l" by blast
    then have "plug (Nd l2 x c2 k d r2) (gs @ [LeftOf a c k' d' r]) = Nd l a c k' d' r" by (simp add: plug_append)
    then show ?thesis by blast
  next
    case 3
    with Nd.IH(2) obtain l2 c2 r2 gs where "plug (Nd l2 x c2 k d r2) gs = r" by blast
    then have "plug (Nd l2 x c2 k d r2) (gs @ [RightOf l a c k' d']) = Nd l a c k' d' r" by (simp add: plug_append)
    then show ?thesis by blast
  qed
qed simp

text \<open>A client writes the data of a node.\<close>

definition set_data :: "nat \<Rightarrow> nat \<Rightarrow> (nat \<times> nat \<times> nat) list \<Rightarrow> (nat \<times> nat \<times> nat) list" where
  "set_data x v xs = map (\<lambda>(b, k, e). (b, k, if b = x then v else e)) xs"

lemma set_data_simps [simp]:
  "set_data x v [] = []" "set_data x v ((b, k, e) # xs) = (b, k, if b = x then v else e) # set_data x v xs"
  "set_data x v (xs @ ys) = set_data x v xs @ set_data x v ys"
  by (simp_all add: set_data_def)

lemma set_data_other: "x \<notin> fst ` set xs \<Longrightarrow> set_data x v xs = xs"
  by (induction xs) auto

lemma nkeys_set_data [simp]: "nkeys (set_data x v xs) = nkeys xs"
  by (induction xs) auto

lemma red_black_node:
  assumes r: "red_black h head xs" and x: "(x, k, d) \<in> set xs"
  shows "\<exists>n. h x = Some n \<and> x \<noteq> 0 \<and> nkey n = k \<and> ndata n = d \<and> red_black (h(x \<mapsto> n\<lparr>ndata := v\<rparr>)) head (set_data x v xs)"
proof -
  obtain t where t: "rbt_at h head t" "rb_tree t" "ordered t" "nodes t = xs" using r by (elim red_blackE)
  from node_zipper [of x k d t] x t(4) obtain l c r gs where z: "plug (Nd l x c k d r) gs = t" by blast
  note at = t(1) [folded z]
  have n: "h x = Some \<lparr>nkey = k, ncolor = c, nleft = root l, nright = root r, nparent = top gs, ndata = d\<rparr>" "x \<noteq> 0"
    using at by (auto simp: rbt_at_plug)
  from set_content [OF at, where k' = k and d' = v] n have
    2: "rbt_at (h(x \<mapsto> \<lparr>nkey = k, ncolor = c, nleft = root l, nright = root r, nparent = top gs, ndata = v\<rparr>)) head
      (plug (Nd l x c k v r) gs)" by simp
  have "x \<notin> set (addrs l)" "x \<notin> set (addrs r)" "x \<notin> set (caddrs gs)" using at by (auto simp: rbt_at_plug)
  then have "x \<notin> fst ` set (nodes l)" "x \<notin> fst ` set (nodes r)" "x \<notin> fst ` set (before gs)" "x \<notin> fst ` set (after gs)"
    using context_addrs [of gs] by (auto simp: addrs_nodes)
  then have "nodes (plug (Nd l x c k v r) gs) = set_data x v xs"
    unfolding t(4) [symmetric] z [symmetric] by (simp add: nodes_plug set_data_other)
  moreover have "rb_tree (plug (Nd l x c k v r) gs)" using t(2) rb_tree_content [of l x c k d r gs k v] by (simp add: z)
  ultimately have "red_black (h(x \<mapsto> \<lparr>nkey = k, ncolor = c, nleft = root l, nright = root r, nparent = top gs, ndata = v\<rparr>)) head (set_data x v xs)"
    using 2 red_black_sorted [OF r] unfolding red_black_def ordered_def by (intro exI [of _ "plug (Nd l x c k v r) gs"]) auto
  with n show ?thesis by auto
qed

lemma red_black_bounds:
  assumes r: "red_black h head xs" and fuel: "log_fuel (length xs) fuel"
  shows "bf_get_lower_bound fuel key h head = Inr (addr_or 0 (find (\<lambda>x. fst (snd x) \<le> key) (rev xs)))"
    "bf_get_upper_bound fuel key h head = Inr (addr_or 0 (find (\<lambda>x. key \<le> fst (snd x)) xs))"
proof -
  obtain t where t: "rbt_at h head t" "rb_tree t" "ordered t" "nodes t = xs" "rep h 0 t" "0 \<notin> set (addrs t)" "head = root t"
    using r by (elim red_blackE)
  have h: "height t + 2 \<le> fuel" using log_fuel_height t fuel by simp
  show "bf_get_lower_bound fuel key h head = Inr (addr_or 0 (find (\<lambda>x. fst (snd x) \<le> key) (rev xs)))"
    using lower_bound_loop_ok [OF t(5,6,3), of fuel key 0] h t by (simp add: bf_get_lower_bound_def)
  show "bf_get_upper_bound fuel key h head = Inr (addr_or 0 (find (\<lambda>x. key \<le> fst (snd x)) xs))"
    using upper_bound_loop_ok [OF t(5,6,3), of fuel key 0] h t by (simp add: bf_get_upper_bound_def)
qed

end
