(* ===== verification/Rbt_Props.thy ===== *)
theory Rbt_Props
  imports Rbt_State Dictionary
begin

text \<open>
  The properties of the red-black tree, and the tree as a finite map: a client that stores data that
  are not NULL in the nodes keeps the contract of Dictionary.
\<close>

section \<open>A finite map in the tree\<close>

text \<open>\<open>calloc\<close> has memory and returns an address that is not in use.\<close>

definition fresh :: "(rheap \<Rightarrow> nat) \<Rightarrow> bool" where
  "fresh calloc \<longleftrightarrow> (\<forall>h. finite (dom h) \<longrightarrow> calloc h \<noteq> 0 \<and> calloc h \<notin> dom h)"

definition tree_fuel :: "rheap \<Rightarrow> nat" where
  "tree_fuel h = 2 * card (dom h) + 2"

type_synonym tree_state = "(rheap \<Rightarrow> nat) \<times> rheap \<times> nat"

definition tree_lookup :: "tree_state \<Rightarrow> nat \<Rightarrow> nat option" where
  "tree_lookup s k = (case s of (calloc, h, head) \<Rightarrow>
     (case bf_get_lower_bound (tree_fuel h) k h head of Inl _ \<Rightarrow> None
      | Inr x \<Rightarrow> (case h x of None \<Rightarrow> None | Some n \<Rightarrow> if nkey n = k then Some (ndata n) else None)))"

text \<open>A new node has the data NULL; the client refuses a node that has data already.\<close>

definition tree_add :: "tree_state \<Rightarrow> nat \<Rightarrow> nat \<Rightarrow> bool \<times> tree_state" where
  "tree_add s k v = (case s of (calloc, h, head) \<Rightarrow>
     (case bf_insert_rbt_entry calloc (tree_fuel h) h head k head of Inl _ \<Rightarrow> (False, s)
      | Inr (x, h', head') \<Rightarrow>
          (case h' x of None \<Rightarrow> (False, calloc, h', head')
           | Some n \<Rightarrow> if ndata n \<noteq> 0 then (False, calloc, h', head') else (True, calloc, h'(x \<mapsto> n\<lparr>ndata := v\<rparr>), head'))))"

definition tree_rmv :: "tree_state \<Rightarrow> nat \<Rightarrow> bool \<times> tree_state" where
  "tree_rmv s k = (case s of (calloc, h, head) \<Rightarrow>
     (case bf_remove_rbt_entry (tree_fuel h) k h head of Inl _ \<Rightarrow> (False, s)
      | Inr (sts, h', head') \<Rightarrow> (sts = BF_RBT_OK, calloc, h', head')))"

fun tree_call :: "(nat, nat) dict_call \<Rightarrow> tree_state \<Rightarrow> bool \<times> tree_state" where
  "tree_call (Dict_add k v) s = tree_add s k v"
| "tree_call (Dict_rmv k) s = tree_rmv s k"

fun tree_run :: "(nat, nat) dict_call list \<Rightarrow> tree_state \<Rightarrow> bool list \<times> tree_state" where
  "tree_run [] s = ([], s)"
| "tree_run (c # cs) s = (let (r, s) = tree_call c s; (rs, s) = tree_run cs s in (r # rs, s))"

definition tree_ok :: "tree_state \<Rightarrow> bool" where
  "tree_ok s \<longleftrightarrow> (case s of (calloc, h, head) \<Rightarrow>
     fresh calloc \<and> (\<exists>xs. red_black h head xs \<and> (\<forall>x \<in> set xs. 0 < snd (snd x))))"

lemma tree_okE:
  assumes "tree_ok (calloc, h, head)"
  obtains xs where "fresh calloc" "red_black h head xs" "\<And>a k d. (a, k, d) \<in> set xs \<Longrightarrow> 0 < d" "calloc h \<noteq> 0" "calloc h \<notin> dom h"
proof -
  from assms obtain xs where 1: "fresh calloc" "red_black h head xs" "\<forall>x \<in> set xs. 0 < snd (snd x)" by (auto simp: tree_ok_def)
  have new: "calloc h \<noteq> 0" "calloc h \<notin> dom h" using 1(1) red_black_card [OF 1(2)] by (auto simp: fresh_def)
  have pos: "0 < d" if "(a, k, d) \<in> set xs" for a k d using bspec [OF 1(3) that] by simp
  show ?thesis by (rule that [OF 1(1,2) pos new])
qed

lemma tree_okI:
  assumes "fresh calloc" "red_black h head xs" and pos: "\<And>a k d. (a, k, d) \<in> set xs \<Longrightarrow> 0 < d"
  shows "tree_ok (calloc, h, head)"
proof -
  have "\<forall>x \<in> set xs. 0 < snd (snd x)" using pos by auto
  then show ?thesis unfolding tree_ok_def using assms(1,2) by blast
qed

lemma entries_map:
  assumes "sorted_wrt (<) (nkeys xs)"
  shows "map_of (entries xs) k = Some d \<longleftrightarrow> (\<exists>a. (a, k, d) \<in> set xs)"
proof -
  have "distinct (map fst (entries xs))" using assms by (simp add: nkeys_entries [symmetric] strict_sorted_iff)
  then show ?thesis by (force simp: entries_def)
qed

lemma map_eqI: "(\<And>k d. f k = Some d \<longleftrightarrow> g k = Some d) \<Longrightarrow> f = g" for f g :: "'a \<Rightarrow> 'b option"
  by (rule ext) (metis option.exhaust)

lemma tree_fuel_ok: "red_black h head xs \<Longrightarrow> log_fuel (length xs) (tree_fuel h)"
  using red_black_card [of h head xs] log_fuel_enough [of "length xs" "tree_fuel h"] by (simp add: tree_fuel_def)

lemma tree_lookup_ok:
  assumes r: "red_black h head xs"
  shows "tree_lookup (calloc, h, head) = map_of (entries xs)"
proof (rule map_eqI)
  fix k d
  let ?f = "find (\<lambda>x. fst (snd x) \<le> k) (rev xs)"
  note s = red_black_sorted [OF r]
  note bound = red_black_bounds(1) [OF r tree_fuel_ok [OF r], of k]
  have nil: "h 0 = None" using red_black_dom [OF r] by (auto simp: domIff)
  show "tree_lookup (calloc, h, head) k = Some d \<longleftrightarrow> map_of (entries xs) k = Some d"
  proof (cases ?f)
    case None
    then have "\<not> (\<exists>a. (a, k, d) \<in> set xs)" by (auto simp: find_None_all)
    with None bound nil entries_map [OF s] show ?thesis by (simp add: tree_lookup_def)
  next
    case (Some y)
    obtain a j e where y: "y = (a, j, e)" by (cases y)
    have g: "(a, j, e) \<in> set xs" "j \<le> k" "\<And>a' k' d'. (a', k', d') \<in> set xs \<Longrightarrow> k' \<le> k \<Longrightarrow> k' \<le> j"
      using Some find_greatest [OF s, of k a j e] by (auto simp: y)
    obtain n where n: "h a = Some n" "nkey n = j" "ndata n = e" using red_black_node [OF r g(1), of 0] by auto
    have "(\<exists>a. (a, k, d) \<in> set xs) \<longleftrightarrow> j = k \<and> e = d"
      using g entries_map [OF s, of k] by (metis le_antisym option.inject order_refl)
    with Some bound n entries_map [OF s] show ?thesis by (simp add: tree_lookup_def y)
  qed
qed

lemma nkeys_mem: "k \<in> set (nkeys xs) \<longleftrightarrow> (\<exists>a d. (a, k, d) \<in> set xs)"
  by (force simp: nkeys_def)

lemma lookup_none_iff:
  assumes "red_black h head xs"
  shows "tree_lookup (calloc, h, head) k = None \<longleftrightarrow> k \<notin> set (nkeys xs)"
proof -
  have "tree_lookup (calloc, h, head) k = Some d \<longleftrightarrow> (\<exists>a. (a, k, d) \<in> set xs)" for d
    using tree_lookup_ok [OF assms] entries_map [OF red_black_sorted [OF assms]] by simp
  then show ?thesis by (force simp: nkeys_mem)
qed

lemma insert_node_mem: "k \<notin> set (nkeys xs) \<Longrightarrow> set (insert_node (a, k, d) xs) = insert (a, k, d) (set xs)"
  by (auto simp: insert_node_def nkeys_mem not_less_iff_gr_or_eq)

lemma set_data_mem: "(b, j, e) \<in> set (set_data x v xs) \<longleftrightarrow> (\<exists>e'. (b, j, e') \<in> set xs \<and> e = (if b = x then v else e'))"
  by (induction xs) auto

lemma tree_add_new:
  assumes ok: "tree_ok s" and v: "0 < v" and none: "tree_lookup s k = None"
  shows "\<exists>s'. tree_add s k v = (True, s') \<and> tree_ok s' \<and> tree_lookup s' = (tree_lookup s)(k \<mapsto> v)"
proof -
  obtain calloc h head where s: "s = (calloc, h, head)" by (cases s)
  from ok obtain xs where r: "fresh calloc" "red_black h head xs" "\<And>a k d. (a, k, d) \<in> set xs \<Longrightarrow> 0 < d"
    "calloc h \<noteq> 0" "calloc h \<notin> dom h" unfolding s by (elim tree_okE) blast
  let ?x = "calloc h"
  have k: "k \<notin> set (nkeys xs)" using lookup_none_iff [OF r(2)] none by (simp add: s)
  have x: "?x \<notin> fst ` set xs" using r(5) red_black_dom [OF r(2)] by simp
  from red_black_insert [OF r(2) tree_fuel_ok [OF r(2)], of calloc k, OF r(5)] k r(4) obtain h' head' where
    1: "bf_insert_rbt_entry calloc (tree_fuel h) h head k head = Inr (?x, h', head')"
    and 2: "red_black h' head' (insert_node (?x, k, 0) xs)" by auto
  note mem = insert_node_mem [OF k, of ?x 0]
  from red_black_node [OF 2, of ?x k 0 v] mem obtain n where
    n: "h' ?x = Some n" "ndata n = 0" and 3: "red_black (h'(?x \<mapsto> n\<lparr>ndata := v\<rparr>)) head' (set_data ?x v (insert_node (?x, k, 0) xs))" by auto
  let ?s = "(calloc, h'(?x \<mapsto> n\<lparr>ndata := v\<rparr>), head')" and ?ys = "set_data ?x v (insert_node (?x, k, 0) xs)"
  have "(?x, j, e) \<notin> set xs" for j e using x by force
  then have ys: "(b, j, e) \<in> set ?ys \<longleftrightarrow> b = ?x \<and> j = k \<and> e = v \<or> (b, j, e) \<in> set xs" for b j e
    by (cases "b = ?x") (simp_all add: set_data_mem mem)
  have "tree_ok ?s" by (rule tree_okI [OF r(1) 3]) (use ys v r(3) in auto)
  moreover have "tree_lookup ?s = (tree_lookup s)(k \<mapsto> v)"
  proof (rule map_eqI)
    fix j d
    show "tree_lookup ?s j = Some d \<longleftrightarrow> ((tree_lookup s)(k \<mapsto> v)) j = Some d"
      unfolding s tree_lookup_ok [OF 3] tree_lookup_ok [OF r(2)]
      using k by (auto simp: entries_map [OF red_black_sorted [OF 3]] entries_map [OF red_black_sorted [OF r(2)]] ys nkeys_mem)
  qed
  moreover have "tree_add s k v = (True, ?s)" using 1 n by (simp add: tree_add_def s)
  ultimately show ?thesis by blast
qed

lemma tree_add_old:
  assumes ok: "tree_ok s" and some: "tree_lookup s k \<noteq> None"
  shows "tree_add s k v = (False, s)"
proof -
  obtain calloc h head where s: "s = (calloc, h, head)" by (cases s)
  from ok obtain xs where r: "fresh calloc" "red_black h head xs" "\<And>a k d. (a, k, d) \<in> set xs \<Longrightarrow> 0 < d"
    "calloc h \<noteq> 0" "calloc h \<notin> dom h" unfolding s by (elim tree_okE) blast
  have k: "k \<in> set (nkeys xs)" using lookup_none_iff [OF r(2)] some by (simp add: s)
  from red_black_insert [OF r(2) tree_fuel_ok [OF r(2)], of calloc k, OF r(5)] k obtain x d where
    1: "(x, k, d) \<in> set xs" "bf_insert_rbt_entry calloc (tree_fuel h) h head k head = Inr (x, h, head)" by auto
  from red_black_node [OF r(2) 1(1), of 0] r(3) [OF 1(1)] 1(2) show ?thesis by (auto simp: tree_add_def s)
qed

lemma tree_rmv_old:
  assumes ok: "tree_ok s" and some: "tree_lookup s k \<noteq> None"
  shows "\<exists>s'. tree_rmv s k = (True, s') \<and> tree_ok s' \<and> tree_lookup s' = (tree_lookup s)(k := None)"
proof -
  obtain calloc h head where s: "s = (calloc, h, head)" by (cases s)
  from ok obtain xs where r: "fresh calloc" "red_black h head xs" "\<And>a k d. (a, k, d) \<in> set xs \<Longrightarrow> 0 < d"
    unfolding s by (elim tree_okE) blast
  have k: "k \<in> set (nkeys xs)" using lookup_none_iff [OF r(2)] some by (simp add: s)
  from red_black_remove [OF r(2) tree_fuel_ok [OF r(2)], of k] k obtain h' head' ys where
    1: "bf_remove_rbt_entry (tree_fuel h) k h head = Inr (BF_RBT_OK, h', head')" and 2: "red_black h' head' ys"
    and e: "entries ys = filter (\<lambda>e. fst e \<noteq> k) (entries xs)" by auto
  let ?s = "(calloc, h', head')"
  have "0 < d" if "(a, j, d) \<in> set ys" for a j d
  proof -
    have "(j, d) \<in> set (entries ys)" using that by (force simp: entries_def)
    then obtain b where "(b, j, d) \<in> set xs" unfolding e by (force simp: entries_def)
    then show ?thesis by (rule r(3))
  qed
  then have "tree_ok ?s" by (rule tree_okI [OF r(1) 2])
  moreover have "map_of (filter (\<lambda>e. fst e \<noteq> k) zs) = (map_of zs)(k := None)" for zs :: "(nat \<times> nat) list"
    by (induction zs) auto
  then have "tree_lookup ?s = (tree_lookup s)(k := None)"
    using tree_lookup_ok [OF 2] tree_lookup_ok [OF r(2)] e by (simp add: s)
  moreover have "tree_rmv s k = (True, ?s)" using 1 by (simp add: tree_rmv_def s)
  ultimately show ?thesis by blast
qed

lemma tree_rmv_new:
  assumes ok: "tree_ok s" and none: "tree_lookup s k = None"
  shows "tree_rmv s k = (False, s)"
proof -
  obtain calloc h head where s: "s = (calloc, h, head)" by (cases s)
  from ok obtain xs where r: "red_black h head xs" unfolding s by (elim tree_okE) blast
  have k: "k \<notin> set (nkeys xs)" using lookup_none_iff [OF r] none by (simp add: s)
  with red_black_remove [OF r tree_fuel_ok [OF r], of k] show ?thesis by (simp add: tree_rmv_def s)
qed

interpretation rbt_map: dictionary tree_ok tree_lookup "\<lambda>v. 0 < v" tree_add tree_rmv
  by unfold_locales (use tree_add_new tree_add_old tree_rmv_old tree_rmv_new in blast)+

lemma tree_run_dict: "tree_run cs s = rbt_map.dict_run cs s"
proof (induction cs arbitrary: s)
  case (Cons c cs)
  have "tree_call c s = rbt_map.dict_call c s" by (cases c) simp_all
  with Cons show ?case by simp
qed simp

lemma tree_empty_ok: "fresh calloc \<Longrightarrow> tree_ok (calloc, Map.empty, 0)"
  by (rule tree_okI [of calloc Map.empty 0 "[]"])
    (auto simp: red_black_def rbt_at_def rb_tree_def intro!: exI [of _ Lf])

lemma tree_empty_lookup: "tree_lookup (calloc, Map.empty, 0) = Map.empty"
  by (rule ext) (simp add: tree_lookup_def tree_fuel_def bf_get_lower_bound_def)

section \<open>Properties\<close>

text \<open>C8: \<open>bf_insert_rbt_entry\<close> on a red-black tree returns with fuel that is logarithmic in the number of
  nodes. An existing key: its node is returned and nothing changes. No memory: NULL is returned and nothing
  changes. Otherwise the new node is returned, the tree is a red-black tree again (ordered keys, no red
  node with a red child, equal black heights, black root, correct parent pointers), all other nodes keep
  their address, key and data, and the heap has no other nodes.\<close>

theorem rbt_insert_spec:
  assumes "red_black h head xs" and "log_fuel (length xs) fuel" and "calloc h \<notin> dom h"
  shows "if key \<in> set (nkeys xs)
    then \<exists>x d. (x, key, d) \<in> set xs \<and> bf_insert_rbt_entry calloc fuel h head key head = Inr (x, h, head)
    else if calloc h = 0 then bf_insert_rbt_entry calloc fuel h head key head = Inr (0, h, head)
    else \<exists>h' head'. bf_insert_rbt_entry calloc fuel h head key head = Inr (calloc h, h', head') \<and>
      red_black h' head' (insert_node (calloc h, key, 0) xs)"
  using assms by (rule red_black_insert)

text \<open>Three nodes: 20 black with the red children 10 and 30.\<close>

definition heap_nodes :: rheap where
  "heap_nodes =
     [1 \<mapsto> \<lparr>nkey = 20, ncolor = BLACK, nleft = 2, nright = 3, nparent = 0, ndata = 200\<rparr>,
      2 \<mapsto> \<lparr>nkey = 10, ncolor = RED, nleft = 0, nright = 0, nparent = 1, ndata = 100\<rparr>,
      3 \<mapsto> \<lparr>nkey = 30, ncolor = RED, nleft = 0, nright = 0, nparent = 1, ndata = 300\<rparr>]"

lemma heap_nodes_ok: "red_black heap_nodes 1 [(2, 10, 100), (1, 20, 200), (3, 30, 300)]"
  unfolding red_black_def
  by (rule exI [of _ "Nd (Nd Lf 2 RED 10 100 Lf) 1 BLACK 20 200 (Nd Lf 3 RED 30 300 Lf)"])
    (auto simp: rbt_at_def heap_nodes_def rb_tree_def ordered_def)

lemma log_fuel_3: "log_fuel (length [x, y, z]) 6"
  by (simp add: log_fuel_def power2_eq_square)

theorem rbt_insert_spec_witness:
  "\<exists>h' head'. bf_insert_rbt_entry (\<lambda>_. 4) 6 heap_nodes 1 15 1 = Inr (4, h', head') \<and>
    red_black h' head' [(2, 10, 100), (4, 15, 0), (1, 20, 200), (3, 30, 300)]"
  using rbt_insert_spec [OF heap_nodes_ok log_fuel_3, of "\<lambda>_. 4" 15]
  by (simp add: insert_node_def heap_nodes_def)

text \<open>C9: \<open>bf_remove_rbt_entry\<close> on a red-black tree returns with fuel that is logarithmic in the number of
  nodes. An absent key: \<open>BF_RBT_NO_KEY\<close>, and nothing changes. Otherwise \<open>BF_RBT_OK\<close>: the tree is a
  red-black tree again, with exactly the entries (key and data) that have another key, and one node was
  freed.\<close>

theorem rbt_remove_spec:
  assumes "red_black h head xs" and "log_fuel (length xs) fuel"
  shows "if key \<in> set (nkeys xs)
    then \<exists>h' head' ys. bf_remove_rbt_entry fuel key h head = Inr (BF_RBT_OK, h', head') \<and> red_black h' head' ys \<and>
      entries ys = filter (\<lambda>e. fst e \<noteq> key) (entries xs)
    else bf_remove_rbt_entry fuel key h head = Inr (BF_RBT_NO_KEY, h, head)"
  using assms by (rule red_black_remove)

theorem rbt_remove_spec_witness:
  "\<exists>h' head' ys. bf_remove_rbt_entry 6 20 heap_nodes 1 = Inr (BF_RBT_OK, h', head') \<and> red_black h' head' ys \<and>
    entries ys = [(10, 100), (30, 300)]"
  using rbt_remove_spec [OF heap_nodes_ok log_fuel_3, of 20] by simp

text \<open>The node that is freed need not be the one that held the key: here the content of node 3 moves to
  node 1, and 3 is freed, so that a pointer to the node with the key 30 dangles.\<close>

lemma rbt_remove_moves:
  "\<exists>h'. bf_remove_rbt_entry 6 20 heap_nodes 1 = Inr (BF_RBT_OK, h', 1) \<and> h' 3 = None \<and>
    (\<exists>n. h' 1 = Some n \<and> nkey n = 30 \<and> ndata n = 300)"
  by (simp add: bf_remove_rbt_entry_def bf_bst_node_deletion_def heap_nodes_def eval_nat_numeral node_at_def upd_node_def
      bf_get_successor_rbt_node_def bf_get_rbt_node_direction_def has_key_def)

text \<open>C10: any sequence of insertions (with a datum that is not NULL, written to the new node) and removals,
  from the empty tree, returns the statuses (whether the key was new, whether it was there) and leaves the
  content that the same sequence returns and leaves on a finite map, as the search sees it, and a
  red-black tree in the heap.\<close>

theorem rbt_calls_refine:
  assumes "fresh calloc" and "\<forall>c \<in> set cs. rbt_map.call_ok c"
  shows "\<exists>s. tree_run cs (calloc, Map.empty, 0) = (dict_replies cs Map.empty, s) \<and>
    tree_lookup s = fold dict_spec cs Map.empty \<and> tree_ok s"
proof -
  from rbt_map.run_replies [OF tree_empty_ok [OF assms(1)] assms(2)]
    rbt_map.run_spec [OF tree_empty_ok [OF assms(1)] assms(2)]
  show ?thesis by (simp add: tree_empty_lookup tree_run_dict)
qed

definition next_free :: "rheap \<Rightarrow> nat" where
  "next_free h = Suc (Max (insert 0 (dom h)))"

lemma next_free_fresh: "fresh next_free"
proof -
  have "next_free h \<notin> dom h" if "finite (dom h)" for h
  proof
    assume "next_free h \<in> dom h"
    then have "next_free h \<le> Max (insert 0 (dom h))" using that by simp
    then show False by (simp add: next_free_def)
  qed
  then show ?thesis by (simp add: fresh_def next_free_def)
qed

theorem rbt_calls_refine_witness:
  "\<exists>s. tree_run [Dict_add 5 1, Dict_add 3 2, Dict_add 5 9, Dict_add 9 7, Dict_rmv 5, Dict_rmv 4] (next_free, Map.empty, 0) =
      ([True, True, False, True, True, False], s) \<and> tree_lookup s = [3 \<mapsto> 2, 9 \<mapsto> 7] \<and> tree_ok s"
proof -
  let ?cs = "[Dict_add 5 1, Dict_add 3 2, Dict_add 5 9, Dict_add 9 7, Dict_rmv 5, Dict_rmv 4]"
  have f: "fold dict_spec ?cs Map.empty = [3 \<mapsto> 2, (9 :: nat) \<mapsto> (7 :: nat)]" by (rule ext) simp
  have r: "dict_replies ?cs (Map.empty :: nat \<rightharpoonup> nat) = [True, True, False, True, True, False]" by simp
  have "\<forall>c \<in> set ?cs. rbt_map.call_ok c" by (simp add: rbt_map.call_ok_def)
  from rbt_calls_refine [OF next_free_fresh this, unfolded f r] show ?thesis .
qed

text \<open>The searches return with fuel that is logarithmic in the number of nodes.
  \<open>bf_get_lower_bound\<close> returns the node with the greatest key that is at most the given one, \<open>bf_get_upper_bound\<close>
  the node with the least key that is at least the given one, and both return NULL exactly when there is
  none.\<close>

lemma rbt_bounds_spec:
  assumes r: "red_black h head xs" and fuel: "log_fuel (length xs) fuel"
  shows "\<exists>x y. bf_get_lower_bound fuel key h head = Inr x \<and> bf_get_upper_bound fuel key h head = Inr y \<and>
    (if \<exists>k \<in> set (nkeys xs). k \<le> key
     then \<exists>k d. (x, k, d) \<in> set xs \<and> k \<le> key \<and> (\<forall>k' \<in> set (nkeys xs). k' \<le> key \<longrightarrow> k' \<le> k) else x = 0) \<and>
    (if \<exists>k \<in> set (nkeys xs). key \<le> k
     then \<exists>k d. (y, k, d) \<in> set xs \<and> key \<le> k \<and> (\<forall>k' \<in> set (nkeys xs). key \<le> k' \<longrightarrow> k \<le> k') else y = 0)"
proof -
  note s = red_black_sorted [OF r]
  let ?l = "find (\<lambda>x. fst (snd x) \<le> key) (rev xs)" and ?u = "find (\<lambda>x. key \<le> fst (snd x)) xs"
  have l: "if \<exists>k \<in> set (nkeys xs). k \<le> key
     then \<exists>k d. (addr_or 0 ?l, k, d) \<in> set xs \<and> k \<le> key \<and> (\<forall>k' \<in> set (nkeys xs). k' \<le> key \<longrightarrow> k' \<le> k) else addr_or 0 ?l = 0"
  proof (cases ?l)
    case None
    moreover from None have "\<forall>x \<in> set xs. \<not> fst (snd x) \<le> key" by (simp add: find_None_all)
    ultimately show ?thesis by (auto simp: nkeys_def)
  next
    case (Some y)
    obtain a k d where y: "y = (a, k, d)" by (cases y)
    show ?thesis using Some find_greatest [OF s, of key a k d] by (fastforce simp: y nkeys_mem)
  qed
  have u: "if \<exists>k \<in> set (nkeys xs). key \<le> k
     then \<exists>k d. (addr_or 0 ?u, k, d) \<in> set xs \<and> key \<le> k \<and> (\<forall>k' \<in> set (nkeys xs). key \<le> k' \<longrightarrow> k \<le> k') else addr_or 0 ?u = 0"
  proof (cases ?u)
    case None
    moreover from None have "\<forall>x \<in> set xs. \<not> key \<le> fst (snd x)" by (simp add: find_None_all)
    ultimately show ?thesis by (auto simp: nkeys_def)
  next
    case (Some y)
    obtain a k d where y: "y = (a, k, d)" by (cases y)
    show ?thesis using Some find_least [OF s, of key a k d] by (fastforce simp: y nkeys_mem)
  qed
  from l u red_black_bounds [OF r fuel, of key] show ?thesis by blast
qed

text \<open>\<open>bf_get_lowest_key_node\<close> and \<open>bf_get_highest_key_node\<close> return the nodes with the least and the
  greatest key, NULL for the empty tree, with logarithmic fuel.\<close>

lemma rbt_ends_spec:
  assumes r: "red_black h head xs" and fuel: "log_fuel (length xs) fuel"
  shows "bf_get_lowest_key_node fuel h head = Inr (if xs = [] then 0 else fst (hd xs)) \<and>
    bf_get_highest_key_node fuel h head = Inr (if xs = [] then 0 else fst (last xs))"
proof -
  obtain t where t: "rb_tree t" "nodes t = xs" "rep h 0 t" "0 \<notin> set (addrs t)" "head = root t" using r by (elim red_blackE)
  have h: "height t + 2 \<le> fuel" using log_fuel_height t fuel by simp
  with t leftmost_loop_ok [OF t(3,4), of fuel] rightmost_loop_ok [OF t(3,4), of fuel] show ?thesis
    by (cases "t = Lf") (auto simp: bf_get_lowest_key_node_def bf_get_highest_key_node_def root_0_iff nodes_Nil_iff)
qed

text \<open>C31: The searches of the tree return, with fuel that is logarithmic in the number of nodes.
  \<open>bf_get_lower_bound\<close> returns the node with the greatest key that is at most the given one,
  \<open>bf_get_upper_bound\<close> the node with the least key that is at least the given one, and both return
  NULL exactly when there is none; \<open>bf_get_lowest_key_node\<close> and \<open>bf_get_highest_key_node\<close> return the
  nodes with the least and the greatest key of all, NULL for the empty tree.\<close>

theorem rbt_searches_spec:
  assumes r: "red_black h head xs" and fuel: "log_fuel (length xs) fuel"
  shows "\<exists>x y. bf_get_lower_bound fuel key h head = Inr x \<and> bf_get_upper_bound fuel key h head = Inr y \<and>
    (if \<exists>k \<in> set (nkeys xs). k \<le> key
     then \<exists>k d. (x, k, d) \<in> set xs \<and> k \<le> key \<and> (\<forall>k' \<in> set (nkeys xs). k' \<le> key \<longrightarrow> k' \<le> k) else x = 0) \<and>
    (if \<exists>k \<in> set (nkeys xs). key \<le> k
     then \<exists>k d. (y, k, d) \<in> set xs \<and> key \<le> k \<and> (\<forall>k' \<in> set (nkeys xs). key \<le> k' \<longrightarrow> k \<le> k') else y = 0) \<and>
    bf_get_lowest_key_node fuel h head = Inr (if xs = [] then 0 else fst (hd xs)) \<and>
    bf_get_highest_key_node fuel h head = Inr (if xs = [] then 0 else fst (last xs)) \<and>
    sorted_wrt (<) (nkeys xs)"
  using rbt_bounds_spec [OF assms, of key] rbt_ends_spec [OF assms] red_black_sorted [OF r] by blast

lemma rbt_searches_spec_witness:
  "bf_get_lower_bound 6 25 heap_nodes 1 = Inr 1 \<and> bf_get_upper_bound 6 31 heap_nodes 1 = Inr 0 \<and>
    bf_get_lowest_key_node 6 heap_nodes 1 = Inr 2 \<and> bf_get_highest_key_node 6 heap_nodes 1 = Inr 3"
  using rbt_searches_spec [OF heap_nodes_ok log_fuel_3, of 25] rbt_searches_spec [OF heap_nodes_ok log_fuel_3, of 31]
  by auto

end
