(* ===== verification/Target_Utils.thy ===== *)
theory Target_Utils
  imports Main
begin

text \<open>
  src/target\_utils.c: the version strings. \<open>TARGET_UTILS_BLD_VER\<close> and \<open>TARGET_UTILS_GIT_VER\<close> are
  \<open>Some\<close> string when the build defines them, \<open>None\<close> for the defaults of the source. Adjacent
  string literals are concatenated.
\<close>

definition target_utils_bld_ver :: "string option \<Rightarrow> string" where
  "target_utils_bld_ver bld = (case bld of None \<Rightarrow> ''0'' | Some s \<Rightarrow> s)"

definition target_utils_git_ver :: "string option \<Rightarrow> string" where
  "target_utils_git_ver git = (case git of None \<Rightarrow> ''000'' | Some s \<Rightarrow> s)"

definition target_utils_get_version :: "string option \<Rightarrow> string" where
  "target_utils_get_version bld = ''9.8.0'' @ ''-'' @ target_utils_bld_ver bld"

definition target_utils_get_internal_version :: "string option \<Rightarrow> string option \<Rightarrow> string" where
  "target_utils_get_internal_version bld git = target_utils_get_version bld @ ''('' @ target_utils_git_ver git @ '')''"

lemma internal_version_extends: "\<exists>s. target_utils_get_internal_version bld git = target_utils_get_version bld @ s"
  by (simp add: target_utils_get_internal_version_def)

lemma default_version: "target_utils_get_internal_version None None = ''9.8.0-0(000)''"
  by (simp add: target_utils_get_internal_version_def target_utils_get_version_def target_utils_bld_ver_def target_utils_git_ver_def)

end
