(* ===== verification/Spec2Isabelle.thy ===== *)
theory Spec2Isabelle
  imports Prelude Bit_Utils Judy Judy1 Allocator Dictionary
    Power2 Power2_Chunks Power2_Lists Power2_Inv Power2_Ops Power2_Check Power2_Create Power2_Multi
    Power2_Spec Power2_Props Power2_Client Power2_Utest Failures Power2_Failures Power2_Recovery Id Id_Props Id_Client Map_Judy Map_Client FBitset Bitset Bitset_Ops Bitset_Props Bit_Set
    Container_Failures
    Dll Dll_Lists Hashtbl Rbt Rbt_Tree Rbt_Search Rbt_Insert Rbt_Rebalance Rbt_Remove Rbt_State Rbt_Props Target_Utils
begin

text \<open>
  A verification development for target-utils, the utility library of the P4 target drivers
  (src/src and src/include/target-utils). The library is a set of independent containers and
  allocators; most of them keep their data in Judy arrays.

  \<^bold>\<open>Vocabulary.\<close> Prelude: C functions are HOL functions into \<open>fault + value\<close>, where a fault is a
  failed assertion, an access through NULL or outside an array, a shift by too much, an \<open>int\<close> that
  overflows, or a loop that does not end; \<open>uint32_t\<close> arithmetic is written out modulo \<open>2 ^ 32\<close>
  (\<open>add32\<close>, \<open>sub32\<close>, \<open>mul32\<close>, \<open>s32\<close>). Judy and Judy1: the Judy macros the sources call, as the manual
  pages of the vendored library document them; the record \<open>env\<close> holds what they and the system
  layer leave open: which insertions fail, what a failed search leaves in \<open>Index\<close>, which calls of
  malloc fail, whether assertions are compiled in. \<open>quiet\<close> environments have memory.

  \<^bold>\<open>Components, in the order of the development.\<close>

  \<^item> Bit\_Utils: include/target-utils/bit\_utils/bit\_utils.h. Characterised by powers of two.

  \<^item> Power2: src/power2\_allocator/power2\_allocator.c, a pool of units from which blocks are handed
    out, aligned at powers of two. The record \<open>power2_allocator\<close> is the struct: the free lists (one
    JudyL array per size class) and the list of blocks in use. Every function is a definition of
    the same name. \<open>POWER2_ALLOCATOR_ASSERT\<close> expands to nothing in the source.
    Power2\_Chunks says how a gap between blocks is cut into aligned chunks, Power2\_Lists what the
    free lists of a set of chunks are, Power2\_Inv the invariant \<open>p2_inv\<close>: the blocks in use are
    ordered and disjoint, and the free lists are exactly the chunks of the gaps between them, so the
    state is determined by the blocks in use; \<open>first_chunk\<close> and \<open>last_in\<close> say which chunk an allocation
    takes and where in it the block lies. Power2\_Ops, Power2\_Create and Power2\_Multi give the
    effect of each operation; Power2\_Check shows that the run-time check of the source holds in
    every state with the invariant. Power2\_Spec states the abstract pool (a map from start to size
    of the blocks in use) with its steps, and the simulation of the operations by these steps;
    Power2\_Props has the properties, Power2\_Client sequences of all calls with their results against the
    abstract pool (\<open>pool_reply\<close>), and Power2\_Utest the unit test of the source. Power2\_Recovery is about
    the whole life of a pool: its struct stays well formed (\<open>p2_typed\<close>), and releasing the blocks in use
    always brings back the pool that was created.

  \<^item> Failures, Power2\_Failures, Container\_Failures: what the calls do when allocations fail. An environment
    with \<open>only_inserts\<close> may let any insertion into a Judy array fail; \<open>calm\<close> is the same
    environment with memory and \<open>short_of\<close> relates the two runs. The pool keeps its blocks in use and may
    lose free space; the id allocator may hand out an id twice; the map reports exactly the failed insertions (\<open>map_trace\<close> in Map\_Client).

  \<^item> Allocator: the contract that the pool and the ids share, a locale \<open>block_allocator\<close>, interpreted
    on Power2 (\<open>p2\<close>) and on Id (\<open>ids\<close>).

  \<^item> Id, Id\_Props, Id\_Client: src/id/id.c, ids in a Judy1 array. The search of the contiguous allocation reads
    \<open>Index\<close> after a search that found nothing, which the Judy manual leaves open; the parameter \<open>lost\<close> is
    what it holds then. \<open>id_contiguous_spec\<close> says what the call does for every \<open>lost\<close>: it is first fit while a
    run is \<open>findable\<close> (from the first free id on, or below a taken id), and only without such a run its
    result hangs on \<open>lost\<close>; \<open>id_contiguous_lost_index\<close> says what happens then with the vendored Judy.
    Id\_Client runs sequences of all calls against the set of the indexes in use (\<open>id_step\<close>), several ids being
    asked for only where the result does not hang on \<open>lost\<close> (\<open>decided\<close>).

  \<^item> Dictionary, Map\_Judy, Map\_Client: the contract of a finite map with status codes (locale \<open>dictionary\<close>), and
    src/map/map.c, which implements it (\<open>judy_map\<close>) for data that are not NULL. Map\_Client runs sequences of
    all calls, with their statuses and output arguments, against a HOL map (\<open>map_step\<close>), with memory and without.

  \<^item> FBitset: src/fbitset/fbitset.c, a bit set in a Judy1 array with searches for runs of clear bits.

  \<^item> Bitset, Bitset\_Ops, Bitset\_Props: src/bitset/bitset.c, a bit set in an array of 64-bit words, the
    words as \<open>64 word\<close>. All properties are over the bits (\<open>bs_bit\<close>).

  \<^item> Bit\_Set: the contract of the two bit sets, a locale \<open>bit_set\<close>, interpreted on Bitset (\<open>words\<close>) and
    on FBitset (\<open>judy_bits\<close>), and that they are interchangeable.

  \<^item> Dll, Dll\_Lists: include/target-utils/list/bf\_list.h, macros for doubly linked lists, over a heap of cells.
    \<open>dll\<close> says which list a list variable stands for; Dll\_Lists has programs over many lists in one heap.

  \<^item> Hashtbl: src/hashtbl/hashtbl.c. The hash table of tommyds and the hash function of xxHash are
    parameters (\<open>tommy_ok\<close> is the documented contract); the table refines a bag of data (\<open>bag_step\<close>, \<open>bag_run\<close>),
    call by call and with every reply, also when a calloc fails.

  \<^item> Rbt: src/rbt/rbt.c, a red-black tree of nodes with parent pointers in a heap. Rbt\_Tree relates heaps
    to trees (\<open>rbt_at\<close>) and a node inside a tree to its subtree and its context, and has the two
    rotations; Rbt\_Search the searches; Rbt\_Insert insertion with its recolouring and rotations;
    Rbt\_Rebalance the loop that balances before a black leaf is freed, with the tree counted without
    this leaf (\<open>cut\<close>); Rbt\_Remove the removal. Rbt\_State hides the trees: \<open>red_black h head xs\<close> is a
    red-black tree with the nodes \<open>xs\<close> and nothing else in the heap. Rbt\_Props has the properties and
    the second interpretation of \<open>dictionary\<close> (\<open>rbt_map\<close>), a client that keeps its data in the nodes.

  \<^item> Target\_Utils: src/target\_utils.c, the version strings.

  \<^bold>\<open>Bounds and fuel.\<close> Loops over words, runs and lists are recursive functions with termination
  proofs. Two loops can run for ever and have fuel: the search of \<open>power2_allocator_alloc_multiple\<close>,
  with \<open>W32\<close> iterations (every iteration that goes on moves the index, so that after so many the
  search has visited a state twice), and the search of \<open>bf_id_allocator_allocate_contiguous\<close>, with
  two iterations more than there are ids in use. Running out of it is the fault \<open>Diverges\<close>; the
  properties show both that it does not happen under their hypotheses and that it can happen.
  The loops of the tree have fuel because a heap may have cycles; on a red-black tree with \<open>n\<close> nodes
  \<open>4 * (n + 1)^2 \<le> 2 ^ fuel\<close> is enough (\<open>log_fuel\<close>), so all its operations are logarithmic.

  \<^bold>\<open>Not modelled.\<close> Two pieces of the sources are under macros that nothing defines and no longer compile:
  \<open>power2_allocator_set\<close> (NOT\_COMPLETE; it calls functions that do not exist) and \<open>id_main\<close> in
  id.c (BF\_ID\_ALLOCATOR\_TEST, written for an older interface). The arrays of \<open>count\<close> entries
  on the stack in \<open>power2_allocator_alloc_int_v2\<close> are taken to fit. The vendored and third-party libraries are not modelled: Judy is used by its
  documentation, and tommyds, xxHash, cJSON and target-syslibs are not part of the repository. Freed
  memory is tracked in the red-black tree (a freed node leaves the heap); elsewhere only a destroyed
  object is gone. Concurrency is left to the
  callers by the library itself.
\<close>

end
